(* ===== verification/NwPrelude.thy ===== *)
theory NwPrelude
  imports Main "HOL-Library.Word"
begin

text \<open>
  Shared ground of the development: the C types the program uses, checked array reads,
  little-endian integers, NUL-terminated strings, decimal text, and the generic list lemmas
  that the component theories use.

  A byte of C memory is a \<open>char\<close> (Isabelle's \<open>char\<close> has exactly 256 values), so a buffer, a
  path and a name are all \<open>char list\<close>, and the literals of the source are the literals here.
  A read of an array goes through \<open>idx\<close>, whose \<open>None\<close> is a read past the end, so that
  memory safety is a statement about the model and not an assumption of it.
\<close>

unbundle bit_operations_syntax

type_synonym byte = char
type_synonym bytes = "char list"
type_synonym u8 = "8 word"
type_synonym u16 = "16 word"
type_synonym u32 = "32 word"
type_synonym u64 = "64 word"

named_theorems nw_simps \<comment> \<open>rewrites every component proof may use\<close>
named_theorems nw_spec  \<comment> \<open>lemmas replacing an operation by its specification\<close>

abbreviation NUL :: byte where "NUL \<equiv> CHR 0x00"

subsection \<open>Checked array reads\<close>

definition idx :: "'a list \<Rightarrow> nat \<Rightarrow> 'a option" where
  "idx xs i = (if i < length xs then Some (xs ! i) else None)"

lemma idx_in [nw_simps]: "i < length xs \<Longrightarrow> idx xs i = Some (xs ! i)"
  by (simp add: idx_def)

lemma idx_None_iff: "idx xs i = None \<longleftrightarrow> length xs \<le> i"
  by (auto simp: idx_def)

lemma idx_drop: "i \<le> length xs \<Longrightarrow> idx (drop i xs) j = idx xs (i + j)"
  by (auto simp: idx_def)

text \<open>\<open>n\<close> bytes at offset \<open>k\<close>: the extent of a field inside a packed struct.\<close>

definition sub :: "nat \<Rightarrow> nat \<Rightarrow> 'a list \<Rightarrow> 'a list" where
  "sub k n xs = take n (drop k xs)"

lemma length_sub [simp]: "length (sub k n xs) = min n (length xs - k)"
  by (simp add: sub_def)

lemma sub_append1: "k + n \<le> length xs \<Longrightarrow> sub k n (xs @ ys) = sub k n xs"
  by (simp add: sub_def)

lemma sub_append2: "length xs \<le> k \<Longrightarrow> sub k n (xs @ ys) = sub (k - length xs) n ys"
  by (simp add: sub_def)

lemma sub_all: "length xs = n \<Longrightarrow> sub 0 n xs = xs"
  by (simp add: sub_def)

lemma sub_sub: "i + m \<le> n \<Longrightarrow> sub i m (sub k n xs) = sub (k + i) m xs"
  by (simp add: sub_def take_drop ac_simps min_absorb1)

lemma sub_join: "sub k m xs @ sub (k + m) n xs = sub k (m + n) xs"
  by (simp add: sub_def take_add ac_simps)

lemma sub_join_to: "k + m = l \<Longrightarrow> sub k m xs @ sub l n xs = sub k (m + n) xs"
  using sub_join by blast

lemma sub_join_to_append: "k + m = l \<Longrightarrow> sub k m xs @ sub l n xs @ zs = sub k (m + n) xs @ zs"
  using sub_join_to [of k m l xs n] by simp

lemma sub_nth: "i < n \<Longrightarrow> k + n \<le> length xs \<Longrightarrow> sub k n xs ! i = xs ! (k + i)"
  by (simp add: sub_def)

text \<open>A loop from \<open>i\<close> to \<open>n\<close> looks at \<open>i\<close> and goes on from \<open>i + 1\<close>.\<close>

lemma all_from_Suc:
  fixes i n :: nat
  shows "i < n \<Longrightarrow> (\<forall>j. i \<le> j \<and> j < n \<longrightarrow> P j) \<longleftrightarrow> P i \<and> (\<forall>j. Suc i \<le> j \<and> j < n \<longrightarrow> P j)"
  by (metis le_antisym not_less_eq_eq order_refl Suc_leD)

text \<open>No two selected elements agree, said by looking backwards from each position.\<close>

lemma distinct_map_filter_conv:
  "distinct (map f (filter P xs)) \<longleftrightarrow>
     (\<forall>j<length xs. P (xs ! j) \<longrightarrow> (\<forall>k<j. P (xs ! k) \<longrightarrow> f (xs ! k) \<noteq> f (xs ! j)))"
proof (induction xs rule: rev_induct)
  case Nil
  then show ?case by simp
next
  case (snoc x xs)
  have "(\<forall>y\<in>set xs. P y \<longrightarrow> f y \<noteq> f x) \<longleftrightarrow> (\<forall>k<length xs. P (xs ! k) \<longrightarrow> f (xs ! k) \<noteq> f x)"
    by (metis in_set_conv_nth)
  with snoc.IH show ?case
    by (auto simp: less_Suc_eq nth_append image_iff dest: less_trans)
qed

lemma distinct_map_conv:
  "distinct (map f xs) \<longleftrightarrow> (\<forall>j<length xs. \<forall>k<j. f (xs ! k) \<noteq> f (xs ! j))"
  using distinct_map_filter_conv [of f "\<lambda>_. True" xs] by simp

subsection \<open>Little-endian integers\<close>

fun le_nat :: "bytes \<Rightarrow> nat" where
  "le_nat [] = 0"
| "le_nat (b # bs) = of_char b + 256 * le_nat bs"

fun le_enc :: "nat \<Rightarrow> nat \<Rightarrow> bytes" where
  "le_enc 0 v = []"
| "le_enc (Suc n) v = char_of (v mod 256) # le_enc n (v div 256)"

lemma length_le_enc [simp]: "length (le_enc n v) = n"
  by (induction n arbitrary: v) auto

lemma le_enc_zero: "le_enc n 0 = replicate n NUL"
proof -
  have "(char_of (0 :: nat)) = NUL" by code_simp
  then show ?thesis by (induction n) simp_all
qed

lemma le_nat_bound: "le_nat bs < 256 ^ length bs"
proof (induction bs)
  case Nil
  then show ?case by simp
next
  case (Cons b bs)
  have "(of_char b :: nat) < 256" by (rule nat_of_char_less_256)
  then have "of_char b + 256 * le_nat bs < 256 * 256 ^ length bs"
    using Cons.IH by linarith
  then show ?case by simp
qed

lemma le_nat_le_enc: "le_nat (le_enc n v) = v mod 256 ^ n"
proof (induction n arbitrary: v)
  case 0
  then show ?case by simp
next
  case (Suc n)
  have "le_nat (le_enc (Suc n) v) = v mod 256 + 256 * (v div 256 mod 256 ^ n)"
    by (simp add: Suc.IH)
  also have "\<dots> = v mod (256 * 256 ^ n)"
    by (simp add: mod_mult2_eq)
  finally show ?case by simp
qed

lemma le_enc_le_nat: "le_enc (length bs) (le_nat bs) = bs"
proof (induction bs)
  case Nil
  then show ?case by simp
next
  case (Cons b bs)
  have lt: "(of_char b :: nat) < 256" by (rule nat_of_char_less_256)
  have "(of_char b + 256 * le_nat bs) mod 256 = of_char b"
    and "(of_char b + 256 * le_nat bs) div 256 = le_nat bs"
    using lt by simp_all
  with Cons.IH show ?case by simp
qed

text \<open>A word read from, and stored to, memory in the byte order of the machine.\<close>

definition rd :: "nat \<Rightarrow> nat \<Rightarrow> bytes \<Rightarrow> 'a::len word" where
  "rd k n bs = word_of_nat (le_nat (sub k n bs))"

definition wr :: "nat \<Rightarrow> 'a::len word \<Rightarrow> bytes" where
  "wr n w = le_enc n (unat w)"

lemma length_wr [simp]: "length (wr n w) = n"
  by (simp add: wr_def)

lemma rd_wr: "LENGTH('a::len) = 8 * n \<Longrightarrow> rd 0 n (wr n (w :: 'a word)) = w"
proof -
  assume len: "LENGTH('a) = 8 * n"
  have "(256::nat) ^ n = 2 ^ LENGTH('a)"
    by (simp add: len power_mult)
  then have "unat w mod 256 ^ n = unat w"
    by (simp add: unsigned_less)
  then show ?thesis
    by (simp add: rd_def wr_def sub_all le_nat_le_enc)
qed

lemma rd_append1: "k + n \<le> length xs \<Longrightarrow> rd k n (xs @ ys) = rd k n xs"
  by (simp add: rd_def sub_append1)

lemma rd_append2: "length xs \<le> k \<Longrightarrow> rd k n (xs @ ys) = rd (k - length xs) n ys"
  by (simp add: rd_def sub_append2)

lemma wr_rd:
  assumes "LENGTH('a::len) = 8 * n" and "k + n \<le> length bs"
  shows "wr n (rd k n bs :: 'a word) = sub k n bs"
proof -
  have len: "length (sub k n bs) = n" using assms(2) by simp
  have "le_nat (sub k n bs) < 2 ^ LENGTH('a)"
    using le_nat_bound [of "sub k n bs"] len assms(1) by (simp only: power_mult) simp
  then have "unat (rd k n bs :: 'a word) = le_nat (sub k n bs)"
    by (simp add: rd_def unat_of_nat take_bit_eq_mod)
  with len show ?thesis
    using le_enc_le_nat [of "sub k n bs"] by (simp add: wr_def)
qed

lemma unat_bounds:
  "unat (b :: u8) < 256" "unat (h :: u16) < 65536" "unat (w :: u32) < 4294967296"
  "unat (q :: u64) < 18446744073709551616"
  by (rule order_less_le_trans [OF unsigned_less], simp)+

subsection \<open>NUL-terminated strings\<close>

text \<open>The C string at the start of a buffer: everything before the first NUL.\<close>

definition cstr :: "bytes \<Rightarrow> bytes" where
  "cstr bs = takeWhile (\<lambda>c. c \<noteq> NUL) bs"

lemma cstr_no_NUL: "NUL \<notin> set (cstr bs)"
  by (auto simp: cstr_def dest: set_takeWhileD)

lemma length_cstr: "length (cstr bs) \<le> length bs"
  by (simp add: cstr_def length_takeWhile_le)

lemma cstr_pad [simp]: "NUL \<notin> set p \<Longrightarrow> cstr (p @ replicate n NUL) = p"
proof -
  assume "NUL \<notin> set p"
  then have "\<forall>c\<in>set p. c \<noteq> NUL" by auto
  then show ?thesis by (cases n) (auto simp: cstr_def takeWhile_append2)
qed

text \<open>
  A fixed-width field holds a string when the string is followed by nothing but NULs up to
  the end of the field, and at least one NUL is there.
\<close>

definition padded :: "bytes \<Rightarrow> bool" where
  "padded s \<longleftrightarrow> length (cstr s) < length s \<and> (\<forall>c\<in>set (drop (length (cstr s)) s). c = NUL)"

lemma padded_eq: "padded s \<Longrightarrow> s = cstr s @ replicate (length s - length (cstr s)) NUL"
proof -
  assume p: "padded s"
  have 1: "s = cstr s @ drop (length (cstr s)) s"
    unfolding cstr_def dropWhile_eq_drop [symmetric] by simp
  have 2: "drop (length (cstr s)) s = replicate (length s - length (cstr s)) NUL"
    using p by (intro replicate_eqI) (auto simp: padded_def)
  from 1 show ?thesis by (simp only: 2)
qed

lemma padded_inj: "padded s \<Longrightarrow> padded t \<Longrightarrow> length s = length t \<Longrightarrow> cstr s = cstr t \<longleftrightarrow> s = t"
  by (metis padded_eq)

subsection \<open>Character classes of the source\<close>

definition name_char :: "byte \<Rightarrow> bool" where
  "name_char c \<longleftrightarrow> (let n = (of_char c :: nat) in
     65 \<le> n \<and> n \<le> 90 \<or> 97 \<le> n \<and> n \<le> 122 \<or> 48 \<le> n \<and> n \<le> 57 \<or> n = 95 \<or> n = 45)"

definition digit_char :: "byte \<Rightarrow> bool" where
  "digit_char c \<longleftrightarrow> 48 \<le> (of_char c :: nat) \<and> (of_char c :: nat) \<le> 57"

lemma name_char_not_NUL: "name_char c \<Longrightarrow> c \<noteq> NUL"
  by (auto simp: name_char_def)

lemma name_char_not_slash: "name_char c \<Longrightarrow> c \<noteq> CHR ''/'' \<and> c \<noteq> CHR ''.''"
  by (auto simp: name_char_def)

end
