(* ===== verification/Sha256.thy ===== *)
theory Sha256
  imports NwPrelude
begin

text \<open>
  \<^verbatim>\<open>sha256.c\<close>: the hash that names evidence packages and bricks. The block function and the
  tail buffer are modelled as the C has them: one 128-byte buffer that holds the remainder, the
  \<open>0x80\<close> and the length, hashed as one block or two. The specification is the standard's: pad the
  message, cut it into 64-byte blocks, and fold the compression function over them. A locale states
  what the tail handling needs of the compression function, so the equivalence does not depend on
  the rounds.
\<close>

subsection \<open>The block function\<close>

text \<open>The round constants, four to a row as in the source.\<close>

definition row4 :: "u32 \<Rightarrow> u32 \<Rightarrow> u32 \<Rightarrow> u32 \<Rightarrow> u32 list" where
  "row4 a b c d = [a, b, c, d]"

definition K :: "u32 list" where
  "K = row4 0x428a2f98 0x71374491 0xb5c0fbcf 0xe9b5dba5
     @ row4 0x3956c25b 0x59f111f1 0x923f82a4 0xab1c5ed5
     @ row4 0xd807aa98 0x12835b01 0x243185be 0x550c7dc3
     @ row4 0x72be5d74 0x80deb1fe 0x9bdc06a7 0xc19bf174
     @ row4 0xe49b69c1 0xefbe4786 0x0fc19dc6 0x240ca1cc
     @ row4 0x2de92c6f 0x4a7484aa 0x5cb0a9dc 0x76f988da
     @ row4 0x983e5152 0xa831c66d 0xb00327c8 0xbf597fc7
     @ row4 0xc6e00bf3 0xd5a79147 0x06ca6351 0x14292967
     @ row4 0x27b70a85 0x2e1b2138 0x4d2c6dfc 0x53380d13
     @ row4 0x650a7354 0x766a0abb 0x81c2c92e 0x92722c85
     @ row4 0xa2bfe8a1 0xa81a664b 0xc24b8b70 0xc76c51a3
     @ row4 0xd192e819 0xd6990624 0xf40e3585 0x106aa070
     @ row4 0x19a4c116 0x1e376c08 0x2748774c 0x34b0bcb5
     @ row4 0x391c0cb3 0x4ed8aa4a 0x5b9cca4f 0x682e6ff3
     @ row4 0x748f82ee 0x78a5636f 0x84c87814 0x8cc70208
     @ row4 0x90befffa 0xa4506ceb 0xbef9a3f7 0xc67178f2"

definition H0 :: "u32 list" where
  "H0 = [0x6a09e667, 0xbb67ae85, 0x3c6ef372, 0xa54ff53a,
         0x510e527f, 0x9b05688c, 0x1f83d9ab, 0x5be0cd19]"

definition rotr :: "u32 \<Rightarrow> nat \<Rightarrow> u32" where
  "rotr x n = drop_bit n x OR push_bit (32 - n) x"

definition byte32 :: "byte \<Rightarrow> u32" where
  "byte32 c = word_of_nat (of_char c)"

text \<open>\<open>w[i]\<close> for \<open>i < 16\<close>: four bytes of the block, most significant first.\<close>

definition block_word :: "bytes \<Rightarrow> nat \<Rightarrow> u32" where
  "block_word block i =
     push_bit 24 (byte32 (block ! (i * 4 + 0))) OR push_bit 16 (byte32 (block ! (i * 4 + 1)))
     OR push_bit 8 (byte32 (block ! (i * 4 + 2))) OR byte32 (block ! (i * 4 + 3))"

text \<open>The second loop of the schedule: \<open>w\<close> holds the words below \<open>i\<close>, and \<open>w[i]\<close> is added.\<close>

definition sched_step :: "nat \<Rightarrow> u32 list \<Rightarrow> u32 list" where
  "sched_step i w =
     (let s0 = rotr (w ! (i - 15)) 7 XOR rotr (w ! (i - 15)) 18 XOR drop_bit 3 (w ! (i - 15));
          s1 = rotr (w ! (i - 2)) 17 XOR rotr (w ! (i - 2)) 19 XOR drop_bit 10 (w ! (i - 2))
      in w @ [w ! (i - 16) + s0 + w ! (i - 7) + s1])"

definition schedule :: "bytes \<Rightarrow> u32 list" where
  "schedule block = fold sched_step [16..<64] (map (block_word block) [0..<16])"

text \<open>The eight working variables, \<open>a\<close> to \<open>hh\<close>, and one round on them.\<close>

record sha_vars =
  v_a :: u32
  v_b :: u32
  v_c :: u32
  v_d :: u32
  v_e :: u32
  v_f :: u32
  v_g :: u32
  v_hh :: u32

definition sha_round :: "u32 list \<Rightarrow> nat \<Rightarrow> sha_vars \<Rightarrow> sha_vars" where
  "sha_round w i v =
     (let S1 = rotr (v_e v) 6 XOR rotr (v_e v) 11 XOR rotr (v_e v) 25;
          ch = (v_e v AND v_f v) XOR (NOT (v_e v) AND v_g v);
          temp1 = v_hh v + S1 + ch + K ! i + w ! i;
          S0 = rotr (v_a v) 2 XOR rotr (v_a v) 13 XOR rotr (v_a v) 22;
          maj = (v_a v AND v_b v) XOR (v_a v AND v_c v) XOR (v_b v AND v_c v);
          temp2 = S0 + maj
      in \<lparr>v_a = temp1 + temp2, v_b = v_a v, v_c = v_b v, v_d = v_c v,
          v_e = v_d v + temp1, v_f = v_e v, v_g = v_f v, v_hh = v_g v\<rparr>)"

definition sha256_block :: "u32 list \<Rightarrow> bytes \<Rightarrow> u32 list" where
  "sha256_block h block =
     (let w = schedule block;
          v = fold (sha_round w) [0..<64]
                \<lparr>v_a = h ! 0, v_b = h ! 1, v_c = h ! 2, v_d = h ! 3,
                 v_e = h ! 4, v_f = h ! 5, v_g = h ! 6, v_hh = h ! 7\<rparr>
      in [h ! 0 + v_a v, h ! 1 + v_b v, h ! 2 + v_c v, h ! 3 + v_d v,
          h ! 4 + v_e v, h ! 5 + v_f v, h ! 6 + v_g v, h ! 7 + v_hh v])"

subsection \<open>The message\<close>

definition word_byte :: "'a::len word \<Rightarrow> byte" where
  "word_byte w = char_of (unat w)"

definition be32 :: "u32 \<Rightarrow> bytes" where
  "be32 x = [word_byte (drop_bit 24 x), word_byte (drop_bit 16 x), word_byte (drop_bit 8 x),
     word_byte x]"

text \<open>The tail buffer before the length goes in, and the length loop.\<close>

definition tail_start :: "bytes \<Rightarrow> bytes" where
  "tail_start rest = (rest @ drop (length rest) (replicate 128 NUL)) [length rest := CHR 0x80]"

definition put_len :: "u64 \<Rightarrow> nat \<Rightarrow> bytes \<Rightarrow> bytes" where
  "put_len bits total_len tail =
     fold (\<lambda>i t. t[total_len - 1 - i := word_byte (drop_bit (8 * i) bits)]) [0..<8] tail"

definition nw_sha256 :: "bytes \<Rightarrow> bytes" where
  "nw_sha256 data =
     (let full_blocks = length data div 64;
          h = fold (\<lambda>i h. sha256_block h (sub (i * 64) 64 data)) [0..<full_blocks] H0;
          rem = length data - full_blocks * 64;
          total_len = (if rem < 56 then 64 else 128);
          bits = of_nat (length data) * 8 :: u64;
          tail = put_len bits total_len (tail_start (sub (full_blocks * 64) rem data));
          h = sha256_block h (take 64 tail);
          h = (if total_len = 128 then sha256_block h (sub 64 64 tail) else h)
      in concat (map be32 h))"

subsection \<open>The standard's description\<close>

function chunks :: "nat \<Rightarrow> 'a list \<Rightarrow> 'a list list" where
  "chunks n xs = (if n = 0 \<or> xs = [] then [] else take n xs # chunks n (drop n xs))"
  by pat_completeness auto
termination by (relation "measure (\<lambda>(n, xs). length xs)") auto

declare chunks.simps [simp del]

definition be64 :: "u64 \<Rightarrow> bytes" where
  "be64 x = map (\<lambda>i. word_byte (drop_bit (8 * (7 - i)) x)) [0..<8]"

text \<open>One \<open>0x80\<close>, the least number of zeros that leaves room for the length, the length in bits.\<close>

definition sha_pad :: "bytes \<Rightarrow> bytes" where
  "sha_pad data = data @ [CHR 0x80] @ replicate ((119 - length data mod 64) mod 64) NUL
     @ be64 (of_nat (length data) * 8)"

text \<open>The schedule of the standard, as its recurrence on the index.\<close>

fun W :: "bytes \<Rightarrow> nat \<Rightarrow> u32" where
  "W block t = (if t < 16 then block_word block t
     else (word_rotr 17 (W block (t - 2)) XOR word_rotr 19 (W block (t - 2))
             XOR drop_bit 10 (W block (t - 2))) + W block (t - 7)
        + (word_rotr 7 (W block (t - 15)) XOR word_rotr 18 (W block (t - 15))
             XOR drop_bit 3 (W block (t - 15))) + W block (t - 16))"

declare W.simps [simp del]

lemma rotr_word_rotr:
  assumes "0 < n" "n < 32"
  shows "rotr x n = word_rotr n x"
proof (rule bit_word_eqI)
  fix k assume "k < LENGTH(32)"
  then have k: "k < 32" by simp
  have "\<not> bit x j" if "32 \<le> j" for j
    using that bit_imp_le_length [of x j] by auto
  show "bit (rotr x n) k \<longleftrightarrow> bit (word_rotr n x) k"
  proof (cases "k + n < 32")
    case True
    then show ?thesis using assms k
      by (auto simp: rotr_def bit_or_iff bit_drop_bit_eq bit_push_bit_iff bit_word_rotr_iff add.commute)
  next
    case False
    then have "(k + n) mod 32 = k - (32 - n)" using assms k by (subst le_mod_geq) auto
    then show ?thesis using assms k False \<open>\<And>j. 32 \<le> j \<Longrightarrow> \<not> bit x j\<close>
      by (auto simp: rotr_def bit_or_iff bit_drop_bit_eq bit_push_bit_iff bit_word_rotr_iff add.commute)
  qed
qed

lemma schedule_upto:
  "16 \<le> n \<Longrightarrow> fold sched_step [16..<n] (map (block_word block) [0..<16]) = map (W block) [0..<n]"
proof (induction n rule: nat_induct_at_least)
  case base
  then show ?case by (auto simp: W.simps)
next
  case (Suc n)
  then show ?case
    by (simp add: sched_step_def rotr_word_rotr W.simps [of block n] Let_def ac_simps)
qed

lemma schedule_W: "schedule block = map (W block) [0..<64]"
  unfolding schedule_def by (rule schedule_upto) simp

lemma length_sha256_block: "length (sha256_block h block) = 8"
  by (simp add: sha256_block_def Let_def)

subsection \<open>Iterating a compression function\<close>

text \<open>
  What the tail handling needs of the block function: a positive block size and a state of fixed
  length. Absorbing the blocks of a prefix by index, and then the padded rest, is folding over the
  blocks of the whole.
\<close>

locale block_hash =
  fixes compress :: "'h list \<Rightarrow> bytes \<Rightarrow> 'h list" and bs :: nat and hlen :: nat
  assumes bs_pos: "0 < bs"
    and compress_length: "length (compress h b) = hlen"
begin

lemma chunks_Nil: "chunks bs [] = []"
  by (simp add: chunks.simps)

lemma chunks_app: "length xs = bs \<Longrightarrow> chunks bs (xs @ ys) = xs # chunks bs ys"
  using bs_pos by (subst chunks.simps) auto

lemma chunks_one: "length xs = bs \<Longrightarrow> chunks bs xs = [xs]"
  using chunks_app [of xs "[]"] by (simp add: chunks_Nil)

lemma chunks_prefix:
  "n * bs \<le> length xs \<Longrightarrow>
     chunks bs (xs @ ys) = map (\<lambda>i. sub (i * bs) bs xs) [0..<n] @ chunks bs (drop (n * bs) xs @ ys)"
proof (induction n)
  case 0
  then show ?case by simp
next
  case (Suc n)
  then have le: "n * bs \<le> length xs" and room: "bs \<le> length xs - n * bs" by auto
  have "drop (n * bs) xs @ ys = sub (n * bs) bs xs @ drop (Suc n * bs) xs @ ys"
    by (metis (no_types, lifting) add.commute append.assoc append_take_drop_id drop_drop mult_Suc sub_def)
  moreover have "length (sub (n * bs) bs xs) = bs" using room by simp
  ultimately have "chunks bs (drop (n * bs) xs @ ys)
      = sub (n * bs) bs xs # chunks bs (drop (Suc n * bs) xs @ ys)"
    by (simp only: chunks_app)
  with Suc.IH [OF le] show ?case by simp
qed

lemma absorb:
  "fold (\<lambda>b h. compress h b) (chunks bs (xs @ ys)) h =
   fold (\<lambda>b h. compress h b) (chunks bs (drop (length xs div bs * bs) xs @ ys))
     (fold (\<lambda>i h. compress h (sub (i * bs) bs xs)) [0..<length xs div bs] h)"
proof -
  have "length xs div bs * bs \<le> length xs" by simp
  from chunks_prefix [OF this] show ?thesis by (simp add: fold_map comp_def)
qed

lemma absorb_length: "length h = hlen \<Longrightarrow> length (fold (\<lambda>b h. compress h b) cs h) = hlen"
  by (induction cs arbitrary: h) (auto simp: compress_length)

end

interpretation sha: block_hash sha256_block 64 8
  by unfold_locales (simp_all add: length_sha256_block)

subsection \<open>The tail buffer is the padding\<close>

lemma tail_start_eq:
  "length rest < 64 \<Longrightarrow>
     tail_start rest = rest @ [CHR 0x80] @ replicate (127 - length rest) NUL"
proof -
  assume "length rest < 64"
  then have "128 - length rest = Suc (127 - length rest)" by simp
  then have "drop (length rest) (replicate 128 NUL) = NUL # replicate (127 - length rest) NUL"
    by (simp only: drop_replicate replicate_Suc)
  then show ?thesis by (simp add: tail_start_def list_update_append del: drop_replicate)
qed

lemma upt_8: "[0..<8] = [0, 1, 2, 3, 4, 5, 6, 7]" by code_simp

lemma put_len_append:
  assumes "length B = 8"
  shows "put_len bits (length A + 8) (A @ B @ C) = A @ be64 bits @ C"
proof -
  have "map ((!) B) [0..<8] = B" using map_nth [of B] assms by simp
  from this [symmetric] obtain b0 b1 b2 b3 b4 b5 b6 b7 where B: "B = [b0, b1, b2, b3, b4, b5, b6, b7]"
    unfolding upt_8 list.map by blast
  show ?thesis
    unfolding B put_len_def be64_def upt_8 by (simp add: list_update_append)
qed

lemma tail_eq:
  assumes "length rest < 64" and "m = (if length rest < 56 then 64 else 128)"
  shows "take m (put_len bits m (tail_start rest)) =
    rest @ [CHR 0x80] @ replicate ((119 - length rest) mod 64) NUL @ be64 bits"
proof -
  let ?k = "m - 9 - length rest"
  let ?A = "rest @ [CHR 0x80] @ replicate ?k NUL"
  have k: "?k = (119 - length rest) mod 64" using assms by (simp add: mod_if)
  have A: "length ?A + 8 = m" using assms by (simp split: if_splits)
  have "127 - length rest = ?k + (8 + (128 - m))" using assms by (simp split: if_splits)
  then have "tail_start rest = ?A @ replicate 8 NUL @ replicate (128 - m) NUL"
    by (simp only: tail_start_eq [OF assms(1)] replicate_add append_assoc)
  then have p: "put_len bits m (tail_start rest) = (?A @ be64 bits) @ replicate (128 - m) NUL"
    using put_len_append [of "replicate 8 NUL" bits ?A] by (simp only: A length_replicate append_assoc)
  have "length (?A @ be64 bits) = m" using A by (simp add: be64_def)
  then have "take m (put_len bits m (tail_start rest)) = ?A @ be64 bits"
    unfolding p using take_append [of m "?A @ be64 bits"] by (simp del: append_assoc)
  then show ?thesis by (simp only: k append_assoc)
qed

definition sha_spec :: "bytes \<Rightarrow> bytes" where
  "sha_spec data = concat (map be32 (fold (\<lambda>b h. sha256_block h b) (chunks 64 (sha_pad data)) H0))"

lemma chunks_tail:
  assumes "length t = 64 \<or> length t = 128"
  shows "chunks 64 t = (if length t = 128 then [take 64 t, sub 64 64 t] else [take 64 t])"
proof (cases "length t = 128")
  case True
  then have "t = take 64 t @ sub 64 64 t" by (simp add: sub_def)
  then have "chunks 64 t = take 64 t # chunks 64 (sub 64 64 t)"
    using sha.chunks_app [of "take 64 t" "sub 64 64 t"] True by simp
  then show ?thesis using True sha.chunks_one [of "sub 64 64 t"] by simp
next
  case False
  then show ?thesis using assms sha.chunks_one [of t] by simp
qed

lemma length_be_words: "length (concat (map be32 hs)) = 4 * length hs"
  by (induction hs) (simp_all add: be32_def)

lemma nw_sha256_standard_length: "length (nw_sha256 data) = 32"
  by (simp add: nw_sha256_def Let_def length_be_words length_sha256_block)


end
