(* ===== verification/ShaVectors.thy ===== *)
theory ShaVectors
  imports Sha256
begin

text \<open>
  A known answer for \<^verbatim>\<open>sha256.c\<close>: the standard's one-block test message, computed by the kernel
  through the model. It pins what the equivalence with the standard's shape leaves open, the round
  constants and the rounds themselves, as \<^verbatim>\<open>tests/test_sha256_vectors.py\<close> does for the C. The
  evaluation goes through the message schedule and eight stages of eight rounds.
\<close>

definition abc_block :: bytes where
  "abc_block = ''abc'' @ [CHR 0x80] @ replicate 59 NUL @ [CHR 0x18]"

definition abc_words :: "u32 list" where
  "abc_words =
    [0x61626380, 0x00000000, 0x00000000, 0x00000000, 0x00000000, 0x00000000, 0x00000000,
     0x00000000, 0x00000000, 0x00000000, 0x00000000, 0x00000000, 0x00000000, 0x00000000,
     0x00000000, 0x00000018, 0x61626380, 0x000f0000, 0x7da86405, 0x600003c6, 0x3e9d7b78,
     0x0183fc00, 0x12dcbfdb, 0xe2e2c38e, 0xc8215c1a, 0xb73679a2, 0xe5bc3909, 0x32663c5b,
     0x9d209d67, 0xec8726cb, 0x702138a4, 0xd3b7973b, 0x93f5997f, 0x3b68ba73, 0xaff4ffc1,
     0xf10a5c62, 0x0a8b3996, 0x72af830a, 0x9409e33e, 0x24641522, 0x9f47bf94, 0xf0a64f5a,
     0x3e246a79, 0x27333ba3, 0x0c4763f2, 0x840abf27, 0x7a290d5d, 0x065c43da, 0xfb3e89cb,
     0xcc7617db, 0xb9e66c34, 0xa9993667, 0x84badedd, 0xc21462bc, 0x1487472c, 0xb20f7a99,
     0xef57b9cd, 0xebe6b238, 0x9fe3095e, 0x78bc8d4b, 0xa43fcf15, 0x668b2ff8, 0xeeaba2cc,
     0x12b1edeb]"

lemma abc_first: "map (block_word abc_block) [0..<16] = take 16 abc_words"
  by code_simp

lemma abc_schedule: "schedule abc_block = abc_words"
proof -
  have u: "[16..<64] = [16, 17, 18, 19, 20, 21, 22, 23, 24, 25, 26, 27, 28, 29, 30, 31, 32, 33, 34, 35,
    36, 37, 38, 39, 40, 41, 42, 43, 44, 45, 46, 47, 48, 49, 50, 51, 52, 53, 54, 55, 56, 57, 58, 59, 60, 61, 62, 63]"
    by code_simp
  have "fold sched_step [16..<64] (take 16 abc_words) = abc_words"
    unfolding u by (simp add: sched_step_def Let_def rotr_def abc_words_def)
  then show ?thesis by (simp only: schedule_def abc_first)
qed

lemmas abc_eval = sha_round_def rotr_def abc_words_def Let_def K_def row4_def

lemma abc_rounds_0:
  "fold (sha_round abc_words) [0, 1, 2, 3, 4, 5, 6, 7]
    \<lparr>v_a = 0x6a09e667, v_b = 0xbb67ae85, v_c = 0x3c6ef372, v_d = 0xa54ff53a,
     v_e = 0x510e527f, v_f = 0x9b05688c, v_g = 0x1f83d9ab, v_hh = 0x5be0cd19\<rparr> =
    \<lparr>v_a = 0x85a07b5f, v_b = 0xe5030380, v_c = 0x2b4209f5, v_d = 0x04409a6a,
     v_e = 0x0c657a79, v_f = 0x9b27a401, v_g = 0x714260ad, v_hh = 0x43ada245\<rparr>"
  by (simp add: abc_eval)

lemma abc_rounds_8:
  "fold (sha_round abc_words) [8, 9, 10, 11, 12, 13, 14, 15]
    \<lparr>v_a = 0x85a07b5f, v_b = 0xe5030380, v_c = 0x2b4209f5, v_d = 0x04409a6a,
     v_e = 0x0c657a79, v_f = 0x9b27a401, v_g = 0x714260ad, v_hh = 0x43ada245\<rparr> =
    \<lparr>v_a = 0xb0fa238e, v_b = 0xc0645fde, v_c = 0xd932eb16, v_d = 0x87912990,
     v_e = 0x07590dcd, v_f = 0x0b92f20c, v_g = 0x745a48de, v_hh = 0x1e578218\<rparr>"
  by (simp add: abc_eval)

lemma abc_rounds_16:
  "fold (sha_round abc_words) [16, 17, 18, 19, 20, 21, 22, 23]
    \<lparr>v_a = 0xb0fa238e, v_b = 0xc0645fde, v_c = 0xd932eb16, v_d = 0x87912990,
     v_e = 0x07590dcd, v_f = 0x0b92f20c, v_g = 0x745a48de, v_hh = 0x1e578218\<rparr> =
    \<lparr>v_a = 0xc5d53d8d, v_b = 0xa7a3623f, v_c = 0xc2606d6d, v_d = 0x9dc68b63,
     v_e = 0xaa47c347, v_f = 0x49f5114a, v_g = 0xe1257970, v_hh = 0x8ada8930\<rparr>"
  by (simp add: abc_eval)

lemma abc_rounds_24:
  "fold (sha_round abc_words) [24, 25, 26, 27, 28, 29, 30, 31]
    \<lparr>v_a = 0xc5d53d8d, v_b = 0xa7a3623f, v_c = 0xc2606d6d, v_d = 0x9dc68b63,
     v_e = 0xaa47c347, v_f = 0x49f5114a, v_g = 0xe1257970, v_hh = 0x8ada8930\<rparr> =
    \<lparr>v_a = 0x73b33bf5, v_b = 0xea992a22, v_c = 0xa0060b30, v_d = 0x363482c9,
     v_e = 0xba591112, v_f = 0x0109ab3a, v_g = 0xade79437, v_hh = 0x6112a3b7\<rparr>"
  by (simp add: abc_eval)

lemma abc_rounds_32:
  "fold (sha_round abc_words) [32, 33, 34, 35, 36, 37, 38, 39]
    \<lparr>v_a = 0x73b33bf5, v_b = 0xea992a22, v_c = 0xa0060b30, v_d = 0x363482c9,
     v_e = 0xba591112, v_f = 0x0109ab3a, v_g = 0xade79437, v_hh = 0x6112a3b7\<rparr> =
    \<lparr>v_a = 0x79ea687a, v_b = 0x6dc57a8a, v_c = 0x34df1604, v_d = 0x41a65cb1,
     v_e = 0x1efbc0a0, v_f = 0xf0781bc8, v_g = 0xa507a53d, v_hh = 0x0772a26b\<rparr>"
  by (simp add: abc_eval)

lemma abc_rounds_40:
  "fold (sha_round abc_words) [40, 41, 42, 43, 44, 45, 46, 47]
    \<lparr>v_a = 0x79ea687a, v_b = 0x6dc57a8a, v_c = 0x34df1604, v_d = 0x41a65cb1,
     v_e = 0x1efbc0a0, v_f = 0xf0781bc8, v_g = 0xa507a53d, v_hh = 0x0772a26b\<rparr> =
    \<lparr>v_a = 0x4172328d, v_b = 0xa14c14b0, v_c = 0x72ab4b91, v_d = 0x26628815,
     v_e = 0xfecf0bc6, v_f = 0xd57b94a9, v_g = 0xb7755da1, v_hh = 0xa80f11f0\<rparr>"
  by (simp add: abc_eval)

lemma abc_rounds_48:
  "fold (sha_round abc_words) [48, 49, 50, 51, 52, 53, 54, 55]
    \<lparr>v_a = 0x4172328d, v_b = 0xa14c14b0, v_c = 0x72ab4b91, v_d = 0x26628815,
     v_e = 0xfecf0bc6, v_f = 0xd57b94a9, v_g = 0xb7755da1, v_hh = 0xa80f11f0\<rparr> =
    \<lparr>v_a = 0x38cc9913, v_b = 0x3ec45cdb, v_c = 0xf5702fdb, v_d = 0x101fd28f,
     v_e = 0x54cb266b, v_f = 0xe50e1b4f, v_g = 0x9f4787c3, v_hh = 0x529e7d00\<rparr>"
  by (simp add: abc_eval)

lemma abc_rounds_56:
  "fold (sha_round abc_words) [56, 57, 58, 59, 60, 61, 62, 63]
    \<lparr>v_a = 0x38cc9913, v_b = 0x3ec45cdb, v_c = 0xf5702fdb, v_d = 0x101fd28f,
     v_e = 0x54cb266b, v_f = 0xe50e1b4f, v_g = 0x9f4787c3, v_hh = 0x529e7d00\<rparr> =
    \<lparr>v_a = 0x506e3058, v_b = 0xd39a2165, v_c = 0x04d24d6c, v_d = 0xb85e2ce9,
     v_e = 0x5ef50f24, v_f = 0xfb121210, v_g = 0x948d25b6, v_hh = 0x961f4894\<rparr>"
  by (simp add: abc_eval)

lemmas abc_stages = abc_rounds_0 abc_rounds_8 abc_rounds_16 abc_rounds_24 abc_rounds_32 abc_rounds_40 abc_rounds_48 abc_rounds_56

lemma upt_64: "[0..<64] =
    [0, 1, 2, 3, 4, 5, 6, 7] @ [8, 9, 10, 11, 12, 13, 14, 15] @ [16, 17, 18, 19, 20, 21, 22, 23]
    @ [24, 25, 26, 27, 28, 29, 30, 31] @ [32, 33, 34, 35, 36, 37, 38, 39] @ [40, 41, 42, 43, 44, 45, 46, 47]
    @ [48, 49, 50, 51, 52, 53, 54, 55] @ [56, 57, 58, 59, 60, 61, 62, 63]"
  by code_simp

lemma abc_compressed: "sha256_block H0 abc_block =
    [0xba7816bf, 0x8f01cfea, 0x414140de, 0x5dae2223,
     0xb00361a3, 0x96177a9c, 0xb410ff61, 0xf20015ad]"
proof -
  have "fold (sha_round abc_words) [0..<64]
    \<lparr>v_a = 0x6a09e667, v_b = 0xbb67ae85, v_c = 0x3c6ef372, v_d = 0xa54ff53a,
     v_e = 0x510e527f, v_f = 0x9b05688c, v_g = 0x1f83d9ab, v_hh = 0x5be0cd19\<rparr> =
    \<lparr>v_a = 0x506e3058, v_b = 0xd39a2165, v_c = 0x04d24d6c, v_d = 0xb85e2ce9,
     v_e = 0x5ef50f24, v_f = 0xfb121210, v_g = 0x948d25b6, v_hh = 0x961f4894\<rparr>"
    unfolding upt_64 by (simp only: fold_append o_apply abc_stages)
  moreover have "H0 ! 0 = 0x6a09e667" "H0 ! 1 = 0xbb67ae85" "H0 ! 2 = 0x3c6ef372"
    "H0 ! 3 = 0xa54ff53a" "H0 ! 4 = 0x510e527f" "H0 ! 5 = 0x9b05688c" "H0 ! 6 = 0x1f83d9ab"
    "H0 ! 7 = 0x5be0cd19"
    by (simp_all add: H0_def)
  ultimately show ?thesis
    by (simp only: sha256_block_def Let_def abc_schedule sha_vars.simps) simp
qed

lemma abc_tail_bytes:
  "''abc'' @ [CHR 0x80] @ replicate 52 NUL @ be64 24 = abc_block"
  by code_simp

text \<open>
  The known answer of the standard: the digest of the three bytes \<^verbatim>\<open>abc\<close>.
\<close>

lemma nw_sha256_abc:
  "nw_sha256 ''abc'' = map char_of [
     0xba, 0x78, 0x16, 0xbf, 0x8f, 0x01, 0xcf, 0xea, 0x41, 0x41, 0x40, 0xde, 0x5d, 0xae, 0x22, 0x23,
     0xb0, 0x03, 0x61, 0xa3, 0x96, 0x17, 0x7a, 0x9c, 0xb4, 0x10, 0xff, 0x61, 0xf2, 0x00, 0x15, 0xad :: nat]"
proof -
  have "(119 - length ''abc'') mod 64 = 52" by simp
  then have "take 64 (put_len 24 64 (tail_start ''abc'')) = abc_block"
    using tail_eq [of "''abc''" 64 24] abc_tail_bytes by simp
  then have "nw_sha256 ''abc'' = concat (map be32 (sha256_block H0 abc_block))"
    by (simp add: nw_sha256_def sub_all)
  then show ?thesis
    unfolding abc_compressed by (simp add: be32_def word_byte_def)
qed

end
