(* ===== verification/CText.thy ===== *)
theory CText
  imports NwPrelude
begin

text \<open>
  Numbers as text: what the program uses of \<^verbatim>\<open>snprintf\<close> (\<^verbatim>\<open>%u\<close>, \<^verbatim>\<open>%d\<close>, \<^verbatim>\<open>%llu\<close>, \<^verbatim>\<open>%02x\<close>) to cross
  an environment variable or name a file, and of \<^verbatim>\<open>atoi\<close>, \<^verbatim>\<open>strtoul\<close> and \<^verbatim>\<open>strtoull\<close> to read it back.
  The readers are the C library's on a 64-bit machine: leading white space, a sign, digits,
  saturation with \<^verbatim>\<open>ERANGE\<close>, an end pointer, and the truncation of \<^verbatim>\<open>atoi\<close> to 32 bits.
\<close>

subsection \<open>Writing\<close>

definition digit :: "nat \<Rightarrow> byte" where
  "digit n = char_of (48 + n)"

function dec :: "nat \<Rightarrow> bytes" where
  "dec n = (if n < 10 then [digit n] else dec (n div 10) @ [digit (n mod 10)])"
  by pat_completeness auto
termination by (relation "measure id") auto

declare dec.simps [simp del]

definition dec_int :: "int \<Rightarrow> bytes" where
  "dec_int i = (if i < 0 then CHR ''-'' # dec (nat (- i)) else dec (nat i))"

definition hex_digit :: "nat \<Rightarrow> byte" where
  "hex_digit n = ''0123456789abcdef'' ! n"

definition hex2 :: "byte \<Rightarrow> bytes" where
  "hex2 c = [hex_digit (of_char c div 16), hex_digit (of_char c mod 16)]"

definition hex_of :: "bytes \<Rightarrow> bytes" where
  "hex_of bs = concat (map hex2 bs)"

definition hex_char :: "byte \<Rightarrow> bool" where
  "hex_char c \<longleftrightarrow> (let n = (of_char c :: nat) in 48 \<le> n \<and> n \<le> 57 \<or> 97 \<le> n \<and> n \<le> 102)"

text \<open>\<^verbatim>\<open>snprintf\<close> into a buffer of \<open>n\<close> bytes keeps at most \<open>n - 1\<close> of them.\<close>

definition snprintf :: "nat \<Rightarrow> bytes \<Rightarrow> bytes" where
  "snprintf n s = take (n - 1) s"

subsection \<open>Reading\<close>

definition space_char :: "byte \<Rightarrow> bool" where
  "space_char c \<longleftrightarrow> (let n = (of_char c :: nat) in n = 32 \<or> 9 \<le> n \<and> n \<le> 13)"

definition num_val :: "bytes \<Rightarrow> nat" where
  "num_val ds = foldl (\<lambda>v c. v * 10 + (of_char c - 48)) 0 ds"

text \<open>
  The subject of \<^verbatim>\<open>strtol\<close> and its kin: the sign, the digits, and what is left; with no digits
  the end pointer is the start.
\<close>

definition scan_num :: "bytes \<Rightarrow> bool \<times> bytes \<times> bytes" where
  "scan_num s =
     (let t = dropWhile space_char s;
          neg = (t \<noteq> [] \<and> hd t = CHR ''-'');
          t' = (if t \<noteq> [] \<and> (hd t = CHR ''-'' \<or> hd t = CHR ''+'') then tl t else t);
          ds = takeWhile digit_char t'
      in if ds = [] then (False, [], s) else (neg, ds, dropWhile digit_char t'))"

definition strtol :: "bytes \<Rightarrow> int" where
  "strtol s = (case scan_num s of (neg, ds, _) \<Rightarrow>
     let v = (if neg then - int (num_val ds) else int (num_val ds))
     in max (- (2 ^ 63)) (min v (2 ^ 63 - 1)))"

definition atoi :: "bytes \<Rightarrow> u32" where
  "atoi s = word_of_int (strtol s)"

text \<open>Value, whether \<^verbatim>\<open>errno\<close> is \<^verbatim>\<open>ERANGE\<close>, and the rest at the end pointer.\<close>

definition strtoul :: "bytes \<Rightarrow> u64 \<times> bool \<times> bytes" where
  "strtoul s = (case scan_num s of (neg, ds, rest) \<Rightarrow>
     if 2 ^ 64 \<le> num_val ds then (- 1, True, rest)
     else (if neg then - of_nat (num_val ds) else of_nat (num_val ds), False, rest))"

subsection \<open>What is written is what is read\<close>

lemma digit_props: "n < 10 \<Longrightarrow> of_char (digit n) = 48 + n"
  by (simp add: digit_def)

lemma digit_char_digit: "n < 10 \<Longrightarrow> digit_char (digit n)"
  by (simp add: digit_char_def digit_props)

lemma dec_not_Nil [simp]: "dec n \<noteq> []"
  by (subst dec.simps) simp

lemma dec_digits: "c \<in> set (dec n) \<Longrightarrow> digit_char c"
proof (induction n rule: dec.induct)
  case (1 n)
  then show ?case
    by (subst (asm) (2) dec.simps) (auto split: if_splits simp: digit_char_digit)
qed

lemma length_dec: "n < 10 ^ Suc m \<Longrightarrow> length (dec n) \<le> Suc m"
proof (induction m arbitrary: n)
  case 0
  then show ?case by (subst dec.simps) simp
next
  case (Suc m)
  then have "n div 10 < 10 ^ Suc m" by (simp add: less_mult_imp_div_less)
  from Suc.IH [OF this] show ?case by (subst dec.simps) simp
qed

lemma snprintf_small: "length s < n \<Longrightarrow> snprintf n s = s"
  by (simp add: snprintf_def)

lemma snprintf8_dec: "n < 10000000 \<Longrightarrow> snprintf 8 (dec n) = dec n"
  using length_dec [of n 6] by (intro snprintf_small) simp

lemma snprintf24_dec: "n < 100000000000000000000000 \<Longrightarrow> snprintf 24 (dec n) = dec n"
  using length_dec [of n 22] by (intro snprintf_small) simp

lemma snprintf8_dec_int: "- 1000000 < i \<Longrightarrow> i < 1000000 \<Longrightarrow> snprintf 8 (dec_int i) = dec_int i"
  using length_dec [of "nat i" 5] length_dec [of "nat (- i)" 5]
  by (intro snprintf_small) (auto simp: dec_int_def nat_less_iff)

lemma length_dec_int: "- (2 ^ 31) \<le> i \<Longrightarrow> i < 2 ^ 31 \<Longrightarrow> length (dec_int i) \<le> 11"
  using length_dec [of "nat i" 9] length_dec [of "nat (- i)" 9]
  by (cases "i < 0") (simp_all add: dec_int_def nat_less_iff)

lemma num_val_snoc: "num_val (ds @ [c]) = num_val ds * 10 + (of_char c - 48)"
  by (simp add: num_val_def)

lemma num_val_dec [simp]: "num_val (dec n) = n"
proof (induction n rule: dec.induct)
  case (1 n)
  show ?case
  proof (cases "n < 10")
    case True
    then show ?thesis by (subst dec.simps) (simp add: num_val_def digit_props)
  next
    case False
    with 1 have "num_val (dec (n div 10)) = n div 10" by simp
    then show ?thesis
      using False by (subst dec.simps) (simp add: num_val_snoc digit_props)
  qed
qed

lemma dec_inj [simp]: "dec m = dec n \<longleftrightarrow> m = n"
  by (metis num_val_dec)

lemma digit_not_special:
  "digit_char c \<Longrightarrow> \<not> space_char c \<and> c \<noteq> CHR ''-'' \<and> c \<noteq> CHR ''+'' \<and> c \<noteq> NUL"
  by (auto simp: digit_char_def space_char_def)

lemma hd_dec: "digit_char (hd (dec n))"
  using dec_digits [of "hd (dec n)" n] by simp

lemma takeWhile_dec: "takeWhile digit_char (dec n) = dec n"
  and dropWhile_dec: "dropWhile digit_char (dec n) = []"
  using dec_digits by (auto simp: takeWhile_eq_all_conv dropWhile_eq_Nil_conv)

lemma dropWhile_space_dec: "dropWhile space_char (dec n) = dec n"
  using hd_dec [of n] digit_not_special by (cases "dec n") auto

lemma scan_dec [simp]: "scan_num (dec n) = (False, dec n, [])"
  using digit_not_special [OF hd_dec [of n]]
  by (simp add: scan_num_def Let_def dropWhile_space_dec takeWhile_dec dropWhile_dec)

lemma scan_neg_dec [simp]: "scan_num (CHR ''-'' # dec n) = (True, dec n, [])"
  by (simp add: scan_num_def Let_def takeWhile_dec dropWhile_dec space_char_def)

lemma atoi_dec: "n < 2 ^ 63 \<Longrightarrow> atoi (dec n) = of_nat n"
  by (simp add: atoi_def strtol_def Let_def)

lemma atoi_dec_int: "- (2 ^ 63) \<le> i \<Longrightarrow> i < 2 ^ 63 \<Longrightarrow> atoi (dec_int i) = word_of_int i"
  by (simp add: atoi_def strtol_def Let_def dec_int_def)

lemma sint_small: "k < 2 ^ 31 \<Longrightarrow> sint (of_nat k :: u32) = int k"
  by (simp add: signed_of_nat signed_take_bit_int_eq_self)

lemma sint_atoi_small: "k < 2 ^ 31 \<Longrightarrow> sint (atoi (dec k)) = int k"
  by (simp add: atoi_dec sint_small)

lemma strtoul_dec: "n < 2 ^ 64 \<Longrightarrow> strtoul (dec n) = (of_nat n, False, [])"
  by (simp add: strtoul_def)

lemma scan_dec_line: "scan_num (dec n @ CHR 0x0A # s) = (False, dec n, CHR 0x0A # s)"
proof -
  obtain c ds where d: "dec n = c # ds" by (cases "dec n") simp_all
  then have c: "\<not> space_char c" "c \<noteq> CHR ''-''" "c \<noteq> CHR ''+''"
    using hd_dec [of n] digit_not_special by auto
  have "\<forall>x\<in>set (dec n). digit_char x" using dec_digits by blast
  then have "takeWhile digit_char (dec n @ CHR 0x0A # s) = dec n"
    "dropWhile digit_char (dec n @ CHR 0x0A # s) = CHR 0x0A # s"
    by (simp_all add: takeWhile_append2 dropWhile_append2 digit_char_def)
  with c show ?thesis by (simp add: scan_num_def Let_def d)
qed

lemma strtoul_dec_line:
  "n < 2 ^ 64 \<Longrightarrow> strtoul (dec n @ CHR 0x0A # s) = (of_nat n, False, CHR 0x0A # s)"
  by (simp add: strtoul_def scan_dec_line)

lemma dec_no_NUL: "NUL \<notin> set (dec n)"
  using dec_digits digit_not_special by blast

subsection \<open>Hexadecimal\<close>

lemma hex_digit_char: "n < 16 \<Longrightarrow> hex_char (hex_digit n)"
proof -
  have "list_all (\<lambda>n. hex_char (hex_digit n)) [0..<16]" by code_simp
  then show "n < 16 \<Longrightarrow> hex_char (hex_digit n)" by (simp add: list_all_iff)
qed

lemma hex_digit_inj: "m < 16 \<Longrightarrow> n < 16 \<Longrightarrow> hex_digit m = hex_digit n \<longleftrightarrow> m = n"
proof -
  have "distinct (map hex_digit [0..<16])" by code_simp
  then have "inj_on hex_digit {0..<16}" by (simp add: distinct_map)
  then show "m < 16 \<Longrightarrow> n < 16 \<Longrightarrow> hex_digit m = hex_digit n \<longleftrightarrow> m = n"
    by (auto dest: inj_onD)
qed

lemma hex2_inj [simp]: "hex2 c = hex2 d \<longleftrightarrow> c = d"
proof
  assume "hex2 c = hex2 d"
  moreover have "(of_char c :: nat) < 256" "(of_char d :: nat) < 256"
    by (rule nat_of_char_less_256)+
  ultimately have "(of_char c :: nat) div 16 = of_char d div 16" "(of_char c :: nat) mod 16 = of_char d mod 16"
    by (auto simp: hex2_def hex_digit_inj)
  then have "(of_char c :: nat) = of_char d" by (metis div_mult_mod_eq)
  then show "c = d" by simp
qed simp

lemma length_hex2 [simp]: "length (hex2 c) = 2"
  by (simp add: hex2_def)

lemma length_hex_of [simp]: "length (hex_of bs) = 2 * length bs"
  by (induction bs) (simp_all add: hex_of_def)

lemma hex_of_chars: "c \<in> set (hex_of bs) \<Longrightarrow> hex_char c"
proof (induction bs)
  case Nil
  then show ?case by (simp add: hex_of_def)
next
  case (Cons b bs)
  have "(of_char b :: nat) div 16 < 16" using nat_of_char_less_256 [of b] by linarith
  with Cons show ?case by (auto simp: hex_of_def hex2_def hex_digit_char)
qed

lemma hex_of_inj: "hex_of xs = hex_of ys \<Longrightarrow> xs = ys"
proof (induction xs arbitrary: ys)
  case Nil
  then show ?case by (cases ys) (simp_all add: hex_of_def hex2_def)
next
  case (Cons x xs)
  then obtain y ys' where ys: "ys = y # ys'" by (cases ys) (simp_all add: hex_of_def hex2_def)
  with Cons.prems have "hex2 x @ hex_of xs = hex2 y @ hex_of ys'" by (simp add: hex_of_def)
  then show ?case using Cons.IH ys by simp
qed

lemma hex_char_plain: "hex_char c \<Longrightarrow> c \<noteq> CHR ''/'' \<and> c \<noteq> CHR ''.'' \<and> c \<noteq> NUL"
  by (auto simp: hex_char_def)

end
