(* ===== verification/Store.thy ===== *)
theory Store
  imports CText Sha256 Systems
begin

text \<open>
  \<^verbatim>\<open>store.c\<close>: writing a buffer once under the hash of its content. The file system is a map from
  paths to contents; what the kernel may answer to each call (a failing \<^verbatim>\<open>stat\<close>, a short read or
  write, a failing rename, the name \<^verbatim>\<open>mkostemp\<close> picks) is a record the function takes, so every
  error path of the source is a branch. The second half cuts the same function at the points where
  another writer can run, and states what any interleaving of writers preserves.
\<close>

type_synonym fs = "bytes \<rightharpoonup> bytes"

definition NW_STORE_PATH_MAX :: nat where "NW_STORE_PATH_MAX = 256"
definition NW_STORE_CMP_CHUNK :: nat where "NW_STORE_CMP_CHUNK = 4096"

text \<open>
  The answers of the kernel: \<open>stat\<close> fails with something else than \<^verbatim>\<open>ENOENT\<close>; \<open>open\<close> succeeds;
  the most the k-th \<open>read\<close> returns, or its failure; the name \<open>mkostemp\<close> tries, or its failure; how
  much \<open>write\<close> takes, or its failure; \<open>rename\<close> succeeds.
\<close>

record store_io =
  io_stat_err :: bool
  io_open_ok :: bool
  io_read :: "nat \<Rightarrow> nat option"
  io_tmp :: "bytes option"
  io_write :: "nat option"
  io_rename_ok :: bool

text \<open>The loop of \<^verbatim>\<open>nw_store_content_matches\<close>: \<open>content\<close> is what is left at the descriptor's offset.\<close>

function content_loop :: "(nat \<Rightarrow> nat option) \<Rightarrow> nat \<Rightarrow> bytes \<Rightarrow> bytes \<Rightarrow> bool" where
  "content_loop rd_of k content data =
     (if data = [] then True
      else let want = min (length data) NW_STORE_CMP_CHUNK in
        case rd_of k of None \<Rightarrow> False
        | Some m \<Rightarrow>
          let r = min m (min want (length content)) in
          if r \<noteq> want then False
          else if take want content \<noteq> take want data then False
          else content_loop rd_of (Suc k) (drop want content) (drop want data))"
  by pat_completeness auto
termination
  by (relation "measure (\<lambda>(_, _, _, data). length data)") (auto simp: NW_STORE_CMP_CHUNK_def)

declare content_loop.simps [simp del]

definition nw_store_content_matches :: "store_io \<Rightarrow> bytes \<Rightarrow> bytes \<Rightarrow> bool" where
  "nw_store_content_matches io content data = content_loop (io_read io) 0 content data"

definition final_path :: "bytes \<Rightarrow> bytes \<Rightarrow> bytes \<Rightarrow> bytes" where
  "final_path dir data suffix = dir @ ''/'' @ hex_of (nw_sha256 data) @ suffix"

definition tmp_path :: "bytes \<Rightarrow> bytes \<Rightarrow> bytes" where
  "tmp_path dir x = dir @ ''/.tmp-'' @ x"

text \<open>
  The result code, \<open>out_hex\<close>, and the file system afterwards. \<^verbatim>\<open>mkostemp\<close> opens with \<^verbatim>\<open>O_EXCL\<close>, so
  it never hands out a name that exists.
\<close>

definition nw_store_put ::
  "store_io \<Rightarrow> bytes \<Rightarrow> bytes \<Rightarrow> bytes \<Rightarrow> fs \<Rightarrow> int \<times> bytes \<times> fs" where
  "nw_store_put io dir data suffix fs =
     (let out_hex = hex_of (nw_sha256 data);
          finalpath = final_path dir data suffix
      in if NW_STORE_PATH_MAX \<le> length finalpath then (- 1, out_hex, fs)
      else if io_stat_err io then (- 1, out_hex, fs)
      else if (case fs finalpath of None \<Rightarrow> False
               | Some old \<Rightarrow> length old = length data \<and> io_open_ok io
                   \<and> nw_store_content_matches io old data) then (0, out_hex, fs)
      else if NW_STORE_PATH_MAX \<le> length (tmp_path dir ''XXXXXX'') then (- 1, out_hex, fs)
      else case io_tmp io of None \<Rightarrow> (- 1, out_hex, fs)
      | Some x \<Rightarrow>
        let tmp = tmp_path dir x in
        if tmp \<in> dom fs then (- 1, out_hex, fs)
        else case io_write io of
          None \<Rightarrow> (- 1, out_hex, (fs(tmp \<mapsto> [])) (tmp := None))
        | Some w \<Rightarrow>
          let fs1 = fs(tmp \<mapsto> take w data) in
          if min w (length data) \<noteq> length data then (- 1, out_hex, fs1(tmp := None))
          else if \<not> io_rename_ok io then (- 1, out_hex, fs1(tmp := None))
          else (1, out_hex, fs1(tmp := None, finalpath \<mapsto> data)))"

subsection \<open>The comparison is byte for byte\<close>

lemma content_loop_sound:
  "content_loop rd_of k content data \<Longrightarrow> length content = length data \<Longrightarrow> content = data"
proof (induction rd_of k content data rule: content_loop.induct)
  case (1 rd_of k content data)
  show ?case
  proof (cases "data = []")
    case True
    then show ?thesis using 1 by simp
  next
    case False
    let ?w = "min (length data) NW_STORE_CMP_CHUNK"
    from "1.prems"(1) False obtain m where m: "rd_of k = Some m"
      and r: "min m (min ?w (length content)) = ?w" and t: "take ?w content = take ?w data"
      and rec: "content_loop rd_of (Suc k) (drop ?w content) (drop ?w data)"
      by (subst (asm) content_loop.simps) (auto simp: Let_def split: option.splits if_splits)
    have "drop ?w content = drop ?w data"
      using "1.IH" [OF False refl m refl] r t rec "1.prems"(2) by simp
    then show ?thesis using t by (metis append_take_drop_id)
  qed
qed

lemma content_loop_complete:
  "\<forall>k. \<exists>m. rd_of k = Some m \<and> NW_STORE_CMP_CHUNK \<le> m \<Longrightarrow> content = data \<Longrightarrow>
     content_loop rd_of k content data"
proof (induction rd_of k content data rule: content_loop.induct)
  case (1 rd_of k content data)
  show ?case
  proof (cases "data = []")
    case True
    then show ?thesis by (subst content_loop.simps) simp
  next
    case False
    obtain m where m: "rd_of k = Some m" "NW_STORE_CMP_CHUNK \<le> m" using "1.prems"(1) by blast
    let ?w = "min (length data) NW_STORE_CMP_CHUNK"
    have "content_loop rd_of (Suc k) (drop ?w content) (drop ?w data)"
      using "1.IH" [OF False refl m(1) refl] "1.prems" m(2) by simp
    then show ?thesis using m "1.prems"(2) by (subst content_loop.simps) (simp add: Let_def)
  qed
qed

lemma tmp_not_final: "tmp_path dir x \<noteq> final_path dir data suffix"
proof
  assume "tmp_path dir x = final_path dir data suffix"
  then have "''.tmp-'' @ x = hex_of (nw_sha256 data) @ suffix"
    by (simp add: tmp_path_def final_path_def)
  moreover have "length (hex_of (nw_sha256 data)) = 64" by (simp add: nw_sha256_standard_length)
  ultimately have "hd (hex_of (nw_sha256 data)) = CHR ''.''" "hex_of (nw_sha256 data) \<noteq> []"
    by (cases "hex_of (nw_sha256 data)"; simp)+
  then show False using hex_of_chars [of "CHR ''.''" "nw_sha256 data"] hex_char_plain
    by (metis list.set_sel(1))
qed

lemma final_path_inj:
  assumes "final_path dir x s = final_path dir y s"
  shows "nw_sha256 x = nw_sha256 y"
  using assms by (auto simp: final_path_def dest: hex_of_inj)

subsection \<open>The contract of one call\<close>

text \<open>No call fails, and every read returns what was asked.\<close>

definition healthy :: "store_io \<Rightarrow> bytes \<Rightarrow> bytes \<Rightarrow> fs \<Rightarrow> bool" where
  "healthy io dir data fs \<longleftrightarrow> \<not> io_stat_err io \<and> io_open_ok io \<and> io_rename_ok io
     \<and> (\<forall>k. \<exists>m. io_read io k = Some m \<and> NW_STORE_CMP_CHUNK \<le> m)
     \<and> (\<exists>x. io_tmp io = Some x \<and> fs (tmp_path dir x) = None)
     \<and> (\<exists>w. io_write io = Some w \<and> length data \<le> w)"

lemma store_put_cases:
  "nw_store_put io dir data suffix fs = (r, hex, fs') \<Longrightarrow>
     hex = hex_of (nw_sha256 data)
     \<and> (r = - 1 \<and> fs' = fs
        \<or> r = 0 \<and> fs' = fs \<and> fs (final_path dir data suffix) = Some data
        \<or> r = 1 \<and> fs' = fs(final_path dir data suffix \<mapsto> data))"
proof -
  let ?f = "final_path dir data suffix"
  have up: "fs(t := v, t := None, ?f \<mapsto> data) = fs(?f \<mapsto> data)" "fs(t := v, t := None) = fs"
    if "t \<notin> dom fs" for t v using that by (auto simp: dom_def)
  assume put: "nw_store_put io dir data suffix fs = (r, hex, fs')"
  show ?thesis
  proof (cases "\<exists>old. fs ?f = Some old \<and> length old = length data \<and> nw_store_content_matches io old data")
    case True
    then have "fs ?f = Some data" using content_loop_sound by (auto simp: nw_store_content_matches_def)
    then show ?thesis using put up
      by (auto simp: nw_store_put_def Let_def split: if_splits option.splits)
  next
    case False
    then show ?thesis using put up
      by (auto simp: nw_store_put_def Let_def split: if_splits option.splits)
  qed
qed

lemma store_put_healthy:
  assumes "healthy io dir data fs" and "length (final_path dir data suffix) < NW_STORE_PATH_MAX"
    and "length dir + 12 < NW_STORE_PATH_MAX" and "nw_store_put io dir data suffix fs = (r, hex, fs')"
  shows "r = (if fs (final_path dir data suffix) = Some data then 0 else 1)"
proof -
  have tmp: "length (tmp_path dir ''XXXXXX'') < NW_STORE_PATH_MAX"
    using assms(3) by (simp add: tmp_path_def)
  show ?thesis
  proof (cases "fs (final_path dir data suffix) = Some data")
    case True
    then have "nw_store_content_matches io data data"
      using assms(1) by (auto simp: healthy_def nw_store_content_matches_def intro: content_loop_complete)
    then show ?thesis using True assms tmp
      by (auto simp: nw_store_put_def Let_def healthy_def)
  next
    case False
    then have "\<not> (fs (final_path dir data suffix) = Some old \<and> length old = length data
        \<and> nw_store_content_matches io old data)" for old
      using content_loop_sound by (auto simp: nw_store_content_matches_def)
    then have "r \<noteq> 0" using assms(4) store_put_cases [OF assms(4)] False by auto
    moreover have "r \<noteq> - 1"
      using assms tmp by (auto simp: nw_store_put_def Let_def healthy_def dom_def split: if_splits option.splits)
    ultimately show ?thesis using store_put_cases [OF assms(4)] False by auto
  qed
qed

text \<open>
  C13. \<open>nw_store_put\<close> keeps its contract whatever each call of the kernel answers: \<open>out_hex\<close> is always
  the hash; \<open>-1\<close> leaves the file system as it was, with no temporary file; \<open>0\<close> writes nothing and is
  only said when the final path already holds exactly the data; \<open>1\<close> changes nothing but the final
  path, which then holds exactly the data, whatever was planted there before. When no call fails the
  result is \<open>0\<close> or \<open>1\<close>, and \<open>0\<close> exactly when the content was there.
\<close>

theorem store_put_contract:
  assumes "nw_store_put io dir data suffix fs = (r, hex, fs')"
  shows "hex = hex_of (nw_sha256 data)
    \<and> (r = - 1 \<and> fs' = fs
       \<or> r = 0 \<and> fs' = fs \<and> fs (final_path dir data suffix) = Some data
       \<or> r = 1 \<and> fs' = fs(final_path dir data suffix \<mapsto> data))
    \<and> (healthy io dir data fs \<and> length (final_path dir data suffix) < NW_STORE_PATH_MAX
         \<and> length dir + 12 < NW_STORE_PATH_MAX \<longrightarrow>
         r = (if fs (final_path dir data suffix) = Some data then 0 else 1))"
  using store_put_cases [OF assms] store_put_healthy [OF _ _ _ assms] by blast

definition demo_io :: store_io where
  "demo_io = \<lparr>io_stat_err = False, io_open_ok = True, io_read = (\<lambda>_. Some 4096),
     io_tmp = Some ''abcdef'', io_write = Some 100, io_rename_ok = True\<rparr>"

lemma demo_healthy: "healthy demo_io ''/s'' ''x'' Map.empty"
  by (simp add: healthy_def demo_io_def NW_STORE_CMP_CHUNK_def)

theorem store_put_contract_witness:
  "\<exists>r hex fs'. nw_store_put demo_io ''/s'' ''x'' ''.evt'' Map.empty = (r, hex, fs') \<and> r = 1
     \<and> fs' (final_path ''/s'' ''x'' ''.evt'') = Some ''x''"
proof -
  obtain r hex fs' where put: "nw_store_put demo_io ''/s'' ''x'' ''.evt'' Map.empty = (r, hex, fs')"
    by (cases "nw_store_put demo_io ''/s'' ''x'' ''.evt'' Map.empty") auto
  have "length (final_path ''/s'' ''x'' ''.evt'') < NW_STORE_PATH_MAX"
    by (simp add: final_path_def NW_STORE_PATH_MAX_def nw_sha256_standard_length)
  then show ?thesis
    using store_put_contract [OF put] demo_healthy put by (auto simp: NW_STORE_PATH_MAX_def)
qed

subsection \<open>Writers that run at the same time\<close>

text \<open>
  The same call cut where another writer can run: before the existence probe, before the temporary
  file, before the rename. The state of a writer is how far it got.
\<close>

datatype put_phase = PStart | PMissed | PTemp bytes | PDone int

fun put_step :: "store_io \<Rightarrow> bytes \<Rightarrow> bytes \<Rightarrow> bytes \<Rightarrow> put_phase \<times> fs \<Rightarrow> put_phase \<times> fs" where
  "put_step io dir data suffix (PStart, fs) =
     (let finalpath = final_path dir data suffix in
      if NW_STORE_PATH_MAX \<le> length finalpath then (PDone (- 1), fs)
      else if io_stat_err io then (PDone (- 1), fs)
      else if (case fs finalpath of None \<Rightarrow> False
               | Some old \<Rightarrow> length old = length data \<and> io_open_ok io
                   \<and> nw_store_content_matches io old data) then (PDone 0, fs)
      else if NW_STORE_PATH_MAX \<le> length (tmp_path dir ''XXXXXX'') then (PDone (- 1), fs)
      else (PMissed, fs))"
| "put_step io dir data suffix (PMissed, fs) =
     (case io_tmp io of None \<Rightarrow> (PDone (- 1), fs)
      | Some x \<Rightarrow>
        let tmp = tmp_path dir x in
        if tmp \<in> dom fs then (PDone (- 1), fs)
        else case io_write io of
          None \<Rightarrow> (PDone (- 1), (fs(tmp \<mapsto> [])) (tmp := None))
        | Some w \<Rightarrow>
          let fs1 = fs(tmp \<mapsto> take w data) in
          if min w (length data) \<noteq> length data then (PDone (- 1), fs1(tmp := None))
          else (PTemp tmp, fs1))"
| "put_step io dir data suffix (PTemp tmp, fs) =
     (if \<not> io_rename_ok io then (PDone (- 1), fs(tmp := None))
      else case fs tmp of None \<Rightarrow> (PDone (- 1), fs(tmp := None))
      | Some c \<Rightarrow> (PDone 1, fs(tmp := None, final_path dir data suffix \<mapsto> c)))"
| "put_step io dir data suffix (PDone r, fs) = (PDone r, fs)"

lemma put_steps_are_put:
  "nw_store_put io dir data suffix fs = (r, hex_of (nw_sha256 data), fs') \<longleftrightarrow>
     put_step io dir data suffix (put_step io dir data suffix
       (put_step io dir data suffix (PStart, fs))) = (PDone r, fs')"
  by (auto simp: nw_store_put_def Let_def min_def split: option.splits if_splits)

text \<open>
  Writer \<open>i\<close> stores \<open>data i\<close>; any writer may take its next step at any time, with any answer of the
  kernel. All use one directory and suffix.
\<close>

inductive put_reach ::
  "bytes \<Rightarrow> bytes \<Rightarrow> (nat \<Rightarrow> bytes) \<Rightarrow> fs \<Rightarrow> (nat \<Rightarrow> put_phase) \<Rightarrow> fs \<Rightarrow> bool"
  for dir suffix data fs0 where
  start: "put_reach dir suffix data fs0 (\<lambda>_. PStart) fs0"
| step: "put_reach dir suffix data fs0 ph fs \<Longrightarrow>
     put_step io dir (data i) suffix (ph i, fs) = (p, fs') \<Longrightarrow>
     put_reach dir suffix data fs0 (ph(i := p)) fs'"

definition writers_inv ::
  "bytes \<Rightarrow> bytes \<Rightarrow> (nat \<Rightarrow> bytes) \<Rightarrow> fs \<Rightarrow> (nat \<Rightarrow> put_phase) \<Rightarrow> fs \<Rightarrow> bool" where
  "writers_inv dir suffix data fs0 ph fs \<longleftrightarrow>
     (\<forall>i t. ph i = PTemp t \<longrightarrow>
        fs t = Some (data i) \<and> fs0 t = None \<and> (\<exists>x. t = tmp_path dir x))
   \<and> (\<forall>i j t. ph i = PTemp t \<longrightarrow> ph j = PTemp t \<longrightarrow> i = j)
   \<and> (\<forall>i r. ph i = PDone r \<longrightarrow> 0 \<le> r \<longrightarrow> fs (final_path dir (data i) suffix) = Some (data i))
   \<and> (\<forall>p. fs p = fs0 p \<or> (\<exists>i. ph i = PTemp p)
          \<or> (\<exists>i. p = final_path dir (data i) suffix \<and> fs p = Some (data i)))"

text \<open>No two writers store different data under one hash.\<close>

definition no_collision :: "(nat \<Rightarrow> bytes) \<Rightarrow> bool" where
  "no_collision data \<longleftrightarrow> (\<forall>i j. nw_sha256 (data i) = nw_sha256 (data j) \<longrightarrow> data i = data j)"

text \<open>What one step does to one writer and to the file system.\<close>

lemma put_step_shape:
  assumes "put_step io dir data suffix (p, fs) = (p', fs')"
    and "\<And>t. p = PTemp t \<Longrightarrow> fs t = Some data \<and> (\<exists>x. t = tmp_path dir x)"
  shows "p' = p \<and> fs' = fs \<or> p = PStart \<and> p' = PMissed \<and> fs' = fs
    \<or> (p = PStart \<or> p = PMissed) \<and> p' = PDone (- 1) \<and> fs' = fs
    \<or> p = PStart \<and> p' = PDone 0 \<and> fs' = fs \<and> fs (final_path dir data suffix) = Some data
    \<or> (\<exists>x. p = PMissed \<and> p' = PTemp (tmp_path dir x) \<and> fs (tmp_path dir x) = None
         \<and> fs' = fs(tmp_path dir x \<mapsto> data))
    \<or> (\<exists>t. p = PTemp t \<and> p' = PDone (- 1) \<and> fs' = fs(t := None))
    \<or> (\<exists>t. p = PTemp t \<and> p' = PDone 1 \<and> fs' = fs(t := None, final_path dir data suffix \<mapsto> data))"
proof (cases p)
  case PStart
  then show ?thesis
    using assms content_loop_sound
    by (fastforce simp: Let_def nw_store_content_matches_def split: if_splits option.splits)
next
  case PMissed
  have up: "fs(t := v, t := None) = fs" if "t \<notin> dom fs" for t v using that by (auto simp: dom_def)
  show ?thesis
    using assms PMissed up by (auto simp: Let_def dom_def min_def split: if_splits option.splits)
next
  case (PTemp t)
  then show ?thesis using assms by (auto split: if_splits)
next
  case (PDone r)
  then show ?thesis using assms by simp
qed

lemma writers_inv_rename:
  assumes "writers_inv dir suffix data fs0 ph fs" and nc: "no_collision data" and "ph i = PTemp t"
  shows "writers_inv dir suffix data fs0 (ph(i := PDone 1))
    (fs(t := None, final_path dir (data i) suffix \<mapsto> data i))" (is "writers_inv _ _ _ _ _ ?fs")
proof -
  have T: "\<And>j t. ph j = PTemp t \<Longrightarrow> fs t = Some (data j) \<and> fs0 t = None \<and> (\<exists>x. t = tmp_path dir x)"
    and U: "\<And>j k t. ph j = PTemp t \<Longrightarrow> ph k = PTemp t \<Longrightarrow> j = k"
    and D: "\<And>j r. ph j = PDone r \<Longrightarrow> 0 \<le> r \<Longrightarrow> fs (final_path dir (data j) suffix) = Some (data j)"
    and F: "\<And>p. fs p = fs0 p \<or> (\<exists>j. ph j = PTemp p)
          \<or> (\<exists>j. p = final_path dir (data j) suffix \<and> fs p = Some (data j))"
    using assms(1) unfolding writers_inv_def by blast+
  have F3: "fs q = fs0 q \<or> ph i = PTemp q \<or> (\<exists>j. j \<noteq> i \<and> ph j = PTemp q)
          \<or> (\<exists>j. q = final_path dir (data j) suffix \<and> fs q = Some (data j))" for q
    using F [of q] by metis
  have same: "data j = data i" if "final_path dir (data j) suffix = final_path dir (data i) suffix" for j
    using nc final_path_inj [OF that] by (auto simp: no_collision_def)
  note tmp_not_final [simp] tmp_not_final [symmetric, simp]
  obtain x where "t = tmp_path dir x" "fs0 t = None" using T [OF assms(3)] by blast
  let ?f = "final_path dir (data i) suffix"
  have keep: "?fs q = fs q" if "q \<noteq> t" "q \<noteq> ?f" for q using that by simp
  have f: "?fs ?f = Some (data i)" "?fs t = None"
    using \<open>t = tmp_path dir x\<close> by simp_all
  have other: "t' \<noteq> t \<and> t' \<noteq> ?f" if "ph j = PTemp t'" "j \<noteq> i" for j t'
    using U [OF that(1)] T [OF that(1)] assms(3) that(2) by auto
  show ?thesis
    unfolding writers_inv_def
  proof (intro conjI allI impI)
    fix j t' assume "(ph(i := PDone 1)) j = PTemp t'"
    then have j: "ph j = PTemp t'" "j \<noteq> i" by (auto split: if_splits)
    show "?fs t' = Some (data j)" "fs0 t' = None" "\<exists>x. t' = tmp_path dir x"
      using T [OF j(1)] keep other [OF j] by auto
  next
    fix j k t' assume "(ph(i := PDone 1)) j = PTemp t'" "(ph(i := PDone 1)) k = PTemp t'"
    then show "j = k" using U by (auto split: if_splits)
  next
    fix j r assume "(ph(i := PDone 1)) j = PDone r" "0 \<le> r"
    then show "?fs (final_path dir (data j) suffix) = Some (data j)"
      using D [of j r] same [of j] keep f \<open>t = tmp_path dir x\<close>
      by (cases "final_path dir (data j) suffix = ?f") (auto split: if_splits)
  next
    fix q
    show "?fs q = fs0 q \<or> (\<exists>j. (ph(i := PDone 1)) j = PTemp q)
        \<or> (\<exists>j. q = final_path dir (data j) suffix \<and> ?fs q = Some (data j))"
    proof (cases "q = t \<or> q = ?f")
      case True
      then show ?thesis using f \<open>fs0 t = None\<close> by auto
    next
      case False
      then show ?thesis using F3 [of q] keep [of q] assms(3) by auto
    qed
  qed
qed

lemma writers_inv_step:
  assumes inv: "writers_inv dir suffix data fs0 ph fs" and nc: "no_collision data"
    and st: "put_step io dir (data i) suffix (ph i, fs) = (p, fs')"
  shows "writers_inv dir suffix data fs0 (ph(i := p)) fs'"
proof -
  have T: "\<And>j t. ph j = PTemp t \<Longrightarrow> fs t = Some (data j) \<and> fs0 t = None \<and> (\<exists>x. t = tmp_path dir x)"
    and U: "\<And>j k t. ph j = PTemp t \<Longrightarrow> ph k = PTemp t \<Longrightarrow> j = k"
    and D: "\<And>j r. ph j = PDone r \<Longrightarrow> 0 \<le> r \<Longrightarrow> fs (final_path dir (data j) suffix) = Some (data j)"
    and F: "\<And>p. fs p = fs0 p \<or> (\<exists>j. ph j = PTemp p)
          \<or> (\<exists>j. p = final_path dir (data j) suffix \<and> fs p = Some (data j))"
    using inv unfolding writers_inv_def by blast+
  have F3: "fs q = fs0 q \<or> ph i = PTemp q \<or> (\<exists>j. j \<noteq> i \<and> ph j = PTemp q)
          \<or> (\<exists>j. q = final_path dir (data j) suffix \<and> fs q = Some (data j))" for q
    using F [of q] by metis
  note tmp_not_final [simp] tmp_not_final [symmetric, simp]
  from put_step_shape [OF st] T consider
      (stay) "p = ph i" "fs' = fs" | (miss) "ph i = PStart" "p = PMissed" "fs' = fs"
    | (fail) "ph i = PStart \<or> ph i = PMissed" "p = PDone (- 1)" "fs' = fs"
    | (hit) "ph i = PStart" "p = PDone 0" "fs' = fs" "fs (final_path dir (data i) suffix) = Some (data i)"
    | (temp) x where "ph i = PMissed" "p = PTemp (tmp_path dir x)" "fs (tmp_path dir x) = None"
        "fs' = fs(tmp_path dir x \<mapsto> data i)"
    | (drop) t where "ph i = PTemp t" "p = PDone (- 1)" "fs' = fs(t := None)"
    | (ren) t where "ph i = PTemp t" "p = PDone 1"
        "fs' = fs(t := None, final_path dir (data i) suffix \<mapsto> data i)"
    by blast
  then show ?thesis
  proof cases
    case stay
    then show ?thesis using inv by simp
  next
    case miss
    then show ?thesis unfolding writers_inv_def using T U D F3 by (auto split: if_splits) metis+
  next
    case fail
    then show ?thesis unfolding writers_inv_def using T U D F3 by (auto split: if_splits) metis+
  next
    case hit
    then show ?thesis unfolding writers_inv_def using T U D F3 by (auto split: if_splits) metis+
  next
    case temp
    have "fs0 (tmp_path dir x) = None" using F [of "tmp_path dir x"] T temp(3) by force
    then show ?thesis unfolding writers_inv_def using temp T U D F3 by (auto split: if_splits) metis+
  next
    case drop
    obtain x where "t = tmp_path dir x" "fs0 t = None" using T [OF drop(1)] by blast
    then show ?thesis unfolding writers_inv_def using drop T U D F3 by (auto split: if_splits) metis+
  next
    case ren
    then show ?thesis using writers_inv_rename [OF inv nc] by simp
  qed
qed

text \<open>The same as a transition system, whose invariant the writers keep.\<close>

definition put_trans ::
  "bytes \<Rightarrow> bytes \<Rightarrow> (nat \<Rightarrow> bytes) \<Rightarrow> (nat \<Rightarrow> put_phase) \<times> fs \<Rightarrow> (nat \<Rightarrow> put_phase) \<times> fs \<Rightarrow> bool" where
  "put_trans dir suffix data s s' \<longleftrightarrow>
     (\<exists>i io p. put_step io dir (data i) suffix (fst s i, snd s) = (p, snd s') \<and> fst s' = (fst s)(i := p))"

lemma put_reach_reach:
  "put_reach dir suffix data fs0 ph fs \<longleftrightarrow>
     reach (\<lambda>s. s = (\<lambda>_. PStart, fs0)) (put_trans dir suffix data) (ph, fs)"
proof
  show "put_reach dir suffix data fs0 ph fs \<Longrightarrow>
      reach (\<lambda>s. s = (\<lambda>_. PStart, fs0)) (put_trans dir suffix data) (ph, fs)"
  proof (induction rule: put_reach.induct)
    case (step ph fs io i p fs')
    then have "put_trans dir suffix data (ph, fs) (ph(i := p), fs')" unfolding put_trans_def by auto
    with step.IH show ?case by (rule reach.reach_step)
  qed (simp add: reach.reach_init)
  show "reach (\<lambda>s. s = (\<lambda>_. PStart, fs0)) (put_trans dir suffix data) (ph, fs) \<Longrightarrow>
      put_reach dir suffix data fs0 ph fs"
  proof (induction "(ph, fs)" arbitrary: ph fs rule: reach.induct)
    case (reach_step s)
    then show ?case by (cases s) (auto simp: put_trans_def intro: put_reach.step)
  qed (simp add: put_reach.start)
qed

interpretation writers: invariant "\<lambda>s. s = (\<lambda>_. PStart, fs0)" "put_trans dir suffix data"
  "\<lambda>(ph, fs). no_collision data \<longrightarrow> writers_inv dir suffix data fs0 ph fs" for fs0 dir suffix data
proof unfold_locales
  show "s = (\<lambda>_. PStart, fs0) \<Longrightarrow>
      case s of (ph, fs) \<Rightarrow> no_collision data \<longrightarrow> writers_inv dir suffix data fs0 ph fs" for s
    by (simp add: writers_inv_def)
  show "case s of (ph, fs) \<Rightarrow> no_collision data \<longrightarrow> writers_inv dir suffix data fs0 ph fs \<Longrightarrow>
      put_trans dir suffix data s s' \<Longrightarrow>
      case s' of (ph, fs) \<Rightarrow> no_collision data \<longrightarrow> writers_inv dir suffix data fs0 ph fs" for s s'
    by (cases s; cases s') (auto simp: put_trans_def intro: writers_inv_step)
qed

lemma writers_inv_reach:
  "put_reach dir suffix data fs0 ph fs \<Longrightarrow> no_collision data \<Longrightarrow>
     writers_inv dir suffix data fs0 ph fs"
  using writers.holds by (fastforce simp: put_reach_reach)

text \<open>
  C14. Concurrent writers need no lock: however the steps of any number of writers interleave and
  whatever the kernel answers, a writer that returned \<open>0\<close> or \<open>1\<close> finds exactly its data at its final
  path from then on, and every path holds what it held at first, or a temporary file a writer still
  owns, or the complete data of a writer whose name it is: no reader ever sees a partial file there.
\<close>

theorem store_writers_safe:
  assumes "put_reach dir suffix data fs0 ph fs" and "no_collision data"
  shows "(\<forall>i r. ph i = PDone r \<and> 0 \<le> r \<longrightarrow> fs (final_path dir (data i) suffix) = Some (data i))
    \<and> (\<forall>i. fs (final_path dir (data i) suffix) \<in> {fs0 (final_path dir (data i) suffix), Some (data i)})
    \<and> (\<forall>p. fs p = fs0 p \<or> (\<exists>i. ph i = PTemp p)
          \<or> (\<exists>i. p = final_path dir (data i) suffix \<and> fs p = Some (data i)))"
proof -
  have inv: "writers_inv dir suffix data fs0 ph fs" using writers_inv_reach [OF assms] .
  have "fs (final_path dir (data i) suffix) \<in> {fs0 (final_path dir (data i) suffix), Some (data i)}" for i
  proof -
    have "ph j \<noteq> PTemp (final_path dir (data i) suffix)" for j
      using inv tmp_not_final unfolding writers_inv_def by metis
    moreover have "data j = data i" if "final_path dir (data i) suffix = final_path dir (data j) suffix" for j
      using assms(2) final_path_inj [OF that] by (auto simp: no_collision_def)
    ultimately show ?thesis using inv unfolding writers_inv_def by (metis insertCI)
  qed
  then show ?thesis using inv unfolding writers_inv_def by blast
qed

lemma demo_put_step:
  "put_step demo_io ''/s'' ''x'' ''.evt'' (PStart, Map.empty) = (PMissed, Map.empty)"
  by (simp add: Let_def demo_io_def final_path_def tmp_path_def NW_STORE_PATH_MAX_def
      nw_sha256_standard_length)

theorem store_writers_safe_witness:
  "\<exists>fs. put_reach ''/s'' ''.evt'' (\<lambda>_. ''x'') Map.empty ((\<lambda>_. PStart)(0 := PDone 1, 1 := PMissed)) fs
     \<and> fs (final_path ''/s'' ''x'' ''.evt'') = Some ''x''"
proof -
  let ?d = "\<lambda>_::nat. ''x''" and ?t = "tmp_path ''/s'' ''abcdef''"
  let ?f = "final_path ''/s'' ''x'' ''.evt''"
  note r = put_reach.step [of "''/s''" "''.evt''" ?d Map.empty]
  have "put_reach ''/s'' ''.evt'' ?d Map.empty ((\<lambda>_. PStart)(1 := PMissed)) Map.empty"
    by (rule r [where io = demo_io and i = 1, OF put_reach.start]) (simp only: demo_put_step)
  then have "put_reach ''/s'' ''.evt'' ?d Map.empty ((\<lambda>_. PStart)(1 := PMissed, 0 := PMissed)) Map.empty"
    by (rule r [where io = demo_io and i = 0]) (simp only: demo_put_step fun_upd_apply zero_neq_one if_False)
  then have "put_reach ''/s'' ''.evt'' ?d Map.empty ((\<lambda>_. PStart)(1 := PMissed, 0 := PMissed, 0 := PTemp ?t))
      [?t \<mapsto> ''x'']"
    by (rule r [where io = demo_io and i = 0]) (simp add: demo_io_def Let_def)
  then have R: "put_reach ''/s'' ''.evt'' ?d Map.empty
      ((\<lambda>_. PStart)(1 := PMissed, 0 := PMissed, 0 := PTemp ?t, 0 := PDone 1)) ([?t \<mapsto> ''x''](?t := None, ?f \<mapsto> ''x''))"
    by (rule r [where io = demo_io and i = 0]) (simp add: demo_io_def Let_def)
  have nc: "no_collision ?d" by (simp add: no_collision_def)
  have "([?t \<mapsto> ''x''](?t := None, ?f \<mapsto> ''x'')) ?f = Some ''x''"
    using store_writers_safe [OF R nc] by (metis fun_upd_same int_one_le_iff_zero_less zero_le_one)
  moreover have "(\<lambda>_. PStart)(1 := PMissed, 0 := PMissed, 0 := PTemp ?t, 0 := PDone 1)
      = (\<lambda>_. PStart)(0 := PDone 1, (1::nat) := PMissed)" by auto
  ultimately show ?thesis using R by metis
qed

end
