(* ===== verification/Lids.thy ===== *)
theory Lids
  imports NwPrelude
begin

text \<open>
  \<^verbatim>\<open>lids.c\<close>: the house allow-list and the classic BPF program built from it. The table holds the
  names of the system calls; their numbers come from the kernel's headers, so a numbering is an
  argument of every definition here. What a filter means is the kernel's business: a locale states
  the three instructions the emitter uses as the BPF documentation gives them, and a machine that
  satisfies it is defined to show that it can be satisfied.
\<close>

subsection \<open>The table\<close>

datatype sysname =
    NR_read | NR_write | NR_close | NR_fcntl | NR_getsockopt | NR_setsockopt | NR_nanosleep
  | NR_clock_nanosleep | NR_clock_gettime | NR_exit | NR_exit_group | NR_rt_sigreturn | NR_brk
  | NR_mmap | NR_mprotect | NR_munmap | NR_execve | NR_execveat | NR_openat | NR_newfstatat
  | NR_fstat | NR_stat | NR_pread64 | NR_access | NR_getdents64 | NR_arch_prctl
  | NR_set_tid_address | NR_set_robust_list | NR_prlimit64 | NR_getpid | NR_getcwd | NR_rseq
  | NR_futex | NR_readlinkat | NR_getrandom

definition strict_allow :: "sysname list" where
  "strict_allow = [NR_read, NR_write, NR_close, NR_fcntl, NR_getsockopt, NR_setsockopt,
     NR_nanosleep, NR_clock_nanosleep, NR_clock_gettime, NR_exit, NR_exit_group, NR_rt_sigreturn,
     NR_brk, NR_mmap, NR_mprotect, NR_munmap, NR_execve, NR_execveat, NR_openat, NR_newfstatat,
     NR_fstat, NR_stat, NR_pread64, NR_access, NR_getdents64, NR_arch_prctl, NR_set_tid_address,
     NR_set_robust_list, NR_prlimit64, NR_getpid, NR_getcwd, NR_rseq, NR_futex, NR_readlinkat,
     NR_getrandom]"

definition NALLOW :: nat where "NALLOW = length strict_allow"

lemma NALLOW_val: "NALLOW = 35" by (simp add: NALLOW_def strict_allow_def)

subsection \<open>The emitter\<close>

record sock_filter =
  f_code :: u16
  f_jt :: u8
  f_jf :: u8
  f_k :: u32

definition BPF_LD_W_ABS :: u16 where "BPF_LD_W_ABS = 0x20"
definition BPF_JMP_JEQ_K :: u16 where "BPF_JMP_JEQ_K = 0x15"
definition BPF_RET_K :: u16 where "BPF_RET_K = 0x06"
definition SECCOMP_RET_KILL_PROCESS :: u32 where "SECCOMP_RET_KILL_PROCESS = 0x80000000"
definition SECCOMP_RET_ALLOW :: u32 where "SECCOMP_RET_ALLOW = 0x7fff0000"

lemmas bpf_codes = BPF_LD_W_ABS_def BPF_JMP_JEQ_K_def BPF_RET_K_def

definition BPF_STMT :: "u16 \<Rightarrow> u32 \<Rightarrow> sock_filter" where
  "BPF_STMT code k = \<lparr>f_code = code, f_jt = 0, f_jf = 0, f_k = k\<rparr>"

definition BPF_JUMP :: "u16 \<Rightarrow> u32 \<Rightarrow> u8 \<Rightarrow> u8 \<Rightarrow> sock_filter" where
  "BPF_JUMP code k jt jf = \<lparr>f_code = code, f_jt = jt, f_jf = jf, f_k = k\<rparr>"

text \<open>
  One load of \<open>nr\<close> (offset 0 of \<^verbatim>\<open>seccomp_data\<close>), one compare per entry with the distance to the
  last instruction as its jump, the two returns. The jump offset is a byte.
\<close>

definition emit_filter :: "u32 list \<Rightarrow> sock_filter list" where
  "emit_filter allow =
     BPF_STMT BPF_LD_W_ABS 0
     # map (\<lambda>i. BPF_JUMP BPF_JMP_JEQ_K (allow ! i) (of_nat (length allow - i)) 0) [0..<length allow]
     @ [BPF_STMT BPF_RET_K SECCOMP_RET_KILL_PROCESS, BPF_STMT BPF_RET_K SECCOMP_RET_ALLOW]"

text \<open>What \<^verbatim>\<open>prctl\<close> changes in the calling process, and the two calls, each of which may fail.\<close>

record confinement =
  no_new_privs :: bool
  installed :: "sock_filter list option"

definition nw_apply_house_seccomp ::
  "(sysname \<Rightarrow> u32) \<Rightarrow> bool \<Rightarrow> bool \<Rightarrow> confinement \<Rightarrow> int \<times> confinement" where
  "nw_apply_house_seccomp nr_of nnp_ok seccomp_ok c =
     (let f = emit_filter (map nr_of strict_allow) in
      if length f \<noteq> 1 + NALLOW + 2 then (- 1, c)
      else if \<not> nnp_ok then (- 1, c)
      else let c1 = c\<lparr>no_new_privs := True\<rparr> in
        if \<not> seccomp_ok then (- 1, c1)
        else (0, c1\<lparr>installed := Some f\<rparr>))"

subsection \<open>What a filter decides\<close>

lemma u8_small: "m \<le> 255 \<Longrightarrow> unat (of_nat m :: u8) = m"
  by (simp add: unat_of_nat)

text \<open>
  A machine for classic BPF on the words of \<^verbatim>\<open>seccomp_data\<close>: \<open>run prog pc acc d\<close> is the value the
  program returns from instruction \<open>pc\<close> with accumulator \<open>acc\<close>.
\<close>

locale cbpf =
  fixes run :: "sock_filter list \<Rightarrow> nat \<Rightarrow> u32 \<Rightarrow> (nat \<Rightarrow> u32) \<Rightarrow> u32 option"
  assumes run_ld: "idx prog pc = Some i \<Longrightarrow> f_code i = BPF_LD_W_ABS \<Longrightarrow>
      run prog pc acc d = run prog (Suc pc) (d (unat (f_k i))) d"
    and run_jeq: "idx prog pc = Some i \<Longrightarrow> f_code i = BPF_JMP_JEQ_K \<Longrightarrow>
      run prog pc acc d = run prog (Suc pc + unat (if acc = f_k i then f_jt i else f_jf i)) acc d"
    and run_ret: "idx prog pc = Some i \<Longrightarrow> f_code i = BPF_RET_K \<Longrightarrow>
      run prog pc acc d = Some (f_k i)"
begin

lemma jeq_at:
  assumes "length allow \<le> 255" "j < length allow"
  shows "run (emit_filter allow) (Suc j) acc d =
    (if acc = allow ! j then run (emit_filter allow) (length allow + 2) acc d
     else run (emit_filter allow) (Suc (Suc j)) acc d)"
proof -
  let ?i = "BPF_JUMP BPF_JMP_JEQ_K (allow ! j) (of_nat (length allow - j)) 0"
  have i: "idx (emit_filter allow) (Suc j) = Some ?i"
    using assms by (simp add: emit_filter_def idx_def nth_append)
  have "unat (of_nat (length allow - j) :: u8) = length allow - j"
    using assms by (intro u8_small) simp
  moreover have "Suc (Suc j) + (length allow - j) = length allow + 2" using assms by simp
  ultimately show ?thesis
    using run_jeq [OF i, of acc d] by (simp add: BPF_JUMP_def)
qed

lemma compares:
  assumes "length allow \<le> 255" "j \<le> length allow"
  shows "run (emit_filter allow) (Suc j) acc d =
    (if acc \<in> set (drop j allow) then Some SECCOMP_RET_ALLOW else Some SECCOMP_RET_KILL_PROCESS)"
  using assms(2)
proof (induction "length allow - j" arbitrary: j)
  case 0
  then have j: "j = length allow" by simp
  have "idx (emit_filter allow) (Suc j) = Some (BPF_STMT BPF_RET_K SECCOMP_RET_KILL_PROCESS)"
    by (simp add: j emit_filter_def idx_def nth_append)
  then show ?case using run_ret by (simp add: j BPF_STMT_def)
next
  case (Suc n)
  then have j: "j < length allow" by simp
  have "idx (emit_filter allow) (length allow + 2) = Some (BPF_STMT BPF_RET_K SECCOMP_RET_ALLOW)"
    by (simp add: emit_filter_def idx_def nth_append)
  then have "run (emit_filter allow) (length allow + 2) a d = Some SECCOMP_RET_ALLOW" for a
    using run_ret by (simp add: BPF_STMT_def)
  moreover have "drop j allow = allow ! j # drop (Suc j) allow" using j by (simp add: Cons_nth_drop_Suc)
  ultimately show ?case
    using Suc.hyps(1) [of "Suc j"] Suc.hyps(2) j jeq_at [OF assms(1) j] by simp
qed

theorem filter_decides:
  assumes "length allow \<le> 255"
  shows "run (emit_filter allow) 0 acc d =
    (if d 0 \<in> set allow then Some SECCOMP_RET_ALLOW else Some SECCOMP_RET_KILL_PROCESS)"
proof -
  have "idx (emit_filter allow) 0 = Some (BPF_STMT BPF_LD_W_ABS 0)"
    by (simp add: emit_filter_def idx_def)
  from run_ld [OF this, of acc d] show ?thesis
    using compares [OF assms, of 0] by (simp add: BPF_STMT_def)
qed

end

text \<open>A machine: the program counter only grows, so a run ends.\<close>

function bpf_run :: "sock_filter list \<Rightarrow> nat \<Rightarrow> u32 \<Rightarrow> (nat \<Rightarrow> u32) \<Rightarrow> u32 option" where
  "bpf_run prog pc acc d =
     (case idx prog pc of None \<Rightarrow> None
      | Some i \<Rightarrow>
        if f_code i = BPF_LD_W_ABS then bpf_run prog (Suc pc) (d (unat (f_k i))) d
        else if f_code i = BPF_JMP_JEQ_K then
          bpf_run prog (Suc pc + unat (if acc = f_k i then f_jt i else f_jf i)) acc d
        else if f_code i = BPF_RET_K then Some (f_k i)
        else None)"
  by pat_completeness auto
termination
  by (relation "measure (\<lambda>(prog, pc, _, _). length prog - pc)")
    (auto simp: idx_def split: if_splits)

declare bpf_run.simps [simp del]

interpretation bpf: cbpf bpf_run
  by unfold_locales (simp_all add: bpf_run.simps bpf_codes cong: if_cong)

text \<open>The numbers of the x86-64 kernel, for the examples.\<close>

fun nr_x86_64 :: "sysname \<Rightarrow> u32" where
  "nr_x86_64 NR_read = 0" | "nr_x86_64 NR_write = 1" | "nr_x86_64 NR_close = 3"
| "nr_x86_64 NR_fcntl = 72" | "nr_x86_64 NR_getsockopt = 55" | "nr_x86_64 NR_setsockopt = 54"
| "nr_x86_64 NR_nanosleep = 35" | "nr_x86_64 NR_clock_nanosleep = 230"
| "nr_x86_64 NR_clock_gettime = 228" | "nr_x86_64 NR_exit = 60" | "nr_x86_64 NR_exit_group = 231"
| "nr_x86_64 NR_rt_sigreturn = 15" | "nr_x86_64 NR_brk = 12" | "nr_x86_64 NR_mmap = 9"
| "nr_x86_64 NR_mprotect = 10" | "nr_x86_64 NR_munmap = 11" | "nr_x86_64 NR_execve = 59"
| "nr_x86_64 NR_execveat = 322" | "nr_x86_64 NR_openat = 257" | "nr_x86_64 NR_newfstatat = 262"
| "nr_x86_64 NR_fstat = 5" | "nr_x86_64 NR_stat = 4" | "nr_x86_64 NR_pread64 = 17"
| "nr_x86_64 NR_access = 21" | "nr_x86_64 NR_getdents64 = 217" | "nr_x86_64 NR_arch_prctl = 158"
| "nr_x86_64 NR_set_tid_address = 218" | "nr_x86_64 NR_set_robust_list = 273"
| "nr_x86_64 NR_prlimit64 = 302" | "nr_x86_64 NR_getpid = 39" | "nr_x86_64 NR_getcwd = 79"
| "nr_x86_64 NR_rseq = 334" | "nr_x86_64 NR_futex = 202" | "nr_x86_64 NR_readlinkat = 267"
| "nr_x86_64 NR_getrandom = 318"

lemma apply_house_seccomp_result:
  "nw_apply_house_seccomp nr_of nnp_ok seccomp_ok c = (r, c') \<Longrightarrow>
     (r = 0 \<longleftrightarrow> nnp_ok \<and> seccomp_ok)
     \<and> (r = 0 \<longrightarrow> no_new_privs c' \<and> installed c' = Some (emit_filter (map nr_of strict_allow)))
     \<and> (r \<noteq> 0 \<longrightarrow> r = - 1 \<and> installed c' = installed c)"
  by (auto simp: nw_apply_house_seccomp_def Let_def emit_filter_def NALLOW_def split: if_splits)

text \<open>
  C12. The house filter is the table: when \<open>nw_apply_house_seccomp\<close> returns 0 the process can gain no
  privileges and has a filter installed that, on any machine for classic BPF and under any numbering
  of the calls, allows a call exactly if its number is the number of a name in the table and kills
  the process for every other; when a \<^verbatim>\<open>prctl\<close> fails the function says so and installs nothing.
\<close>

theorem house_filter_exact:
  assumes "nw_apply_house_seccomp nr_of nnp_ok seccomp_ok c = (r, c')" and "cbpf run"
  shows "(r = 0 \<longleftrightarrow> nnp_ok \<and> seccomp_ok) \<and> (r \<noteq> 0 \<longrightarrow> r = - 1 \<and> installed c' = installed c)
    \<and> (r = 0 \<longrightarrow> no_new_privs c' \<and> (\<exists>f. installed c' = Some f \<and> length f = NALLOW + 3
         \<and> (\<forall>acc d. run f 0 acc d = Some (if d 0 \<in> nr_of ` set strict_allow
              then SECCOMP_RET_ALLOW else SECCOMP_RET_KILL_PROCESS))))"
proof -
  let ?f = "emit_filter (map nr_of strict_allow)"
  have "length (map nr_of strict_allow) \<le> 255" using NALLOW_val by (simp add: NALLOW_def)
  from cbpf.filter_decides [OF assms(2) this]
  have "run ?f 0 acc d = Some (if d 0 \<in> nr_of ` set strict_allow
      then SECCOMP_RET_ALLOW else SECCOMP_RET_KILL_PROCESS)" for acc d
    by simp
  moreover have "length ?f = NALLOW + 3" by (simp add: emit_filter_def NALLOW_def)
  ultimately show ?thesis using apply_house_seccomp_result [OF assms(1)] by blast
qed

theorem house_filter_exact_witness:
  "\<exists>c f. nw_apply_house_seccomp nr_x86_64 True True \<lparr>no_new_privs = False, installed = None\<rparr> = (0, c)
     \<and> installed c = Some f
     \<and> bpf_run f 0 0 (\<lambda>_. 318) = Some SECCOMP_RET_ALLOW
     \<and> bpf_run f 0 0 (\<lambda>_. 101) = Some SECCOMP_RET_KILL_PROCESS"
proof -
  let ?c = "\<lparr>no_new_privs = False, installed = None\<rparr>"
  obtain r c where rc: "nw_apply_house_seccomp nr_x86_64 True True ?c = (r, c)"
    by (cases "nw_apply_house_seccomp nr_x86_64 True True ?c") auto
  have "318 \<in> nr_x86_64 ` set strict_allow" "101 \<notin> nr_x86_64 ` set strict_allow"
    by (auto simp: strict_allow_def)
  then show ?thesis
    using house_filter_exact [OF rc bpf.cbpf_axioms] rc by (auto simp: if_P if_not_P)
qed

end
