(* ===== verification/Decide.thy ===== *)
theory Decide
  imports NwPrelude
begin

text \<open>
  The supervision decision of \<^verbatim>\<open>decide.h\<close> / \<^verbatim>\<open>decide.c\<close>: a pure function from the supervisor's
  situation to the one thing it does next, with the wait-status macros it reads the exit status
  through. The flags are C \<open>int\<close>s used only for their truth value, so they are \<open>bool\<close>s here;
  \<open>deaths\<close> is an \<open>int\<close> and \<open>budget\<close> an \<open>unsigned\<close>, kept at their 32 bits, because the comparison
  between them converts \<open>budget\<close> to \<open>int\<close>.
\<close>

datatype nw_decision =
    NW_DECIDE_FORK
  | NW_DECIDE_WAIT
  | NW_DECIDE_IDLE
  | NW_DECIDE_RESTART
  | NW_DECIDE_SPENT
  | NW_DECIDE_EXIT_SUP
  | NW_DECIDE_TERM_CHILD

subsection \<open>The wait(2) status\<close>

text \<open>
  The status word that waitpid(2) stores, read through the macros of \<^verbatim>\<open><sys/wait.h>\<close>: the low
  seven bits are the terminating signal, zero for an ordinary exit, whose code is the byte above.
\<close>

type_synonym wstatus = nat

definition WTERMSIG :: "wstatus \<Rightarrow> nat" where
  "WTERMSIG st = st mod 128"

definition WIFEXITED :: "wstatus \<Rightarrow> bool" where
  "WIFEXITED st \<longleftrightarrow> WTERMSIG st = 0"

definition WEXITSTATUS :: "wstatus \<Rightarrow> nat" where
  "WEXITSTATUS st = st div 256 mod 256"

text \<open>The status of an ordinary exit with code \<open>c\<close>, and of a death by signal \<open>s\<close>.\<close>

definition exited :: "nat \<Rightarrow> wstatus" where
  "exited c = 256 * (c mod 256)"

definition signalled :: "nat \<Rightarrow> wstatus" where
  "signalled s = s mod 128"

lemma WIFEXITED_exited [simp]: "WIFEXITED (exited c)"
  by (simp add: WIFEXITED_def WTERMSIG_def exited_def mod_mult_left_eq mult.commute
      flip: mod_mult_eq)

lemma WEXITSTATUS_exited [simp]: "WEXITSTATUS (exited c) = c mod 256"
  by (simp add: WEXITSTATUS_def exited_def)

lemma WIFEXITED_signalled [simp]: "0 < s \<Longrightarrow> s < 128 \<Longrightarrow> \<not> WIFEXITED (signalled s)"
  by (simp add: WIFEXITED_def WTERMSIG_def signalled_def)

lemma WTERMSIG_signalled [simp]: "s < 128 \<Longrightarrow> WTERMSIG (signalled s) = s"
  by (simp add: WTERMSIG_def signalled_def)

subsection \<open>nw_decide\<close>

definition nw_decide ::
  "bool \<Rightarrow> bool \<Rightarrow> bool \<Rightarrow> bool \<Rightarrow> bool \<Rightarrow> bool \<Rightarrow> bool \<Rightarrow> wstatus \<Rightarrow> u32 \<Rightarrow> u32 \<Rightarrow> nw_decision" where
  "nw_decide lock complete_on_0 stopping stop_requested start_requested
             has_child child_exited exit_status deaths budget =
     (if stopping then
        if has_child \<and> \<not> child_exited then NW_DECIDE_TERM_CHILD else NW_DECIDE_EXIT_SUP
      else if has_child then
        if \<not> child_exited then
          if stop_requested then NW_DECIDE_TERM_CHILD else NW_DECIDE_WAIT
        else if stop_requested then NW_DECIDE_IDLE
        else if complete_on_0 \<and> WIFEXITED exit_status \<and> WEXITSTATUS exit_status = 0
          then NW_DECIDE_EXIT_SUP
        else if \<not> lock then NW_DECIDE_IDLE
        else if sint budget \<le> sint deaths then NW_DECIDE_SPENT
        else NW_DECIDE_RESTART
      else if \<not> lock \<and> \<not> start_requested then NW_DECIDE_IDLE
      else NW_DECIDE_FORK)"

lemmas nw_decide_simps = nw_decide_def if_True if_False

text \<open>The two outcomes that count a death, and what they demand of the situation.\<close>

definition counts_death :: "nw_decision \<Rightarrow> bool" where
  "counts_death d \<longleftrightarrow> d = NW_DECIDE_RESTART \<or> d = NW_DECIDE_SPENT"

lemma decide_counts_iff [nw_spec]:
  "counts_death (nw_decide lk c0 stopping stopr startr hc ce st deaths budget) \<longleftrightarrow>
     lk \<and> \<not> stopping \<and> hc \<and> ce \<and> \<not> stopr \<and> \<not> (c0 \<and> WIFEXITED st \<and> WEXITSTATUS st = 0)"
  by (auto simp: counts_death_def nw_decide_def)

lemma decide_spent_iff [nw_spec]:
  "nw_decide lk c0 stopping stopr startr hc ce st deaths budget = NW_DECIDE_SPENT \<longleftrightarrow>
     counts_death (nw_decide lk c0 stopping stopr startr hc ce st deaths budget)
     \<and> sint budget \<le> sint deaths"
  by (auto simp: counts_death_def nw_decide_def)

lemma decide_fork_iff [nw_spec]:
  "nw_decide lk c0 stopping stopr startr hc ce st deaths budget = NW_DECIDE_FORK \<longleftrightarrow>
     \<not> stopping \<and> \<not> hc \<and> (lk \<or> startr)"
  by (auto simp: nw_decide_def)

lemma decide_live_child:
  "nw_decide lk c0 stopping stopr startr True False st deaths budget =
     (if stopping \<or> stopr then NW_DECIDE_TERM_CHILD else NW_DECIDE_WAIT)"
  by (simp add: nw_decide_def)

lemma decide_no_child:
  "nw_decide lk c0 stopping stopr startr False ce st deaths budget =
     (if stopping then NW_DECIDE_EXIT_SUP
      else if lk \<or> startr then NW_DECIDE_FORK else NW_DECIDE_IDLE)"
  by (simp add: nw_decide_def)

lemma decide_after_exit:
  "nw_decide lk c0 stopping stopr startr True True st deaths budget
     \<in> {NW_DECIDE_EXIT_SUP, NW_DECIDE_IDLE, NW_DECIDE_SPENT, NW_DECIDE_RESTART}"
  by (simp add: nw_decide_def)

subsection \<open>Properties\<close>

text \<open>
  C3. The restart budget is consulted in exactly one situation. nw_decide counts a death
  (RESTART or SPENT) if and only if a child of a LOCKED unit has exited, no shutdown and no STOP
  was in progress, and the exit is not a oneshot's clean exit 0; and of these it is SPENT exactly
  when the deaths counted so far have reached the budget. So a STOP, a shutdown and an unlocked
  unit never use budget.
\<close>

theorem decide_budget_exact:
  "(counts_death (nw_decide lk c0 stopping stopr startr hc ce st deaths budget) \<longleftrightarrow>
      lk \<and> \<not> stopping \<and> hc \<and> ce \<and> \<not> stopr \<and> \<not> (c0 \<and> WIFEXITED st \<and> WEXITSTATUS st = 0))
   \<and> (nw_decide lk c0 stopping stopr startr hc ce st deaths budget = NW_DECIDE_SPENT \<longleftrightarrow>
        counts_death (nw_decide lk c0 stopping stopr startr hc ce st deaths budget)
        \<and> sint budget \<le> sint deaths)"
  by (simp only: decide_spent_iff decide_counts_iff simp_thms)

end
