(* ===== verification/Blob.thy ===== *)
theory Blob
  imports NwPrelude
begin

text \<open>
  The sealed plan of \<^verbatim>\<open>blob.h\<close>: the limits of the format, its packed structs as records, their
  layout as functions between bytes and records, the accessors \<open>nw_hdr\<close>, \<open>nw_units\<close>, \<open>nw_binds\<close>
  and \<open>nw_edges\<close>, the error codes, and the size and descriptor formulas. The layout functions
  are pinned by the same offsets and extents the header's static asserts pin.
\<close>

subsection \<open>Limits and closed sets\<close>

definition NW_MAGIC :: bytes where "NW_MAGIC = ''NWPLAN12''"
definition NW_NAME_LEN :: nat where "NW_NAME_LEN = 32"
definition NW_PATH_LEN :: nat where "NW_PATH_LEN = 128"
definition NW_BRICK_HASH :: nat where "NW_BRICK_HASH = 32"
definition NW_BRICK_HEX :: nat where "NW_BRICK_HEX = NW_BRICK_HASH * 2"
definition NW_MAX_BINDS :: nat where "NW_MAX_BINDS = 128"
definition NW_MAX_EDGES :: nat where "NW_MAX_EDGES = 128"
definition NW_MAX_UNITS :: nat where "NW_MAX_UNITS = 64"
definition NW_FD_RESERVED :: nat where "NW_FD_RESERVED = 8"
definition NW_MAX_FDS :: nat where "NW_MAX_FDS = 1024"
definition NW_FD_SWEEP :: nat where "NW_FD_SWEEP = NW_MAX_FDS"
definition NW_DUP_SLOTS :: nat where "NW_DUP_SLOTS = 128"
definition NW_EVIDENCE_TAIL_MAX :: nat where "NW_EVIDENCE_TAIL_MAX = 4096"

definition NW_LAYER_DIR :: bytes where "NW_LAYER_DIR = ''/nw/layers''"
definition NW_CTL_DIR :: bytes where "NW_CTL_DIR = ''/nw/ctl''"
definition NW_CGROUP_DIR :: bytes where "NW_CGROUP_DIR = ''/sys/fs/cgroup/nw''"
definition NW_EVIDENCE_DIR :: bytes where "NW_EVIDENCE_DIR = ''/nw/evidence''"
definition NW_LAYER_UPPER :: bytes where "NW_LAYER_UPPER = ''upper''"
definition NW_LAYER_WORK :: bytes where "NW_LAYER_WORK = ''work''"
definition NW_LAYER_STORE_SUFFIX :: bytes where "NW_LAYER_STORE_SUFFIX = ''.img''"
definition NW_BRICK_DIR :: bytes where "NW_BRICK_DIR = ''/nw/bricks''"
definition NW_BRICK_SUFFIX :: bytes where "NW_BRICK_SUFFIX = ''.img''"
definition NW_BRICK_MNT :: bytes where "NW_BRICK_MNT = ''/nw/mnt''"

lemmas nw_limits = NW_NAME_LEN_def NW_PATH_LEN_def NW_BRICK_HASH_def NW_BRICK_HEX_def
  NW_MAX_BINDS_def NW_MAX_EDGES_def NW_MAX_UNITS_def NW_FD_RESERVED_def NW_MAX_FDS_def
  NW_FD_SWEEP_def NW_DUP_SLOTS_def NW_EVIDENCE_TAIL_MAX_def

definition NW_KIND_ONESHOT :: u8 where "NW_KIND_ONESHOT = 0"
definition NW_KIND_LONGRUN :: u8 where "NW_KIND_LONGRUN = 1"

definition NW_LID_SECCOMP :: u8 where "NW_LID_SECCOMP = 0x01"
definition NW_LID_LANDLOCK :: u8 where "NW_LID_LANDLOCK = 0x02"
definition NW_LID_NEWNS :: u8 where "NW_LID_NEWNS = 0x04"
definition NW_LID_NEWNET :: u8 where "NW_LID_NEWNET = 0x08"

definition NW_SCHED_UNSET :: u8 where "NW_SCHED_UNSET = 0"
definition NW_SCHED_OTHER :: u8 where "NW_SCHED_OTHER = 1"
definition NW_SCHED_BATCH :: u8 where "NW_SCHED_BATCH = 2"
definition NW_SCHED_IDLE :: u8 where "NW_SCHED_IDLE = 3"
definition NW_SCHED_MAX :: u8 where "NW_SCHED_MAX = NW_SCHED_IDLE"

definition NW_LOCK_LOCKED :: u8 where "NW_LOCK_LOCKED = 0"
definition NW_LOCK_UNLOCKED :: u8 where "NW_LOCK_UNLOCKED = 1"
definition NW_LOCK_MAX :: u8 where "NW_LOCK_MAX = NW_LOCK_UNLOCKED"

definition NW_STOPSIG_UNSET :: u8 where "NW_STOPSIG_UNSET = 0"
definition NW_STOPSIG_TERM :: u8 where "NW_STOPSIG_TERM = 1"
definition NW_STOPSIG_INT :: u8 where "NW_STOPSIG_INT = 2"
definition NW_STOPSIG_HUP :: u8 where "NW_STOPSIG_HUP = 3"
definition NW_STOPSIG_QUIT :: u8 where "NW_STOPSIG_QUIT = 4"
definition NW_STOPSIG_MAX :: u8 where "NW_STOPSIG_MAX = NW_STOPSIG_QUIT"

definition NW_CPU_WEIGHT_MAX :: u16 where "NW_CPU_WEIGHT_MAX = 10000"
definition NW_NICE_MIN :: int where "NW_NICE_MIN = - 20"
definition NW_NICE_MAX :: int where "NW_NICE_MAX = 19"
definition NW_OOM_ADJ_MIN :: int where "NW_OOM_ADJ_MIN = - 1000"
definition NW_OOM_ADJ_MAX :: int where "NW_OOM_ADJ_MAX = 1000"
definition NW_GRACE_MAX_MS :: u32 where "NW_GRACE_MAX_MS = 2147483647"

lemmas nw_sets = NW_KIND_ONESHOT_def NW_KIND_LONGRUN_def NW_LID_SECCOMP_def NW_LID_LANDLOCK_def
  NW_LID_NEWNS_def NW_LID_NEWNET_def NW_SCHED_UNSET_def NW_SCHED_OTHER_def NW_SCHED_BATCH_def
  NW_SCHED_IDLE_def NW_SCHED_MAX_def NW_LOCK_LOCKED_def NW_LOCK_UNLOCKED_def NW_LOCK_MAX_def
  NW_STOPSIG_UNSET_def NW_STOPSIG_TERM_def NW_STOPSIG_INT_def NW_STOPSIG_HUP_def
  NW_STOPSIG_QUIT_def NW_STOPSIG_MAX_def NW_CPU_WEIGHT_MAX_def NW_NICE_MIN_def NW_NICE_MAX_def
  NW_OOM_ADJ_MIN_def NW_OOM_ADJ_MAX_def NW_GRACE_MAX_MS_def

subsection \<open>The structs\<close>

record nw_res =
  r_cpu_mask :: u64
  r_mem_high :: u64
  r_mem_max :: u64
  r_layer_bytes :: u64
  r_cpu_weight :: u16
  r_nice :: u8                \<comment> \<open>\<open>int8_t\<close>: read through \<open>sint\<close>\<close>
  r_sched_policy :: u8
  r_task_cap :: u32
  r_oom_score_adj :: u16      \<comment> \<open>\<open>int16_t\<close>: read through \<open>sint\<close>\<close>

record nw_unit =
  u_name :: bytes
  u_exec_path :: bytes
  u_brick :: bytes
  u_layer :: bytes
  u_kind :: u8
  u_budget :: u8
  u_lids :: u8
  u_lock :: u8
  u_res :: nw_res
  u_stop_signal :: u8
  u_grace_period :: u32
  u_nofile :: u32
  u_capabilities :: u64
  u_supervisor_death_policy :: u8

record nw_bind =
  b_unit :: u16
  b_path :: bytes

record nw_edge =
  e_a :: u16
  e_b :: u16

record nw_hdr =
  h_magic :: bytes
  h_n_units :: u32
  h_n_binds :: u32
  h_n_edges :: u32
  h_crc32 :: u32

subsection \<open>Their sizes and layout\<close>

definition sizeof_hdr :: nat where "sizeof_hdr = 24"
definition NW_RES_SIZE :: nat where "NW_RES_SIZE = 4 * 8 + 2 + 1 + 1 + 4 + 2"
definition NW_UNIT_SIZE :: nat where
  "NW_UNIT_SIZE = NW_NAME_LEN + NW_PATH_LEN + NW_BRICK_HASH + NW_NAME_LEN + 4 + NW_RES_SIZE
     + 1 + 4 + 4 + 8 + 1"
definition sizeof_bind :: nat where "sizeof_bind = 130"
definition sizeof_edge :: nat where "sizeof_edge = 4"

lemma struct_sizes:
  "NW_RES_SIZE = 42" "NW_UNIT_SIZE = 288" "sizeof_hdr = 24" "sizeof_bind = 130" "sizeof_edge = 4"
  by (simp_all add: NW_RES_SIZE_def NW_UNIT_SIZE_def sizeof_hdr_def sizeof_bind_def
      sizeof_edge_def nw_limits)

definition get_res :: "bytes \<Rightarrow> nw_res" where
  "get_res m = \<lparr>r_cpu_mask = rd 0 8 m, r_mem_high = rd 8 8 m, r_mem_max = rd 16 8 m,
     r_layer_bytes = rd 24 8 m, r_cpu_weight = rd 32 2 m, r_nice = rd 34 1 m,
     r_sched_policy = rd 35 1 m, r_task_cap = rd 36 4 m, r_oom_score_adj = rd 40 2 m\<rparr>"

definition get_unit :: "bytes \<Rightarrow> nw_unit" where
  "get_unit m = \<lparr>u_name = sub 0 32 m, u_exec_path = sub 32 128 m, u_brick = sub 160 32 m,
     u_layer = sub 192 32 m, u_kind = rd 224 1 m, u_budget = rd 225 1 m, u_lids = rd 226 1 m,
     u_lock = rd 227 1 m, u_res = get_res (sub 228 42 m), u_stop_signal = rd 270 1 m,
     u_grace_period = rd 271 4 m, u_nofile = rd 275 4 m, u_capabilities = rd 279 8 m,
     u_supervisor_death_policy = rd 287 1 m\<rparr>"

definition get_bind :: "bytes \<Rightarrow> nw_bind" where
  "get_bind m = \<lparr>b_unit = rd 0 2 m, b_path = sub 2 128 m\<rparr>"

definition get_edge :: "bytes \<Rightarrow> nw_edge" where
  "get_edge m = \<lparr>e_a = rd 0 2 m, e_b = rd 2 2 m\<rparr>"

definition nw_hdr :: "bytes \<Rightarrow> nw_hdr" where
  "nw_hdr m = \<lparr>h_magic = sub 0 8 m, h_n_units = rd 8 4 m, h_n_binds = rd 12 4 m,
     h_n_edges = rd 16 4 m, h_crc32 = rd 20 4 m\<rparr>"

text \<open>The bytes of each struct, in memory order: the inverse of the layout above.\<close>

definition put_res :: "nw_res \<Rightarrow> bytes" where
  "put_res r = wr 8 (r_cpu_mask r) @ wr 8 (r_mem_high r) @ wr 8 (r_mem_max r)
     @ wr 8 (r_layer_bytes r) @ wr 2 (r_cpu_weight r) @ wr 1 (r_nice r)
     @ wr 1 (r_sched_policy r) @ wr 4 (r_task_cap r) @ wr 2 (r_oom_score_adj r)"

definition put_unit :: "nw_unit \<Rightarrow> bytes" where
  "put_unit u = u_name u @ u_exec_path u @ u_brick u @ u_layer u @ wr 1 (u_kind u)
     @ wr 1 (u_budget u) @ wr 1 (u_lids u) @ wr 1 (u_lock u) @ put_res (u_res u)
     @ wr 1 (u_stop_signal u) @ wr 4 (u_grace_period u) @ wr 4 (u_nofile u)
     @ wr 8 (u_capabilities u) @ wr 1 (u_supervisor_death_policy u)"

definition put_bind :: "nw_bind \<Rightarrow> bytes" where
  "put_bind b = wr 2 (b_unit b) @ b_path b"

definition put_edge :: "nw_edge \<Rightarrow> bytes" where
  "put_edge e = wr 2 (e_a e) @ wr 2 (e_b e)"

definition put_hdr :: "nw_hdr \<Rightarrow> bytes" where
  "put_hdr h = h_magic h @ wr 4 (h_n_units h) @ wr 4 (h_n_binds h) @ wr 4 (h_n_edges h)
     @ wr 4 (h_crc32 h)"

text \<open>The array fields have their declared extents.\<close>

definition unit_extents :: "nw_unit \<Rightarrow> bool" where
  "unit_extents u \<longleftrightarrow> length (u_name u) = 32 \<and> length (u_exec_path u) = 128
     \<and> length (u_brick u) = 32 \<and> length (u_layer u) = 32"

definition bind_extents :: "nw_bind \<Rightarrow> bool" where
  "bind_extents b \<longleftrightarrow> length (b_path b) = 128"

lemmas layout_simps = sub_append1 sub_append2 rd_append1 rd_append2 sub_all rd_wr

lemma length_put_res [simp]: "length (put_res r) = 42"
  by (simp add: put_res_def)

lemma length_put_unit [simp]: "unit_extents u \<Longrightarrow> length (put_unit u) = 288"
  by (simp add: put_unit_def unit_extents_def)

lemma length_put_bind [simp]: "bind_extents b \<Longrightarrow> length (put_bind b) = 130"
  by (simp add: put_bind_def bind_extents_def)

lemma length_put_edge [simp]: "length (put_edge e) = 4"
  by (simp add: put_edge_def)

lemma get_put_res: "get_res (put_res r) = r"
  by (simp add: get_res_def put_res_def layout_simps)

lemma get_put_unit: "unit_extents u \<Longrightarrow> get_unit (put_unit u) = u"
  by (simp add: get_unit_def put_unit_def unit_extents_def layout_simps get_put_res)

lemma get_put_bind: "bind_extents b \<Longrightarrow> get_bind (put_bind b) = b"
  by (simp add: get_bind_def put_bind_def bind_extents_def layout_simps)

lemma get_put_edge: "get_edge (put_edge e) = e"
  by (simp add: get_edge_def put_edge_def layout_simps)

lemma put_get_res: "length m = 42 \<Longrightarrow> put_res (get_res m) = m"
  by (simp add: get_res_def put_res_def wr_rd sub_join_to sub_join_to_append sub_all)

lemma put_get_unit: "length m = 288 \<Longrightarrow> put_unit (get_unit m) = m"
  by (simp add: get_unit_def put_unit_def put_get_res wr_rd sub_join_to sub_join_to_append
      sub_all)

lemma put_get_bind: "length m = 130 \<Longrightarrow> put_bind (get_bind m) = m"
  by (simp add: get_bind_def put_bind_def wr_rd sub_join_to sub_all)

lemma put_get_edge: "length m = 4 \<Longrightarrow> put_edge (get_edge m) = m"
  by (simp add: get_edge_def put_edge_def wr_rd sub_join_to sub_all)

lemma unit_extents_get: "length m = 288 \<Longrightarrow> unit_extents (get_unit m)"
  by (simp add: unit_extents_def get_unit_def)

lemma bind_extents_get: "length m = 130 \<Longrightarrow> bind_extents (get_bind m)"
  by (simp add: bind_extents_def get_bind_def)

subsection \<open>The tables of a blob\<close>

text \<open>
  The accessors are pointer arithmetic into the blob: an array of structs at an offset computed
  from the header's counts. An array here is the list of its elements.
\<close>

definition nw_units :: "bytes \<Rightarrow> nw_unit list" where
  "nw_units blob = map (\<lambda>i. get_unit (sub (sizeof_hdr + i * NW_UNIT_SIZE) NW_UNIT_SIZE blob))
     [0..<unat (h_n_units (nw_hdr blob))]"

definition nw_binds :: "bytes \<Rightarrow> nw_bind list" where
  "nw_binds blob = (let h = nw_hdr blob; base = sizeof_hdr + unat (h_n_units h) * NW_UNIT_SIZE in
     map (\<lambda>i. get_bind (sub (base + i * sizeof_bind) sizeof_bind blob)) [0..<unat (h_n_binds h)])"

definition nw_edges :: "bytes \<Rightarrow> nw_edge list" where
  "nw_edges blob = (let h = nw_hdr blob; base = sizeof_hdr + unat (h_n_units h) * NW_UNIT_SIZE
       + unat (h_n_binds h) * sizeof_bind in
     map (\<lambda>i. get_edge (sub (base + i * sizeof_edge) sizeof_edge blob)) [0..<unat (h_n_edges h)])"

lemma length_nw_units [simp]: "length (nw_units blob) = unat (h_n_units (nw_hdr blob))"
  by (simp add: nw_units_def)

lemma length_nw_binds [simp]: "length (nw_binds blob) = unat (h_n_binds (nw_hdr blob))"
  by (simp add: nw_binds_def Let_def)

lemma length_nw_edges [simp]: "length (nw_edges blob) = unat (h_n_edges (nw_hdr blob))"
  by (simp add: nw_edges_def Let_def)

text \<open>Does this unit have a brick: the OR of every byte of the hash, normalised.\<close>

definition nw_unit_has_brick :: "nw_unit \<Rightarrow> bool" where
  "nw_unit_has_brick u = (foldl (\<lambda>any b. any OR of_char b) (0 :: u32) (u_brick u) \<noteq> 0)"

lemma foldl_or_zero_iff:
  "foldl (\<lambda>any b. any OR of_char b) w bs = (0 :: u32) \<longleftrightarrow> w = 0 \<and> (\<forall>b\<in>set bs. b = NUL)"
proof (induction bs arbitrary: w)
  case Nil
  then show ?case by simp
next
  case (Cons b bs)
  have "(of_char b :: u32) = 0 \<longleftrightarrow> b = NUL"
  proof
    assume "(of_char b :: u32) = 0"
    then have "unat (of_char b :: u32) = 0" by simp
    moreover have "(of_char b :: u32) = word_of_nat (of_char b)"
      by (simp only: of_nat_of_char)
    ultimately have "(of_char b :: nat) mod 2 ^ 32 = 0" by (simp only: unat_of_nat) simp
    moreover have "(of_char b :: nat) < 2 ^ 32"
      by (rule less_trans [OF nat_of_char_less_256]) simp
    ultimately have "(of_char b :: nat) = of_char NUL" by simp
    then show "b = NUL" by (simp only: of_char_eq_iff)
  qed simp
  then show ?case by (auto simp: Cons.IH or_eq_0_iff)
qed

lemma has_brick_iff [nw_spec]: "nw_unit_has_brick u \<longleftrightarrow> (\<exists>b\<in>set (u_brick u). b \<noteq> NUL)"
  by (auto simp: nw_unit_has_brick_def foldl_or_zero_iff)

subsection \<open>Size and descriptor formulas\<close>

text \<open>\<open>size_t\<close> arithmetic, so 64 bits; the result is cast to \<open>uint32_t\<close> by its users.\<close>

definition NW_BLOB_SIZE :: "u64 \<Rightarrow> u64 \<Rightarrow> u64 \<Rightarrow> u64" where
  "NW_BLOB_SIZE nu nb ne = of_nat sizeof_hdr + nu * of_nat NW_UNIT_SIZE
     + nb * of_nat sizeof_bind + ne * of_nat sizeof_edge"

definition NW_BLOB_MAX :: u32 where
  "NW_BLOB_MAX = ucast (NW_BLOB_SIZE (of_nat NW_MAX_UNITS) (of_nat NW_MAX_BINDS)
     (of_nat NW_MAX_EDGES))"

definition NW_BLOB_BUF :: u32 where "NW_BLOB_BUF = NW_BLOB_MAX + 1"

definition NW_BOOT_NEED :: "u64 \<Rightarrow> u64 \<Rightarrow> u64" where
  "NW_BOOT_NEED n e = of_nat NW_FD_RESERVED + n + 2 * e"

lemma NW_BLOB_MAX_val: "NW_BLOB_MAX = 35608"
  by (simp add: NW_BLOB_MAX_def NW_BLOB_SIZE_def struct_sizes nw_limits)

lemma static_asserts:
  "NW_BOOT_NEED (of_nat NW_MAX_UNITS) (of_nat NW_MAX_EDGES) \<le> of_nat NW_MAX_FDS"
  "NW_BOOT_NEED (of_nat NW_MAX_UNITS) (of_nat NW_MAX_EDGES) \<le> of_nat NW_FD_SWEEP"
  "6 \<le> NW_FD_RESERVED" "NW_MAX_UNITS < NW_DUP_SLOTS" "NW_DUP_SLOTS AND (NW_DUP_SLOTS - 1) = 0"
  by (simp_all add: NW_BOOT_NEED_def nw_limits)

end
