(* ===== verification/Checks.thy ===== *)
theory Checks
  imports Blob
begin

text \<open>
  The leaves of the validator in \<^verbatim>\<open>nwcheck.c\<close>: the error codes and their strings, the CRC over two
  regions, the name and path checks, the name hash and the open-addressed duplicate table. Each
  loop of the source is a recursion here, every array read goes through \<open>idx\<close> and yields \<open>None\<close>
  when it is out of range, and each check is proved equal to a declarative specification, which
  includes that it never reads out of range.
\<close>

subsection \<open>Error codes\<close>

datatype nw_err =
    NW_OK | NW_E_MAGIC | NW_E_UNITS | NW_E_SIZE | NW_E_CRC | NW_E_NAME | NW_E_DUPNAME | NW_E_PATH
  | NW_E_LIDS | NW_E_KIND | NW_E_BRICKNS | NW_E_BINDS | NW_E_BINDIDX | NW_E_BINDPATH
  | NW_E_LLBRICK | NW_E_LAYER | NW_E_LAYERPAIR | NW_E_LAYERDUP | NW_E_RESWEIGHT | NW_E_RESSCHED
  | NW_E_RESNICE | NW_E_MEMORDER | NW_E_NICEPOL | NW_E_CAPNOLAYER | NW_E_EDGES | NW_E_EDGEIDX
  | NW_E_EDGEDUP | NW_E_LOCK | NW_E_LOCKEDGE | NW_E_STOPSIG | NW_E_SUPDEATH | NW_E_OOMRANGE
  | NW_E_GRACERANGE

text \<open>The integer each code is, in the order of the enum, and the strings \<open>errs[]\<close> beside it.\<close>

definition nw_codes :: "nw_err list" where
  "nw_codes = [NW_OK, NW_E_MAGIC, NW_E_UNITS, NW_E_SIZE, NW_E_CRC, NW_E_NAME, NW_E_DUPNAME,
     NW_E_PATH, NW_E_LIDS, NW_E_KIND, NW_E_BRICKNS, NW_E_BINDS, NW_E_BINDIDX, NW_E_BINDPATH,
     NW_E_LLBRICK, NW_E_LAYER, NW_E_LAYERPAIR, NW_E_LAYERDUP, NW_E_RESWEIGHT, NW_E_RESSCHED,
     NW_E_RESNICE, NW_E_MEMORDER, NW_E_NICEPOL, NW_E_CAPNOLAYER, NW_E_EDGES, NW_E_EDGEIDX,
     NW_E_EDGEDUP, NW_E_LOCK, NW_E_LOCKEDGE, NW_E_STOPSIG, NW_E_SUPDEATH, NW_E_OOMRANGE,
     NW_E_GRACERANGE]"

definition NW_E_COUNT :: int where "NW_E_COUNT = 33"

fun index_of :: "'a \<Rightarrow> 'a list \<Rightarrow> nat" where
  "index_of x [] = 0"
| "index_of x (y # ys) = (if x = y then 0 else Suc (index_of x ys))"

definition err_code :: "nw_err \<Rightarrow> int" where
  "err_code e = int (index_of e nw_codes)"

definition errs :: "string list" where
  "errs = [''ok'', ''bad magic'', ''unit count'', ''size'', ''crc32'', ''name'',
     ''duplicate name'', ''exec_path'', ''lids'', ''kind'', ''brick without NEWNS lid'',
     ''bind count'', ''bind unit index'', ''bind path'', ''landlock without brick'',
     ''layer id'', ''layer and brick must come together'', ''duplicate layer id'',
     ''cpu-weight out of range'', ''sched policy out of range'', ''nice out of range'',
     ''mem-high must be below mem-max'', ''nice without a declared sched=other'',
     ''layer capacity without a layer'', ''edge count'', ''edge endpoint index'',
     ''duplicate edge'', ''lock outside the closed set'',
     ''an unlocked unit is named by a declared edge'', ''stop-signal outside the closed set'',
     ''supervisor-death policy is reserved and must be 0'', ''oom-score-adj out of range'',
     ''grace-period exceeds what poll(2)'' @ [CHR 0x27] @ ''s timeout can hold'']"

definition nw_errstr :: "int \<Rightarrow> string option" where
  "nw_errstr e = (if e < 0 \<or> NW_E_COUNT \<le> e then Some ''unknown'' else idx errs (nat e))"

lemma length_errs: "length errs = 33" by (simp add: errs_def)

lemma errs_distinct: "distinct errs" by (simp add: errs_def)

lemma errs_not_unknown: "''unknown'' \<notin> set errs" by (simp add: errs_def)

lemma err_code_range: "0 \<le> err_code e \<and> err_code e < NW_E_COUNT"
  by (cases e) (simp_all add: err_code_def NW_E_COUNT_def nw_codes_def)

lemma errs_of_codes: "map (\<lambda>e. idx errs (index_of e nw_codes)) nw_codes = map Some errs"
  by (simp add: nw_codes_def errs_def idx_def)

lemma errstr_of_codes: "map (\<lambda>e. nw_errstr (err_code e)) nw_codes = map Some errs"
proof -
  have "nw_errstr (err_code e) = idx errs (index_of e nw_codes)" for e
    using err_code_range [of e] by (simp add: nw_errstr_def) (simp add: err_code_def)
  then show ?thesis by (simp only: errs_of_codes)
qed

subsection \<open>nw_crc32_split\<close>

definition crc_bit :: "u32 \<Rightarrow> u32" where
  "crc_bit c = drop_bit 1 c XOR (0xedb88320 AND (- (c AND 1)))"

definition crc_byte :: "u32 \<Rightarrow> byte \<Rightarrow> u32" where
  "crc_byte c b = (crc_bit ^^ 8) (c XOR of_char b)"

definition nw_crc32_split :: "bytes \<Rightarrow> bytes \<Rightarrow> u32" where
  "nw_crc32_split a b = foldl crc_byte (foldl crc_byte 0xffffffff a) b XOR 0xffffffff"

subsection \<open>name_ok and path_ok_len\<close>

text \<open>
  The scanning loop both checks open with, \<^verbatim>\<open>for (; n < max && s[n]; n++)\<close> with an early
  \<^verbatim>\<open>return 0\<close> on a character outside the class \<open>ok\<close>: \<open>None\<close> is a read out of range,
  \<open>Some None\<close> the early return, \<open>Some (Some n)\<close> the value of \<open>n\<close> when the loop ends.
\<close>

function scan_field :: "(byte \<Rightarrow> bool) \<Rightarrow> bytes \<Rightarrow> nat \<Rightarrow> nat \<Rightarrow> nat option option" where
  "scan_field ok s mx n =
     (if n < mx then
        (case idx s n of
           None \<Rightarrow> None
         | Some c \<Rightarrow>
             if c = NUL then Some (Some n)
             else if \<not> ok c then Some None
             else scan_field ok s mx (Suc n))
      else Some (Some n))"
  by pat_completeness auto
termination by (relation "measure (\<lambda>(ok, s, mx, n). mx - n)") auto

text \<open>The loop both close with: every byte from \<open>i\<close> on is zero.\<close>

function zero_tail :: "bytes \<Rightarrow> nat \<Rightarrow> nat \<Rightarrow> bool option" where
  "zero_tail s mx i =
     (if i < mx then
        (case idx s i of
           None \<Rightarrow> None
         | Some c \<Rightarrow> if c \<noteq> NUL then Some False else zero_tail s mx (Suc i))
      else Some True)"
  by pat_completeness auto
termination by (relation "measure (\<lambda>(s, mx, i). mx - i)") auto

declare scan_field.simps [simp del] zero_tail.simps [simp del]

definition name_ok :: "bytes \<Rightarrow> nat \<Rightarrow> bool option" where
  "name_ok s mx =
     (case idx s 0 of
        None \<Rightarrow> None
      | Some c \<Rightarrow>
          if c = NUL then Some False
          else case scan_field name_char s mx 0 of
                 None \<Rightarrow> None
               | Some None \<Rightarrow> Some False
               | Some (Some n) \<Rightarrow>
                   if n = 0 \<or> mx \<le> n then Some False else zero_tail s mx n)"

definition path_char :: "byte \<Rightarrow> bool" where
  "path_char c \<longleftrightarrow> \<not> ((of_char c :: nat) < 32 \<or> (of_char c :: nat) = 127)"

text \<open>
  The test for a \<^verbatim>\<open>..\<close> component after the slash at \<open>i\<close>. The reads at \<open>i + 1\<close>, \<open>i + 2\<close> and
  \<open>i + 3\<close> happen one after the other, as the \<open>&&\<close> and \<open>||\<close> of the source short-circuit.
\<close>

definition dotdot_at :: "bytes \<Rightarrow> nat \<Rightarrow> bool option" where
  "dotdot_at s i =
     (case idx s (i + 1) of None \<Rightarrow> None | Some c1 \<Rightarrow>
        if c1 \<noteq> CHR ''.'' then Some False
        else case idx s (i + 2) of None \<Rightarrow> None | Some c2 \<Rightarrow>
          if c2 \<noteq> CHR ''.'' then Some False
          else case idx s (i + 3) of None \<Rightarrow> None | Some c3 \<Rightarrow>
            Some (c3 = CHR ''/'' \<or> c3 = NUL))"

function dotdot_scan :: "bytes \<Rightarrow> nat \<Rightarrow> nat \<Rightarrow> bool option" where
  "dotdot_scan s n i =
     (if i < n then
        (case idx s i of
           None \<Rightarrow> None
         | Some c \<Rightarrow>
             if c \<noteq> CHR ''/'' then dotdot_scan s n (Suc i)
             else case dotdot_at s i of
                    None \<Rightarrow> None
                  | Some found \<Rightarrow> if found then Some False else dotdot_scan s n (Suc i))
      else Some True)"
  by pat_completeness auto
termination by (relation "measure (\<lambda>(s, n, i). n - i)") auto

declare dotdot_scan.simps [simp del]

definition path_ok_len :: "bytes \<Rightarrow> nat \<Rightarrow> bool option" where
  "path_ok_len s mx =
     (case idx s 0 of
        None \<Rightarrow> None
      | Some c \<Rightarrow>
          if c \<noteq> CHR ''/'' then Some False
          else case scan_field path_char s mx 0 of
                 None \<Rightarrow> None
               | Some None \<Rightarrow> Some False
               | Some (Some n) \<Rightarrow>
                   if n < 2 \<or> mx \<le> n then Some False
                   else case zero_tail s mx n of
                          None \<Rightarrow> None
                        | Some zeros \<Rightarrow> if zeros then dotdot_scan s n 0 else Some False)"

definition path_ok :: "bytes \<Rightarrow> bool option" where
  "path_ok s = path_ok_len s NW_PATH_LEN"

subsection \<open>What the checks decide\<close>

text \<open>A well-formed name: a non-empty NUL-padded string over the closed alphabet.\<close>

definition name_wf :: "bytes \<Rightarrow> bool" where
  "name_wf s \<longleftrightarrow> padded s \<and> cstr s \<noteq> [] \<and> list_all name_char (cstr s)"

text \<open>A \<^verbatim>\<open>..\<close> component starts at the slash at position \<open>j\<close>.\<close>

definition updir_at :: "bytes \<Rightarrow> nat \<Rightarrow> bool" where
  "updir_at p j \<longleftrightarrow> take 3 (drop j p) = ''/..'' \<and>
     (drop (j + 3) p = [] \<or> hd (drop (j + 3) p) = CHR ''/'')"

definition path_wf :: "bytes \<Rightarrow> bool" where
  "path_wf s \<longleftrightarrow> padded s \<and> 2 \<le> length (cstr s) \<and> hd (cstr s) = CHR ''/''
     \<and> list_all path_char (cstr s)
     \<and> list_all (\<lambda>j. \<not> updir_at (cstr s) j) [0..<length (cstr s)]"

lemma path_wf_alt:
  "path_wf s \<longleftrightarrow> padded s \<and> 2 \<le> length (cstr s) \<and> hd (cstr s) = CHR ''/''
     \<and> list_all path_char (cstr s) \<and> (\<forall>j<length (cstr s). \<not> updir_at (cstr s) j)"
  by (auto simp: path_wf_def list_all_iff)

lemma scan_field_spec:
  "length s = mx \<Longrightarrow> n \<le> mx \<Longrightarrow> scan_field ok s mx n =
     Some (if list_all ok (cstr (drop n s)) then Some (n + length (cstr (drop n s))) else None)"
proof (induction ok s mx n rule: scan_field.induct)
  case (1 ok s mx n)
  show ?case
  proof (cases "n < mx")
    case True
    then have d: "drop n s = s ! n # drop (Suc n) s" and i: "idx s n = Some (s ! n)"
      using "1.prems" by (simp_all add: Cons_nth_drop_Suc idx_in)
    show ?thesis
      using "1.IH" [OF True i] "1.prems" True i d
      by (subst scan_field.simps) (auto simp: cstr_def)
  next
    case False
    with "1.prems" show ?thesis by (subst scan_field.simps) (simp add: cstr_def)
  qed
qed

lemma zero_tail_spec:
  "length s = mx \<Longrightarrow> zero_tail s mx i = Some (\<forall>c\<in>set (drop i s). c = NUL)"
proof (induction s mx i rule: zero_tail.induct)
  case (1 s mx i)
  show ?case
  proof (cases "i < mx")
    case True
    then have d: "drop i s = s ! i # drop (Suc i) s" and x: "idx s i = Some (s ! i)"
      using "1.prems" by (simp_all add: Cons_nth_drop_Suc idx_in)
    show ?thesis
      using "1.IH" [OF True x] "1.prems" True x d by (subst zero_tail.simps) auto
  next
    case False
    with "1.prems" show ?thesis by (subst zero_tail.simps) simp
  qed
qed

lemma cstr_empty_iff: "s \<noteq> [] \<Longrightarrow> cstr s = [] \<longleftrightarrow> hd s = NUL"
  by (cases s) (auto simp: cstr_def)

lemma hd_cstr: "cstr s \<noteq> [] \<Longrightarrow> hd (cstr s) = hd s"
  by (cases s) (auto simp: cstr_def split: if_splits)

lemma name_ok_spec [nw_spec]: "length s = mx \<Longrightarrow> 0 < mx \<Longrightarrow> name_ok s mx = Some (name_wf s)"
  using cstr_empty_iff [of s]
  by (auto simp: name_ok_def idx_in scan_field_spec zero_tail_spec name_wf_def padded_def
      hd_conv_nth not_le split: option.splits)

lemma dotdot_at_spec:
  assumes s: "s = p @ replicate k NUL" and k: "0 < k" and i: "i < length p" and nul: "NUL \<notin> set p"
    and slash: "p ! i = CHR ''/''"
  shows "dotdot_at s i = Some (updir_at p i)"
proof -
  obtain r where r: "drop i p = CHR ''/'' # r" using i slash by (metis Cons_nth_drop_Suc)
  have nr: "NUL \<notin> set r" using nul r by (metis in_set_dropD list.set_intros(2))
  obtain k' where k': "k = Suc k'" using k by (cases k) auto
  have ix: "idx s (i + j) = idx (CHR ''/'' # r @ replicate k NUL) j" for j
  proof -
    have "drop i s = CHR ''/'' # r @ replicate k NUL" using s i r by simp
    then have "idx (CHR ''/'' # r @ replicate k NUL) j = idx (drop i s) j" by simp
    also have "\<dots> = idx s (i + j)" using s i by (intro idx_drop) simp
    finally show ?thesis by simp
  qed
  have d3: "drop (i + 3) p = drop 2 r"
    using r by (metis (no_types, lifting) add.commute drop_drop drop_Suc_Cons numeral_3_eq_3
        numeral_2_eq_2)
  show ?thesis
    unfolding dotdot_at_def updir_at_def ix d3 r k'
    using nr by (cases r; cases "tl r"; cases "tl (tl r)")
      (auto simp: idx_def numeral_2_eq_2 numeral_3_eq_3)
qed

lemma dotdot_scan_spec:
  "s = p @ replicate k NUL \<Longrightarrow> 0 < k \<Longrightarrow> NUL \<notin> set p \<Longrightarrow> n = length p \<Longrightarrow>
   dotdot_scan s n i = Some (\<forall>j. i \<le> j \<and> j < n \<longrightarrow> \<not> updir_at p j)"
proof (induction s n i rule: dotdot_scan.induct)
  case (1 s n i)
  show ?case
  proof (cases "i < n")
    case True
    have x: "idx s i = Some (p ! i)" using "1.prems" True by (simp add: idx_def nth_append)
    have split: "(\<forall>j. i \<le> j \<and> j < n \<longrightarrow> \<not> updir_at p j) \<longleftrightarrow>
        \<not> updir_at p i \<and> (\<forall>j. Suc i \<le> j \<and> j < n \<longrightarrow> \<not> updir_at p j)"
      using True by (rule all_from_Suc)
    have no: "p ! i \<noteq> CHR ''/'' \<Longrightarrow> \<not> updir_at p i"
      using True "1.prems" by (auto simp: updir_at_def simp flip: Cons_nth_drop_Suc)
    show ?thesis
    proof (cases "p ! i = CHR ''/''")
      case True
      then have "dotdot_at s i = Some (updir_at p i)"
        using dotdot_at_spec "1.prems" \<open>i < n\<close> by blast
      then have "dotdot_scan s n i =
          Some (\<not> updir_at p i \<and> (\<forall>j. Suc i \<le> j \<and> j < n \<longrightarrow> \<not> updir_at p j))"
        using "1.IH"(2) [OF \<open>i < n\<close> x] "1.prems" \<open>i < n\<close> x True
        by (subst dotdot_scan.simps) auto
      then show ?thesis by (simp only: split)
    next
      case False
      then have "dotdot_scan s n i =
          Some (\<not> updir_at p i \<and> (\<forall>j. Suc i \<le> j \<and> j < n \<longrightarrow> \<not> updir_at p j))"
        using "1.IH"(1) [OF \<open>i < n\<close> x] "1.prems" \<open>i < n\<close> x no
        by (subst dotdot_scan.simps) auto
      then show ?thesis by (simp only: split)
    qed
  next
    case False
    then show ?thesis by (subst dotdot_scan.simps) auto
  qed
qed

lemma path_ok_len_spec [nw_spec]:
  assumes len: "length s = mx" and pos: "0 < mx"
  shows "path_ok_len s mx = Some (path_wf s)"
proof -
  let ?p = "cstr s"
  have dd: "padded s \<Longrightarrow> dotdot_scan s (length ?p) 0 = Some (\<forall>j<length ?p. \<not> updir_at ?p j)"
    using dotdot_scan_spec [of s ?p "length s - length ?p" "length ?p" 0] padded_eq cstr_no_NUL
    by (simp add: padded_def)
  have tail: "length ?p < mx \<Longrightarrow> zero_tail s mx (length ?p) = Some (padded s)"
    using zero_tail_spec [OF len] len by (simp add: padded_def)
  have scan: "scan_field path_char s mx 0 =
      Some (if list_all path_char ?p then Some (length ?p) else None)"
    using scan_field_spec [OF len, of 0] by simp
  have first: "idx s 0 = Some (hd s)" using len pos by (cases s) (auto simp: idx_def)
  have "path_ok_len s mx = Some (hd s = CHR ''/'' \<and> list_all path_char ?p \<and> 2 \<le> length ?p
      \<and> length ?p < mx \<and> padded s \<and> (\<forall>j<length ?p. \<not> updir_at ?p j))"
    unfolding path_ok_len_def first scan using tail dd by (simp add: not_le not_less)
  moreover have h: "2 \<le> length ?p \<Longrightarrow> hd ?p = hd s"
    by (rule hd_cstr) auto
  moreover have l: "padded s \<Longrightarrow> length ?p < mx" using len by (simp add: padded_def)
  moreover have "(hd s = CHR ''/'' \<and> list_all path_char ?p \<and> 2 \<le> length ?p
      \<and> length ?p < mx \<and> padded s \<and> (\<forall>j<length ?p. \<not> updir_at ?p j)) = path_wf s"
    unfolding path_wf_alt using h l
    by (cases "2 \<le> length ?p"; cases "padded s"; cases "hd s = CHR ''/''") simp_all
  ultimately show ?thesis by simp
qed

subsection \<open>The CRC detects a changed byte\<close>

lemma bit31_poly: "bit (0xedb88320 :: u32) 31" by simp

lemma crc_bit_low: "crc_bit c = (if bit c 0 then drop_bit 1 c XOR 0xedb88320 else drop_bit 1 c)"
proof -
  have "c AND 1 = (if bit c 0 then 1 else 0)" by (simp add: and_one_eq mod_2_eq_odd bit_0)
  then show ?thesis by (simp add: crc_bit_def)
qed

lemma drop1_inj: "drop_bit 1 c = drop_bit 1 d \<Longrightarrow> bit c 0 = bit d 0 \<Longrightarrow> c = (d :: u32)"
proof (rule bit_word_eqI)
  fix n assume e: "drop_bit 1 c = drop_bit 1 d" "bit c 0 = bit d 0" and n: "n < LENGTH(32)"
  show "bit c n = bit d n"
  proof (cases n)
    case 0 with e show ?thesis by simp
  next
    case (Suc m)
    have "bit (drop_bit 1 c) m = bit (drop_bit 1 d) m" using e by simp
    then show ?thesis using Suc by (simp add: bit_drop_bit_eq)
  qed
qed

lemma top_drop: "\<not> bit (drop_bit 1 (c :: u32)) 31"
  using bit_imp_le_length [of c 32] by (auto simp: bit_drop_bit_eq)

lemma crc_bit_top: "bit (crc_bit c) 31 = bit c 0"
  using top_drop [of c] bit31_poly by (simp add: crc_bit_low bit_xor_iff)

lemma xor_cancel: "a XOR b = c XOR b \<Longrightarrow> a = (c :: 'a :: len word)"
  by (metis xor.assoc xor.right_neutral xor_self_eq)

lemma crc_bit_inj: "crc_bit c = crc_bit d \<Longrightarrow> c = d"
proof -
  assume eq: "crc_bit c = crc_bit d"
  then have low: "bit c 0 = bit d 0" by (metis crc_bit_top)
  then have "drop_bit 1 c = drop_bit 1 d"
    using eq unfolding crc_bit_low by (auto dest: xor_cancel simp del: One_nat_def)
  then show ?thesis using low by (rule drop1_inj)
qed

lemma crc_bits_inj: "(crc_bit ^^ n) c = (crc_bit ^^ n) d \<Longrightarrow> c = d"
proof -
  have "inj crc_bit" by (rule injI) (rule crc_bit_inj)
  then show "(crc_bit ^^ n) c = (crc_bit ^^ n) d \<Longrightarrow> c = d" by (blast dest: inj_fn injD)
qed

lemma crc_byte_inj: "crc_byte c b = crc_byte d b \<Longrightarrow> c = d"
  unfolding crc_byte_def by (rule xor_cancel, rule crc_bits_inj)

lemma of_char_u32_inj: "(of_char b :: u32) = of_char c \<Longrightarrow> b = c"
proof -
  assume "(of_char b :: u32) = of_char c"
  then have "unat (word_of_nat (of_char b) :: u32) = unat (word_of_nat (of_char c) :: u32)"
    by (simp only: of_nat_of_char)
  moreover have "(of_char x :: nat) < 2 ^ 32" for x
    by (rule less_trans [OF nat_of_char_less_256]) simp
  ultimately have "(of_char b :: nat) = of_char c" by (simp add: unat_of_nat)
  then show ?thesis by (simp only: of_char_eq_iff)
qed

lemma crc_byte_data: "crc_byte c a = crc_byte c b \<Longrightarrow> a = b"
proof -
  assume "crc_byte c a = crc_byte c b"
  then have "c XOR of_char a = c XOR of_char b"
    unfolding crc_byte_def by (rule crc_bits_inj)
  then have "(of_char a :: u32) = of_char b"
    by (metis xor.commute xor_cancel)
  then show ?thesis by (rule of_char_u32_inj)
qed

lemma crc_fold_inj: "foldl crc_byte c bs = foldl crc_byte d bs \<Longrightarrow> c = d"
  by (induction bs arbitrary: c d) (auto dest: crc_byte_inj)

lemma crc_detects_second:
  assumes "a \<noteq> b"
  shows "nw_crc32_split h (p @ a # s) \<noteq> nw_crc32_split h (p @ b # s)"
proof
  assume "nw_crc32_split h (p @ a # s) = nw_crc32_split h (p @ b # s)"
  then have "foldl crc_byte (crc_byte (foldl crc_byte (foldl crc_byte 0xffffffff h) p) a) s
      = foldl crc_byte (crc_byte (foldl crc_byte (foldl crc_byte 0xffffffff h) p) b) s"
    unfolding nw_crc32_split_def by (auto dest: xor_cancel)
  then have "a = b" by (blast dest: crc_fold_inj crc_byte_data)
  with assms show False ..
qed

lemma nw_crc32_split_join: "nw_crc32_split h t = nw_crc32_split [] (h @ t)"
  by (simp add: nw_crc32_split_def)

lemma crc_detects_first:
  "a \<noteq> b \<Longrightarrow> nw_crc32_split (p @ a # s) t \<noteq> nw_crc32_split (p @ b # s) t"
  using crc_detects_second [of a b "[]" p "s @ t"]
  by (simp add: nw_crc32_split_join [of "p @ a # s"] nw_crc32_split_join [of "p @ b # s"])

subsection \<open>Components of an accepted path\<close>

text \<open>The components a path resolves through: what stands between its slashes.\<close>

fun comps :: "bytes \<Rightarrow> bytes list" where
  "comps [] = [[]]"
| "comps (c # cs) =
     (if c = CHR ''/'' then [] # comps cs else (c # hd (comps cs)) # tl (comps cs))"

lemma comps_hd: "comps p \<noteq> [] \<and> hd (comps p) = takeWhile (\<lambda>c. c \<noteq> CHR ''/'') p"
  by (induction p) auto

lemma comps_tl:
  "w \<in> set (tl (comps p)) \<Longrightarrow>
     \<exists>j<length p. p ! j = CHR ''/'' \<and> w = takeWhile (\<lambda>c. c \<noteq> CHR ''/'') (drop (Suc j) p)"
proof (induction p)
  case Nil
  then show ?case by simp
next
  case (Cons c cs)
  show ?case
  proof (cases "c = CHR ''/'' \<and> w = hd (comps cs)")
    case True
    then show ?thesis using comps_hd [of cs] by (intro exI [of _ 0]) simp
  next
    case False
    then have "w \<in> set (tl (comps cs))"
      using Cons.prems comps_hd [of cs] by (cases "comps cs") (auto split: if_splits)
    then obtain j where "j < length cs" "cs ! j = CHR ''/''"
      "w = takeWhile (\<lambda>c. c \<noteq> CHR ''/'') (drop (Suc j) cs)" using Cons.IH by blast
    then show ?thesis by (intro exI [of _ "Suc j"]) simp
  qed
qed

lemma takeWhile_dotdot:
  assumes "takeWhile (\<lambda>c. c \<noteq> CHR ''/'') q = ''..''"
  shows "take 2 q = ''..'' \<and> (drop 2 q = [] \<or> hd (drop 2 q) = CHR ''/'')"
proof -
  have "q = ''..'' @ dropWhile (\<lambda>c. c \<noteq> CHR ''/'') q"
    using assms by (metis takeWhile_dropWhile_id)
  moreover have "dropWhile (\<lambda>c. c \<noteq> CHR ''/'') q = []
      \<or> hd (dropWhile (\<lambda>c. c \<noteq> CHR ''/'') q) = CHR ''/''"
    using hd_dropWhile [of "\<lambda>c. c \<noteq> CHR ''/''" q] by auto
  ultimately show ?thesis by (metis (no_types, lifting) append_eq_conv_conj length_Cons list.size(3)
        numeral_2_eq_2)
qed

lemma updir_free_comps:
  assumes "hd p = CHR ''/''" "p \<noteq> []" "\<forall>j<length p. \<not> updir_at p j"
  shows "''..'' \<notin> set (comps p)"
proof
  assume dd: "''..'' \<in> set (comps p)"
  have "hd (comps p) = []" using comps_hd [of p] assms(1,2) by (cases p) auto
  then have "''..'' \<in> set (tl (comps p))"
    using dd comps_hd [of p] by (cases "comps p") auto
  then obtain j where j: "j < length p" "p ! j = CHR ''/''"
    "takeWhile (\<lambda>c. c \<noteq> CHR ''/'') (drop (Suc j) p) = ''..''"
    using comps_tl by metis
  have "drop j p = CHR ''/'' # drop (Suc j) p" using j by (simp add: Cons_nth_drop_Suc [symmetric])
  moreover have "drop (j + 3) p = drop 2 (drop (Suc j) p)"
    by (simp add: numeral_3_eq_3)
  ultimately have "updir_at p j"
    using takeWhile_dotdot [OF j(3)] unfolding updir_at_def
    by (simp only: numeral_3_eq_3 numeral_2_eq_2 take_Suc_Cons)
  with assms(3) j(1) show False by blast
qed

end
