(* ===== verification/DupTab.thy ===== *)
theory DupTab
  imports Checks
begin

text \<open>
  The duplicate-name table of \<^verbatim>\<open>nwcheck.c\<close>: \<open>hash_name\<close> (FNV-1a over a fixed-width name), the
  table \<open>struct nw_dup_tab\<close> of \<open>NW_DUP_SLOTS\<close> slots, and \<open>field_dup\<close>, the open-addressed probe that
  the validator runs once for names and once for layer ids. The field is a parameter, as the
  offset is in the source. The probe is proved equivalent to asking whether the name occurs among
  the units already inserted, for as long as the table cannot fill.
\<close>

subsection \<open>hash_name\<close>

definition fnv_step :: "u32 \<Rightarrow> byte \<Rightarrow> u32" where
  "fnv_step h c = (h XOR of_char c) * 16777619"

function hash_loop :: "bytes \<Rightarrow> nat \<Rightarrow> u32 \<Rightarrow> u32 option" where
  "hash_loop s i h =
     (if i < NW_NAME_LEN then
        (case idx s i of
           None \<Rightarrow> None
         | Some c \<Rightarrow> if c = NUL then Some h else hash_loop s (Suc i) (fnv_step h c))
      else Some h)"
  by pat_completeness auto
termination by (relation "measure (\<lambda>(s, i, h). NW_NAME_LEN - i)") auto

declare hash_loop.simps [simp del]

definition hash_name :: "bytes \<Rightarrow> u32 option" where
  "hash_name s = hash_loop s 0 2166136261"

definition hash_of :: "bytes \<Rightarrow> u32" where
  "hash_of p = foldl fnv_step 2166136261 p"

lemma hash_loop_spec:
  "length s = NW_NAME_LEN \<Longrightarrow> hash_loop s i h = Some (foldl fnv_step h (cstr (drop i s)))"
proof (induction s i h rule: hash_loop.induct)
  case (1 s i h)
  show ?case
  proof (cases "i < NW_NAME_LEN")
    case True
    then have d: "drop i s = s ! i # drop (Suc i) s" and x: "idx s i = Some (s ! i)"
      using "1.prems" by (simp_all add: Cons_nth_drop_Suc idx_in)
    show ?thesis
      using "1.IH" [OF True x] "1.prems" True x d
      by (subst hash_loop.simps) (auto simp: cstr_def)
  next
    case False
    with "1.prems" show ?thesis by (subst hash_loop.simps) (simp add: cstr_def)
  qed
qed

lemma hash_name_spec [nw_spec]: "length s = NW_NAME_LEN \<Longrightarrow> hash_name s = Some (hash_of (cstr s))"
  by (simp add: hash_name_def hash_of_def hash_loop_spec)

subsection \<open>The name comparison of the probe\<close>

function same_name :: "bytes \<Rightarrow> bytes \<Rightarrow> nat \<Rightarrow> bool option" where
  "same_name a b n =
     (if n < NW_NAME_LEN then
        (case idx a n of None \<Rightarrow> None | Some x \<Rightarrow>
         case idx b n of None \<Rightarrow> None | Some y \<Rightarrow>
           if x \<noteq> y then Some False else if x = NUL then Some True else same_name a b (Suc n))
      else Some True)"
  by pat_completeness auto
termination by (relation "measure (\<lambda>(a, b, n). NW_NAME_LEN - n)") auto

declare same_name.simps [simp del]

lemma same_name_spec:
  "length a = NW_NAME_LEN \<Longrightarrow> length b = NW_NAME_LEN \<Longrightarrow>
   same_name a b n = Some (cstr (drop n a) = cstr (drop n b))"
proof (induction a b n rule: same_name.induct)
  case (1 a b n)
  show ?case
  proof (cases "n < NW_NAME_LEN")
    case True
    then have d: "drop n a = a ! n # drop (Suc n) a" "drop n b = b ! n # drop (Suc n) b"
      and x: "idx a n = Some (a ! n)" "idx b n = Some (b ! n)"
      using "1.prems" by (simp_all add: Cons_nth_drop_Suc idx_in)
    show ?thesis
      using "1.IH" [OF True x] "1.prems" True x d
      by (subst same_name.simps) (auto simp: cstr_def)
  next
    case False
    with "1.prems" show ?thesis by (subst same_name.simps) (simp add: cstr_def)
  qed
qed

subsection \<open>field_dup\<close>

type_synonym nw_dup_tab = "int list"

definition name_dup_init :: nw_dup_tab where
  "name_dup_init = replicate NW_DUP_SLOTS (- 1)"

text \<open>
  The probe loop: \<open>Some (dup, table)\<close> is the answer and the table afterwards, \<open>None\<close> a read out
  of range.
\<close>

function probe_loop ::
  "(nw_unit \<Rightarrow> bytes) \<Rightarrow> nw_unit list \<Rightarrow> nat \<Rightarrow> bytes \<Rightarrow> nw_dup_tab \<Rightarrow> nat \<Rightarrow> nat
     \<Rightarrow> (bool \<times> nw_dup_tab) option" where
  "probe_loop f us i me slot s p =
     (if p < NW_DUP_SLOTS then
        let k = (s + p) AND (NW_DUP_SLOTS - 1) in
        (case idx slot k of None \<Rightarrow> None | Some v \<Rightarrow>
           if v < 0 then Some (False, slot[k := int i])
           else case idx us (nat v) of None \<Rightarrow> None | Some w \<Rightarrow>
             case same_name (f w) me 0 of None \<Rightarrow> None | Some same \<Rightarrow>
               if same then Some (True, slot) else probe_loop f us i me slot s (Suc p))
      else Some (False, slot))"
  by pat_completeness auto
termination by (relation "measure (\<lambda>(f, us, i, me, slot, s, p). NW_DUP_SLOTS - p)") auto

declare probe_loop.simps [simp del]

definition field_dup ::
  "(nw_unit \<Rightarrow> bytes) \<Rightarrow> nw_dup_tab \<Rightarrow> nw_unit list \<Rightarrow> nat \<Rightarrow> (bool \<times> nw_dup_tab) option" where
  "field_dup f slot us i =
     (case idx us i of None \<Rightarrow> None | Some u \<Rightarrow>
      case hash_name (f u) of None \<Rightarrow> None | Some hv \<Rightarrow>
        probe_loop f us i (f u) slot (unat (hv AND of_nat (NW_DUP_SLOTS - 1))) 0)"

subsection \<open>The table invariant\<close>

definition home :: "bytes \<Rightarrow> nat" where
  "home p = unat (hash_of p AND of_nat (NW_DUP_SLOTS - 1))"

definition slot_at :: "nw_dup_tab \<Rightarrow> nat \<Rightarrow> nat \<Rightarrow> int" where
  "slot_at t s q = t ! ((s + q) mod NW_DUP_SLOTS)"

text \<open>
  \<open>T\<close> is the set of inserted unit indices: every occupied slot holds one of them, each of them
  is found along its probe sequence behind occupied slots only, and the table holds no more
  entries than \<open>T\<close> has members.
\<close>

definition tab_inv :: "(nw_unit \<Rightarrow> bytes) \<Rightarrow> nw_unit list \<Rightarrow> nat set \<Rightarrow> nw_dup_tab \<Rightarrow> bool" where
  "tab_inv f us T t \<longleftrightarrow> length t = NW_DUP_SLOTS \<and> finite T \<and> T \<subseteq> {..<length us}
     \<and> (\<forall>k<NW_DUP_SLOTS. 0 \<le> t ! k \<longrightarrow> nat (t ! k) \<in> T)
     \<and> (\<forall>j\<in>T. \<exists>p<NW_DUP_SLOTS. slot_at t (home (cstr (f (us ! j)))) p = int j
           \<and> (\<forall>q<p. 0 \<le> slot_at t (home (cstr (f (us ! j)))) q))
     \<and> card {k. k < NW_DUP_SLOTS \<and> 0 \<le> t ! k} \<le> card T"

lemma and_slots: "n AND (NW_DUP_SLOTS - 1) = n mod NW_DUP_SLOTS"
proof -
  have "(127::nat) = mask 7" by (simp add: mask_eq_exp_minus_1)
  then have "n AND 127 = n mod 2 ^ 7" by (simp only: take_bit_eq_mask [symmetric] take_bit_eq_mod)
  then show ?thesis by (simp add: NW_DUP_SLOTS_def)
qed

lemma tab_inv_init: "tab_inv f us {} name_dup_init"
  by (simp add: tab_inv_def name_dup_init_def)

lemma slot_cover:
  assumes "\<forall>q<NW_DUP_SLOTS. 0 \<le> slot_at t s q" and "k < NW_DUP_SLOTS"
  shows "0 \<le> t ! k"
proof -
  let ?q = "(k + (NW_DUP_SLOTS - s mod NW_DUP_SLOTS)) mod NW_DUP_SLOTS"
  have le: "s mod NW_DUP_SLOTS < NW_DUP_SLOTS" by (simp add: NW_DUP_SLOTS_def)
  have "(s + ?q) mod NW_DUP_SLOTS = (s mod NW_DUP_SLOTS + (k + (NW_DUP_SLOTS - s mod NW_DUP_SLOTS)))
      mod NW_DUP_SLOTS"
    by (simp add: mod_add_left_eq mod_add_right_eq)
  also have "\<dots> = (k + NW_DUP_SLOTS) mod NW_DUP_SLOTS" using le by simp
  finally have "(s + ?q) mod NW_DUP_SLOTS = k" using assms(2) by simp
  then show ?thesis using assms(1) [rule_format, of ?q] assms(2) by (simp add: slot_at_def)
qed

text \<open>Storing into the first empty slot of the probe sequence keeps the invariant.\<close>

lemma tab_inv_insert:
  assumes inv: "tab_inv f us T t" and i: "i < length us" "i \<notin> T"
    and p: "p < NW_DUP_SLOTS" and k: "k = (home (cstr (f (us ! i))) + p) mod NW_DUP_SLOTS"
    and empty: "t ! k < 0" and before: "\<forall>q<p. 0 \<le> slot_at t (home (cstr (f (us ! i)))) q"
  shows "tab_inv f us (insert i T) (t[k := int i])"
proof -
  have kl: "k < NW_DUP_SLOTS" using k by (simp add: NW_DUP_SLOTS_def)
  have len: "length t = NW_DUP_SLOTS" using inv by (simp add: tab_inv_def)
  have keep: "0 \<le> slot_at t s q \<Longrightarrow> slot_at (t[k := int i]) s q = slot_at t s q" for s q
    using empty by (cases "(s + q) mod NW_DUP_SLOTS = k") (auto simp: slot_at_def)
  have grow: "0 \<le> slot_at t s q \<Longrightarrow> 0 \<le> slot_at (t[k := int i]) s q" for s q
    using keep by simp
  have found: "\<exists>p<NW_DUP_SLOTS. slot_at (t[k := int i]) (home (cstr (f (us ! j)))) p = int j
      \<and> (\<forall>q<p. 0 \<le> slot_at (t[k := int i]) (home (cstr (f (us ! j)))) q)" if "j \<in> insert i T" for j
  proof (cases "j = i")
    case True
    have "slot_at (t[k := int i]) (home (cstr (f (us ! i)))) p = int i"
      using kl len by (simp add: slot_at_def k)
    with p before grow True show ?thesis by blast
  next
    case False
    then obtain p' where "p' < NW_DUP_SLOTS" "slot_at t (home (cstr (f (us ! j)))) p' = int j"
      "\<forall>q<p'. 0 \<le> slot_at t (home (cstr (f (us ! j)))) q"
      using inv \<open>j \<in> insert i T\<close> by (auto simp: tab_inv_def)
    then show ?thesis using keep grow by (metis of_nat_0_le_iff)
  qed
  have "{q. q < NW_DUP_SLOTS \<and> 0 \<le> t[k := int i] ! q} = insert k {q. q < NW_DUP_SLOTS \<and> 0 \<le> t ! q}"
    using kl len by (auto simp: nth_list_update)
  then have "card {q. q < NW_DUP_SLOTS \<and> 0 \<le> t[k := int i] ! q}
      \<le> Suc (card {q. q < NW_DUP_SLOTS \<and> 0 \<le> t ! q})"
    by (simp add: card_insert_le_m1 card_insert_if)
  then have card: "card {q. q < NW_DUP_SLOTS \<and> 0 \<le> t[k := int i] ! q} \<le> card (insert i T)"
    using inv i by (simp add: tab_inv_def)
  have "nat (t[k := int i] ! q) \<in> insert i T" if "q < NW_DUP_SLOTS" "0 \<le> t[k := int i] ! q" for q
    using inv len that by (cases "q = k") (auto simp: tab_inv_def)
  then have "\<forall>q<NW_DUP_SLOTS. 0 \<le> t[k := int i] ! q \<longrightarrow> nat (t[k := int i] ! q) \<in> insert i T"
    by blast
  then show ?thesis
    using inv i found card len by (simp add: tab_inv_def)
qed

text \<open>
  The probe from \<open>p\<close> on, when nothing before \<open>p\<close> was empty or equal: it answers whether some
  inserted unit has the name, and inserts this one if none has.
\<close>

lemma probe_loop_spec:
  assumes wf: "\<forall>j<length us. length (f (us ! j)) = NW_NAME_LEN"
    and inv: "tab_inv f us T t" and i: "i < length us" "i \<notin> T" and room: "card T < NW_DUP_SLOTS"
  shows "p \<le> NW_DUP_SLOTS \<Longrightarrow>
    \<forall>q<p. 0 \<le> slot_at t (home (cstr (f (us ! i)))) q
        \<and> cstr (f (us ! nat (slot_at t (home (cstr (f (us ! i)))) q))) \<noteq> cstr (f (us ! i)) \<Longrightarrow>
    \<exists>t'. probe_loop f us i (f (us ! i)) t (home (cstr (f (us ! i)))) p
           = Some (\<exists>j\<in>T. cstr (f (us ! j)) = cstr (f (us ! i)), t')
         \<and> ((\<exists>j\<in>T. cstr (f (us ! j)) = cstr (f (us ! i))) \<or> tab_inv f us (insert i T) t')"
proof (induction "NW_DUP_SLOTS - p" arbitrary: p)
  case 0
  then have "\<forall>q<NW_DUP_SLOTS. 0 \<le> slot_at t (home (cstr (f (us ! i)))) q" by simp
  then have "{k. k < NW_DUP_SLOTS \<and> 0 \<le> t ! k} = {..<NW_DUP_SLOTS}" using slot_cover by auto
  then show ?case using inv room by (simp add: tab_inv_def)
next
  case (Suc x)
  let ?s = "home (cstr (f (us ! i)))" and ?me = "cstr (f (us ! i))"
  let ?k = "(?s + p) mod NW_DUP_SLOTS"
  have pl: "p < NW_DUP_SLOTS" using Suc.hyps(2) by simp
  have kl: "?k < NW_DUP_SLOTS" by (simp add: NW_DUP_SLOTS_def)
  have rk: "idx t ?k = Some (slot_at t ?s p)" using inv kl by (simp add: tab_inv_def idx_in slot_at_def)
  show ?case
  proof (cases "slot_at t ?s p < 0")
    case True
    have none: "cstr (f (us ! j)) \<noteq> ?me" if j: "j \<in> T" for j
    proof
      assume eq: "cstr (f (us ! j)) = ?me"
      then obtain p' where p': "slot_at t ?s p' = int j" "\<forall>q<p'. 0 \<le> slot_at t ?s q"
        using inv j unfolding tab_inv_def by metis
      with True have "p' < p" by (metis linorder_neqE_nat not_less of_nat_0_le_iff)
      with Suc.prems(2) p'(1) eq show False by (metis nat_int)
    qed
    have "tab_inv f us (insert i T) (t[?k := int i])"
      using tab_inv_insert [OF inv i pl refl] True Suc.prems(2) by (auto simp: slot_at_def)
    then show ?thesis
      using none pl rk True by (subst probe_loop.simps) (auto simp: and_slots and_slots [unfolded One_nat_def] Let_def)
  next
    case False
    let ?j = "nat (slot_at t ?s p)"
    have j: "?j \<in> T" "?j < length us"
      using inv False kl by (auto simp: tab_inv_def slot_at_def)
    have cmp: "same_name (f (us ! ?j)) (f (us ! i)) 0 = Some (cstr (f (us ! ?j)) = ?me)"
      using same_name_spec [of "f (us ! ?j)" "f (us ! i)" 0] wf j(2) i(1) by simp
    show ?thesis
    proof (cases "cstr (f (us ! ?j)) = ?me")
      case True
      then show ?thesis
        using j pl rk False cmp by (subst probe_loop.simps) (auto simp: and_slots and_slots [unfolded One_nat_def] Let_def idx_in)
    next
      case differs: False
      have "\<forall>q<Suc p. 0 \<le> slot_at t ?s q \<and> cstr (f (us ! nat (slot_at t ?s q))) \<noteq> ?me"
        using Suc.prems(2) False differs by (auto simp: less_Suc_eq)
      then have "\<exists>t'. probe_loop f us i (f (us ! i)) t ?s (Suc p)
           = Some (\<exists>j\<in>T. cstr (f (us ! j)) = ?me, t')
         \<and> ((\<exists>j\<in>T. cstr (f (us ! j)) = ?me) \<or> tab_inv f us (insert i T) t')"
        using Suc.hyps pl by (intro Suc.hyps(1)) auto
      moreover have "probe_loop f us i (f (us ! i)) t ?s p
          = probe_loop f us i (f (us ! i)) t ?s (Suc p)"
        using j pl rk False cmp differs
        by (subst probe_loop.simps) (simp add: and_slots and_slots [unfolded One_nat_def] Let_def idx_in)
      ultimately show ?thesis by simp
    qed
  qed
qed

lemma field_dup_spec [nw_spec]:
  assumes "\<forall>j<length us. length (f (us ! j)) = NW_NAME_LEN" and "tab_inv f us T t"
    and "i < length us" "i \<notin> T" and "card T < NW_DUP_SLOTS"
  shows "\<exists>t'. field_dup f t us i = Some (\<exists>j\<in>T. cstr (f (us ! j)) = cstr (f (us ! i)), t')
     \<and> ((\<exists>j\<in>T. cstr (f (us ! j)) = cstr (f (us ! i))) \<or> tab_inv f us (insert i T) t')"
  using probe_loop_spec [OF assms, of 0] assms(1,3)
  by (simp add: field_dup_def idx_in hash_name_spec home_def)

end
