(* ===== verification/NwCheck.thy ===== *)
theory NwCheck
  imports DupTab
begin

text \<open>
  The plan validator \<open>nw_check\<close> of \<^verbatim>\<open>nwcheck.c\<close>: header, size and CRC checks, the unit loop with
  its two duplicate tables, the bind loop and the edge loop, each in the order of the source.
  \<open>None\<close> is a read out of range; the theorems show there is none. Acceptance is proved equivalent
  to the declarative \<open>sealed_wf\<close>: what a plan that runs is promised to be.
\<close>

subsection \<open>Early returns\<close>

definition require :: "bool option \<Rightarrow> nw_err \<Rightarrow> nw_err option \<Rightarrow> nw_err option" where
  "require c e k = (case c of None \<Rightarrow> None | Some ok \<Rightarrow> if ok then k else Some e)"

definition refuse_if :: "bool \<Rightarrow> nw_err \<Rightarrow> nw_err option \<Rightarrow> nw_err option" where
  "refuse_if bad e k = (if bad then Some e else k)"

text \<open>A check answers, and answers \<open>NW_OK\<close> exactly when \<open>P\<close> holds.\<close>

definition decides :: "nw_err option \<Rightarrow> bool \<Rightarrow> bool" where
  "decides r P \<longleftrightarrow> (\<exists>e. r = Some e \<and> (e = NW_OK \<longleftrightarrow> P))"

lemma decides_ok: "decides (Some NW_OK) True"
  by (simp add: decides_def)

lemma decides_require:
  "c = Some p \<Longrightarrow> e \<noteq> NW_OK \<Longrightarrow> (p \<Longrightarrow> decides k P) \<Longrightarrow> decides (require c e k) (p \<and> P)"
  by (auto simp: decides_def require_def)

lemma decides_refuse_if:
  "e \<noteq> NW_OK \<Longrightarrow> (\<not> bad \<Longrightarrow> decides k P) \<Longrightarrow> decides (refuse_if bad e k) (\<not> bad \<and> P)"
  by (auto simp: decides_def refuse_if_def)

lemma decides_cong: "decides r P \<Longrightarrow> P = Q \<Longrightarrow> decides r Q"
  by simp

subsection \<open>One unit\<close>

definition has_lid :: "u8 \<Rightarrow> u8 \<Rightarrow> bool" where
  "has_lid lids l \<longleftrightarrow> lids AND l \<noteq> 0"

definition check_res :: "nw_res \<Rightarrow> bool \<Rightarrow> nw_err option \<Rightarrow> nw_err option" where
  "check_res r has_layer k =
     refuse_if (NW_CPU_WEIGHT_MAX < r_cpu_weight r) NW_E_RESWEIGHT (
     refuse_if (NW_SCHED_MAX < r_sched_policy r) NW_E_RESSCHED (
     refuse_if (sint (r_nice r) < NW_NICE_MIN \<or> NW_NICE_MAX < sint (r_nice r)) NW_E_RESNICE (
     refuse_if (sint (r_oom_score_adj r) < NW_OOM_ADJ_MIN
                \<or> NW_OOM_ADJ_MAX < sint (r_oom_score_adj r)) NW_E_OOMRANGE (
     refuse_if (r_mem_high r \<noteq> 0 \<and> r_mem_max r \<noteq> 0 \<and> r_mem_max r \<le> r_mem_high r)
       NW_E_MEMORDER (
     refuse_if (r_nice r \<noteq> 0 \<and> r_sched_policy r \<noteq> NW_SCHED_OTHER) NW_E_NICEPOL (
     refuse_if (r_layer_bytes r \<noteq> 0 \<and> \<not> has_layer) NW_E_CAPNOLAYER k))))))"

definition check_closed :: "nw_unit \<Rightarrow> nw_err option" where
  "check_closed u =
     refuse_if (NW_LOCK_MAX < u_lock u) NW_E_LOCK (
     refuse_if (NW_STOPSIG_MAX < u_stop_signal u) NW_E_STOPSIG (
     refuse_if (NW_GRACE_MAX_MS < u_grace_period u) NW_E_GRACERANGE (
     refuse_if (u_supervisor_death_policy u \<noteq> 0) NW_E_SUPDEATH (
     refuse_if (u_lids u AND NOT (NW_LID_SECCOMP OR NW_LID_LANDLOCK OR NW_LID_NEWNS
                                  OR NW_LID_NEWNET) \<noteq> 0) NW_E_LIDS (
     Some NW_OK)))))"

definition check_unit :: "nw_unit \<Rightarrow> nw_err option" where
  "check_unit u =
     require (name_ok (u_name u) NW_NAME_LEN) NW_E_NAME (
     require (path_ok (u_exec_path u)) NW_E_PATH (
     refuse_if (u_kind u \<noteq> NW_KIND_ONESHOT \<and> u_kind u \<noteq> NW_KIND_LONGRUN) NW_E_KIND (
     let has_brick = nw_unit_has_brick u in
     refuse_if (has_lid (u_lids u) NW_LID_LANDLOCK \<and> \<not> has_brick) NW_E_LLBRICK (
     refuse_if (has_brick \<and> \<not> has_lid (u_lids u) NW_LID_NEWNS) NW_E_BRICKNS (
     case idx (u_layer u) 0 of None \<Rightarrow> None | Some l0 \<Rightarrow>
     let has_layer = (l0 \<noteq> NUL) in
     require (if has_layer then name_ok (u_layer u) NW_NAME_LEN else Some True) NW_E_LAYER (
     require (if \<not> has_layer then zero_tail (u_layer u) NW_NAME_LEN 0 else Some True) NW_E_LAYER (
     refuse_if (has_layer \<noteq> has_brick) NW_E_LAYERPAIR (
     check_res (u_res u) has_layer (
     check_closed u)))))))))"

text \<open>What a unit that passes is.\<close>

definition has_layer :: "nw_unit \<Rightarrow> bool" where
  "has_layer u \<longleftrightarrow> cstr (u_layer u) \<noteq> []"

definition res_wf :: "nw_res \<Rightarrow> bool \<Rightarrow> bool" where
  "res_wf r layered \<longleftrightarrow> r_cpu_weight r \<le> NW_CPU_WEIGHT_MAX \<and> r_sched_policy r \<le> NW_SCHED_MAX
     \<and> NW_NICE_MIN \<le> sint (r_nice r) \<and> sint (r_nice r) \<le> NW_NICE_MAX
     \<and> NW_OOM_ADJ_MIN \<le> sint (r_oom_score_adj r) \<and> sint (r_oom_score_adj r) \<le> NW_OOM_ADJ_MAX
     \<and> (r_mem_high r = 0 \<or> r_mem_max r = 0 \<or> r_mem_high r < r_mem_max r)
     \<and> (r_nice r = 0 \<or> r_sched_policy r = NW_SCHED_OTHER)
     \<and> (r_layer_bytes r = 0 \<or> layered)"

definition closed_wf :: "nw_unit \<Rightarrow> bool" where
  "closed_wf u \<longleftrightarrow> u_lock u \<le> NW_LOCK_MAX \<and> u_stop_signal u \<le> NW_STOPSIG_MAX
     \<and> u_grace_period u \<le> NW_GRACE_MAX_MS \<and> u_supervisor_death_policy u = 0
     \<and> u_lids u AND NOT (NW_LID_SECCOMP OR NW_LID_LANDLOCK OR NW_LID_NEWNS OR NW_LID_NEWNET) = 0"

definition unit_wf :: "nw_unit \<Rightarrow> bool" where
  "unit_wf u \<longleftrightarrow> name_wf (u_name u) \<and> path_wf (u_exec_path u)
     \<and> (u_kind u = NW_KIND_ONESHOT \<or> u_kind u = NW_KIND_LONGRUN)
     \<and> (has_lid (u_lids u) NW_LID_LANDLOCK \<longrightarrow> nw_unit_has_brick u)
     \<and> (nw_unit_has_brick u \<longrightarrow> has_lid (u_lids u) NW_LID_NEWNS)
     \<and> (if has_layer u then name_wf (u_layer u) else \<forall>c\<in>set (u_layer u). c = NUL)
     \<and> has_layer u = nw_unit_has_brick u
     \<and> res_wf (u_res u) (has_layer u) \<and> closed_wf u"

lemma decides_closed: "decides (check_closed u) (closed_wf u)"
  by (auto simp: decides_def check_closed_def closed_wf_def refuse_if_def not_less)

lemma decides_res: "decides k P \<Longrightarrow> decides (check_res r hl k) (res_wf r hl \<and> P)"
  by (auto simp: decides_def check_res_def res_wf_def refuse_if_def not_less not_le)

lemma check_unit_spec:
  assumes "unit_extents u"
  shows "decides (check_unit u) (unit_wf u)"
proof -
  have n: "name_ok (u_name u) NW_NAME_LEN = Some (name_wf (u_name u))"
    and p: "path_ok (u_exec_path u) = Some (path_wf (u_exec_path u))"
    and l: "name_ok (u_layer u) NW_NAME_LEN = Some (name_wf (u_layer u))"
    and z: "zero_tail (u_layer u) NW_NAME_LEN 0 = Some (\<forall>c\<in>set (u_layer u). c = NUL)"
    using assms by (simp_all add: name_ok_spec path_ok_def path_ok_len_spec zero_tail_spec
        unit_extents_def nw_limits)
  obtain l0 where l0: "idx (u_layer u) 0 = Some l0" and hl: "has_layer u \<longleftrightarrow> l0 \<noteq> NUL"
    using assms by (cases "u_layer u") (auto simp: unit_extents_def idx_def has_layer_def cstr_def)
  have r: "decides (check_res (u_res u) (l0 \<noteq> NUL) (check_closed u))
      (res_wf (u_res u) (has_layer u) \<and> closed_wf u)"
    using decides_res [OF decides_closed] hl by simp
  have l1: "(if l0 \<noteq> NUL then name_ok (u_layer u) NW_NAME_LEN else Some True) =
      Some (l0 = NUL \<or> name_wf (u_layer u))"
    and z1: "(if \<not> l0 \<noteq> NUL then zero_tail (u_layer u) NW_NAME_LEN 0 else Some True) =
      Some (l0 \<noteq> NUL \<or> (\<forall>c\<in>set (u_layer u). c = NUL))"
    by (simp_all add: l z)
  show ?thesis
  proof (rule decides_cong)
    show "decides (check_unit u) (name_wf (u_name u) \<and> path_wf (u_exec_path u)
        \<and> \<not> (u_kind u \<noteq> NW_KIND_ONESHOT \<and> u_kind u \<noteq> NW_KIND_LONGRUN)
        \<and> \<not> (has_lid (u_lids u) NW_LID_LANDLOCK \<and> \<not> nw_unit_has_brick u)
        \<and> \<not> (nw_unit_has_brick u \<and> \<not> has_lid (u_lids u) NW_LID_NEWNS)
        \<and> (l0 = NUL \<or> name_wf (u_layer u)) \<and> (l0 \<noteq> NUL \<or> (\<forall>c\<in>set (u_layer u). c = NUL))
        \<and> \<not> ((l0 \<noteq> NUL) \<noteq> nw_unit_has_brick u)
        \<and> res_wf (u_res u) (has_layer u) \<and> closed_wf u)"
      unfolding check_unit_def Let_def l0 option.case
      by (intro decides_require [OF n] decides_require [OF p] decides_require [OF l1]
          decides_require [OF z1] decides_refuse_if r) simp_all
  qed (cases "l0 = NUL"; cases "nw_unit_has_brick u"; simp add: unit_wf_def hl; blast)
qed

subsection \<open>The unit, bind and edge loops\<close>

fun check_units ::
  "nw_unit list \<Rightarrow> nat \<Rightarrow> nw_unit list \<Rightarrow> nw_dup_tab \<Rightarrow> nw_dup_tab \<Rightarrow> nw_err option" where
  "check_units us i [] dup lay = Some NW_OK"
| "check_units us i (u # rest) dup lay =
     (case check_unit u of None \<Rightarrow> None | Some e \<Rightarrow>
      if e \<noteq> NW_OK then Some e
      else case field_dup u_name dup us i of None \<Rightarrow> None | Some (d, dup') \<Rightarrow>
      if d then Some NW_E_DUPNAME
      else case idx (u_layer u) 0 of None \<Rightarrow> None | Some l0 \<Rightarrow>
      if l0 = NUL then check_units us (Suc i) rest dup' lay
      else case field_dup u_layer lay us i of None \<Rightarrow> None | Some (d, lay') \<Rightarrow>
      if d then Some NW_E_LAYERDUP else check_units us (Suc i) rest dup' lay')"

fun check_binds :: "nw_unit list \<Rightarrow> nw_bind list \<Rightarrow> nw_err option" where
  "check_binds us [] = Some NW_OK"
| "check_binds us (b # rest) =
     refuse_if (length us \<le> unat (b_unit b)) NW_E_BINDIDX (
     require (path_ok (b_path b)) NW_E_BINDPATH (
     case idx us (unat (b_unit b)) of None \<Rightarrow> None | Some u \<Rightarrow>
     refuse_if (\<not> nw_unit_has_brick u) NW_E_BINDIDX (
     check_binds us rest)))"

definition same_ends :: "nw_edge \<Rightarrow> nw_edge \<Rightarrow> bool" where
  "same_ends x y \<longleftrightarrow> e_a x = e_a y \<and> e_b x = e_b y \<or> e_a x = e_b y \<and> e_b x = e_a y"

text \<open>\<open>seen\<close> are the edges before this one: the range of the inner loop.\<close>

fun check_edges :: "nw_unit list \<Rightarrow> nw_edge list \<Rightarrow> nw_edge list \<Rightarrow> nw_err option" where
  "check_edges us seen [] = Some NW_OK"
| "check_edges us seen (e # rest) =
     refuse_if (length us \<le> unat (e_a e) \<or> length us \<le> unat (e_b e) \<or> e_a e = e_b e)
       NW_E_EDGEIDX (
     case idx us (unat (e_a e)) of None \<Rightarrow> None | Some ua \<Rightarrow>
     case idx us (unat (e_b e)) of None \<Rightarrow> None | Some ub \<Rightarrow>
     refuse_if (u_lock ua = NW_LOCK_UNLOCKED \<or> u_lock ub = NW_LOCK_UNLOCKED) NW_E_LOCKEDGE (
     refuse_if (list_ex (same_ends e) seen) NW_E_EDGEDUP (
     check_edges us (seen @ [e]) rest)))"

subsection \<open>nw_check\<close>

definition crc_of :: "bytes \<Rightarrow> u32" where
  "crc_of blob = nw_crc32_split (take 20 blob @ replicate 4 NUL) (drop sizeof_hdr blob)"

definition nw_check :: "bytes \<Rightarrow> u32 \<Rightarrow> nw_err option" where
  "nw_check blob len =
     (if len < of_nat sizeof_hdr then Some NW_E_SIZE
      else let h = nw_hdr blob in
        refuse_if (h_magic h \<noteq> NW_MAGIC) NW_E_MAGIC (
        refuse_if (h_n_units h < 1 \<or> of_nat NW_MAX_UNITS < h_n_units h) NW_E_UNITS (
        refuse_if (of_nat NW_MAX_BINDS < h_n_binds h) NW_E_BINDS (
        refuse_if (of_nat NW_MAX_EDGES < h_n_edges h) NW_E_EDGES (
        let need = ucast (NW_BLOB_SIZE (ucast (h_n_units h)) (ucast (h_n_binds h))
                     (ucast (h_n_edges h))) :: u32 in
        refuse_if (len \<noteq> need) NW_E_SIZE (
        refuse_if (crc_of blob \<noteq> h_crc32 h) NW_E_CRC (
        let us = nw_units blob in
        case check_units us 0 us name_dup_init name_dup_init of None \<Rightarrow> None | Some e \<Rightarrow>
        if e \<noteq> NW_OK then Some e
        else case check_binds us (nw_binds blob) of None \<Rightarrow> None | Some e \<Rightarrow>
        if e \<noteq> NW_OK then Some e
        else check_edges us [] (nw_edges blob))))))))"

subsection \<open>What the loops decide\<close>

definition fresh_at :: "nw_unit list \<Rightarrow> nat \<Rightarrow> bool" where
  "fresh_at us j \<longleftrightarrow> (\<forall>k<j. cstr (u_name (us ! k)) \<noteq> cstr (u_name (us ! j)))
     \<and> (has_layer (us ! j) \<longrightarrow>
          (\<forall>k<j. has_layer (us ! k) \<longrightarrow> cstr (u_layer (us ! k)) \<noteq> cstr (u_layer (us ! j))))"

definition layered :: "nw_unit list \<Rightarrow> nat \<Rightarrow> nat set" where
  "layered us i = {j. j < i \<and> has_layer (us ! j)}"

lemma layered_Suc: "layered us (Suc i) = (if has_layer (us ! i) then insert i (layered us i)
    else layered us i)"
  by (auto simp: layered_def less_Suc_eq)

lemma card_layered: "card (layered us i) \<le> i"
proof -
  have "layered us i \<subseteq> {..<i}" by (auto simp: layered_def)
  then show ?thesis using card_mono [of "{..<i}" "layered us i"] by simp
qed

lemma check_units_spec:
  assumes ext: "\<forall>j<length us. unit_extents (us ! j)" and small: "length us \<le> NW_MAX_UNITS"
  shows "rest = drop i us \<Longrightarrow> tab_inv u_name us {..<i} dup \<Longrightarrow>
    tab_inv u_layer us (layered us i) lay \<Longrightarrow>
    decides (check_units us i rest dup lay)
      (\<forall>j. i \<le> j \<and> j < length us \<longrightarrow> unit_wf (us ! j) \<and> fresh_at us j)"
proof (induction rest arbitrary: i dup lay)
  case Nil
  then show ?case by (auto simp: decides_def)
next
  case (Cons u rest)
  let ?P = "\<lambda>i. \<forall>j. i \<le> j \<and> j < length us \<longrightarrow> unit_wf (us ! j) \<and> fresh_at us j"
  have i: "i < length us" using Cons.prems(1) by (metis drop_eq_Nil2 leI list.distinct(1))
  have u: "u = us ! i" and rest: "rest = drop (Suc i) us"
    using Cons.prems(1) i by (simp_all add: Cons_nth_drop_Suc [symmetric])
  have split: "?P i \<longleftrightarrow> (unit_wf u \<and> fresh_at us i) \<and> ?P (Suc i)"
    unfolding u using i by (rule all_from_Suc)
  have room: "card {..<i} < NW_DUP_SLOTS" "card (layered us i) < NW_DUP_SLOTS"
    using i small card_layered [of us i] by (simp_all add: nw_limits)
  have wid: "\<forall>j<length us. length (u_name (us ! j)) = NW_NAME_LEN"
    "\<forall>j<length us. length (u_layer (us ! j)) = NW_NAME_LEN"
    using ext by (simp_all add: unit_extents_def nw_limits)
  obtain e where e: "check_unit u = Some e" "e = NW_OK \<longleftrightarrow> unit_wf u"
    using check_unit_spec ext i u by (auto simp: decides_def)
  obtain dup' where d: "field_dup u_name dup us i
        = Some (\<exists>j\<in>{..<i}. cstr (u_name (us ! j)) = cstr (u_name u), dup')"
    "(\<exists>j\<in>{..<i}. cstr (u_name (us ! j)) = cstr (u_name u)) \<or> tab_inv u_name us {..<Suc i} dup'"
    using field_dup_spec [OF wid(1) Cons.prems(2) i _ room(1)] u by (auto simp: lessThan_Suc)
  obtain lay' where l: "field_dup u_layer lay us i
        = Some (\<exists>j\<in>layered us i. cstr (u_layer (us ! j)) = cstr (u_layer u), lay')"
    "(\<exists>j\<in>layered us i. cstr (u_layer (us ! j)) = cstr (u_layer u))
      \<or> tab_inv u_layer us (insert i (layered us i)) lay'"
    using field_dup_spec [OF wid(2) Cons.prems(3) i _ room(2)] u by (auto simp: layered_def)
  obtain l0 where l0: "idx (u_layer u) 0 = Some l0" "has_layer u \<longleftrightarrow> l0 \<noteq> NUL"
    using ext i u by (cases "u_layer u") (auto simp: unit_extents_def idx_def has_layer_def cstr_def)
  have fresh: "fresh_at us i \<longleftrightarrow> \<not> (\<exists>j\<in>{..<i}. cstr (u_name (us ! j)) = cstr (u_name u))
      \<and> \<not> (l0 \<noteq> NUL \<and> (\<exists>j\<in>layered us i. cstr (u_layer (us ! j)) = cstr (u_layer u)))"
    using l0(2) u by (auto simp: fresh_at_def layered_def)
  show ?case
  proof (cases "unit_wf u \<and> fresh_at us i")
    case False
    then show ?thesis unfolding split using e d(1) l(1) l0(1) fresh by (auto simp: decides_def)
  next
    case True
    then have nd: "\<not> (\<exists>j\<in>{..<i}. cstr (u_name (us ! j)) = cstr (u_name u))" using fresh by blast
    then have t1: "tab_inv u_name us {..<Suc i} dup'" using d(2) by blast
    show ?thesis
    proof (cases "l0 = NUL")
      case l00: True
      then have "decides (check_units us (Suc i) rest dup' lay) (?P (Suc i))"
        using Cons.prems(3) l0(2) u t1 rest by (intro Cons.IH) (simp_all add: layered_Suc)
      then show ?thesis unfolding split using True e d(1) nd l0(1) l00 by (simp add: decides_def)
    next
      case l01: False
      then have nl: "\<not> (\<exists>j\<in>layered us i. cstr (u_layer (us ! j)) = cstr (u_layer u))"
        using True fresh by blast
      then have "decides (check_units us (Suc i) rest dup' lay') (?P (Suc i))"
        using l(2) l0(2) l01 u t1 rest by (intro Cons.IH) (simp_all add: layered_Suc)
      then show ?thesis
        unfolding split using True e d(1) nd l(1) nl l0(1) l01 by (simp add: decides_def)
    qed
  qed
qed

definition bind_wf :: "nw_unit list \<Rightarrow> nw_bind \<Rightarrow> bool" where
  "bind_wf us b \<longleftrightarrow> unat (b_unit b) < length us \<and> path_wf (b_path b)
     \<and> nw_unit_has_brick (us ! unat (b_unit b))"

lemma check_binds_spec:
  "\<forall>b\<in>set bs. bind_extents b \<Longrightarrow> decides (check_binds us bs) (\<forall>b\<in>set bs. bind_wf us b)"
proof (induction bs)
  case Nil
  then show ?case by (simp add: decides_def)
next
  case (Cons b bs)
  have p: "path_ok (b_path b) = Some (path_wf (b_path b))"
    using Cons.prems by (simp add: path_ok_def path_ok_len_spec bind_extents_def nw_limits)
  have "decides (check_binds us bs) (\<forall>b\<in>set bs. bind_wf us b)" using Cons by simp
  then show ?case
    by (cases "unat (b_unit b) < length us")
      (auto simp: decides_def refuse_if_def require_def p idx_def bind_wf_def)
qed

definition edge_wf :: "nw_unit list \<Rightarrow> nw_edge \<Rightarrow> bool" where
  "edge_wf us e \<longleftrightarrow> unat (e_a e) < length us \<and> unat (e_b e) < length us \<and> e_a e \<noteq> e_b e
     \<and> u_lock (us ! unat (e_a e)) \<noteq> NW_LOCK_UNLOCKED
     \<and> u_lock (us ! unat (e_b e)) \<noteq> NW_LOCK_UNLOCKED"

text \<open>The unordered pair an edge joins.\<close>

definition ends :: "nw_edge \<Rightarrow> u16 set" where
  "ends e = {e_a e, e_b e}"

lemma same_ends_iff: "same_ends x y \<longleftrightarrow> ends x = ends y"
  by (auto simp: same_ends_def ends_def doubleton_eq_iff)

lemma check_edges_spec:
  "distinct (map ends seen) \<Longrightarrow>
   decides (check_edges us seen es)
     ((\<forall>e\<in>set es. edge_wf us e) \<and> distinct (map ends (seen @ es)))"
proof (induction es arbitrary: seen)
  case Nil
  then show ?case by (simp add: decides_def)
next
  case (Cons e es)
  let ?Q = "(\<forall>x\<in>set (e # es). edge_wf us x) \<and> distinct (map ends (seen @ e # es))"
  have dup: "list_ex (same_ends e) seen \<longleftrightarrow> ends e \<in> set (map ends seen)"
    by (auto simp: list_ex_iff same_ends_iff)
  show ?case
  proof (cases "edge_wf us e \<and> ends e \<notin> set (map ends seen)")
    case True
    then have "decides (check_edges us (seen @ [e]) es)
        ((\<forall>x\<in>set es. edge_wf us x) \<and> distinct (map ends ((seen @ [e]) @ es)))"
      using Cons.prems by (intro Cons.IH) simp
    moreover have "check_edges us seen (e # es) = check_edges us (seen @ [e]) es"
      using True dup by (auto simp: edge_wf_def refuse_if_def idx_def)
    ultimately show ?thesis using True by simp
  next
    case False
    then have "\<not> ?Q" by auto
    moreover have "\<exists>x. check_edges us seen (e # es) = Some x \<and> x \<noteq> NW_OK"
      using False dup by (auto simp: edge_wf_def refuse_if_def idx_def)
    ultimately show ?thesis by (auto simp: decides_def)
  qed
qed

subsection \<open>What an accepted blob is\<close>

definition plan_wf :: "nw_unit list \<Rightarrow> nw_bind list \<Rightarrow> nw_edge list \<Rightarrow> bool" where
  "plan_wf us bs es \<longleftrightarrow> (\<forall>u\<in>set us. unit_wf u)
     \<and> distinct (map (\<lambda>u. cstr (u_name u)) us)
     \<and> distinct (map (\<lambda>u. cstr (u_layer u)) (filter has_layer us))
     \<and> (\<forall>b\<in>set bs. bind_wf us b) \<and> (\<forall>e\<in>set es. edge_wf us e) \<and> distinct (map ends es)"

definition header_wf :: "bytes \<Rightarrow> bool" where
  "header_wf blob \<longleftrightarrow> (let h = nw_hdr blob in sizeof_hdr \<le> length blob \<and> h_magic h = NW_MAGIC
     \<and> 1 \<le> unat (h_n_units h) \<and> unat (h_n_units h) \<le> NW_MAX_UNITS
     \<and> unat (h_n_binds h) \<le> NW_MAX_BINDS \<and> unat (h_n_edges h) \<le> NW_MAX_EDGES
     \<and> length blob = sizeof_hdr + unat (h_n_units h) * NW_UNIT_SIZE
         + unat (h_n_binds h) * sizeof_bind + unat (h_n_edges h) * sizeof_edge
     \<and> crc_of blob = h_crc32 h)"

definition sealed_wf :: "bytes \<Rightarrow> bool" where
  "sealed_wf blob \<longleftrightarrow> header_wf blob \<and> plan_wf (nw_units blob) (nw_binds blob) (nw_edges blob)"

lemma all_fresh_iff:
  "(\<forall>j<length us. fresh_at us j) \<longleftrightarrow> distinct (map (\<lambda>u. cstr (u_name u)) us)
     \<and> distinct (map (\<lambda>u. cstr (u_layer u)) (filter has_layer us))"
  unfolding distinct_map_conv [of "\<lambda>u. cstr (u_name u)" us] distinct_map_filter_conv fresh_at_def
  by blast

lemma blob_size_nat:
  assumes "nu \<le> 64" "nb \<le> 128" "ne \<le> 128"
  shows "(ucast (NW_BLOB_SIZE (of_nat nu) (of_nat nb) (of_nat ne)) :: u32) =
     of_nat (sizeof_hdr + nu * NW_UNIT_SIZE + nb * sizeof_bind + ne * sizeof_edge)"
proof -
  let ?n = "sizeof_hdr + nu * NW_UNIT_SIZE + nb * sizeof_bind + ne * sizeof_edge"
  have "NW_BLOB_SIZE (of_nat nu) (of_nat nb) (of_nat ne) = of_nat ?n"
    by (simp add: NW_BLOB_SIZE_def)
  moreover have "?n < 2 ^ 64" using assms by (simp add: struct_sizes)
  ultimately show ?thesis
    by (simp only: unsigned_of_nat len_num0 len_num1 len_bit0) (simp add: take_bit_nat_eq_self)
qed

lemma size_check:
  assumes "unat nu \<le> 64" "unat nb \<le> 128" "unat ne \<le> 128"
  shows "(len :: u32) = ucast (NW_BLOB_SIZE (ucast (nu :: u32)) (ucast (nb :: u32)) (ucast (ne :: u32)))
    \<longleftrightarrow> unat len = sizeof_hdr + unat nu * NW_UNIT_SIZE + unat nb * sizeof_bind
          + unat ne * sizeof_edge"
proof -
  let ?n = "sizeof_hdr + unat nu * NW_UNIT_SIZE + unat nb * sizeof_bind + unat ne * sizeof_edge"
  have u: "(ucast w :: u64) = of_nat (unat w)" for w :: u32
    by (simp add: unsigned_word_eqI)
  have "?n < 2 ^ 32" using assms by (simp add: struct_sizes)
  then have n: "unat (of_nat ?n :: u32) = ?n" by (simp only: unat_of_nat) simp
  show ?thesis unfolding u blob_size_nat [OF assms] by (metis n unsigned_word_eqI)
qed

lemma unit_table_extents:
  assumes "sizeof_hdr + unat (h_n_units (nw_hdr blob)) * NW_UNIT_SIZE \<le> length blob"
  shows "\<forall>j<length (nw_units blob). unit_extents (nw_units blob ! j)"
proof (intro allI impI)
  fix j assume "j < length (nw_units blob)"
  then have j: "j < unat (h_n_units (nw_hdr blob))" by simp
  then have "Suc j * NW_UNIT_SIZE \<le> unat (h_n_units (nw_hdr blob)) * NW_UNIT_SIZE"
    by (intro mult_right_mono) auto
  then have "sizeof_hdr + j * NW_UNIT_SIZE + NW_UNIT_SIZE \<le> length blob" using assms by simp
  then show "unit_extents (nw_units blob ! j)"
    using j by (simp add: nw_units_def unit_extents_get struct_sizes)
qed

lemma bind_table_extents:
  assumes "sizeof_hdr + unat (h_n_units (nw_hdr blob)) * NW_UNIT_SIZE
      + unat (h_n_binds (nw_hdr blob)) * sizeof_bind \<le> length blob"
  shows "\<forall>b\<in>set (nw_binds blob). bind_extents b"
proof
  fix b assume "b \<in> set (nw_binds blob)"
  then obtain i where i: "i < unat (h_n_binds (nw_hdr blob))" and b: "b = get_bind (sub (sizeof_hdr
      + unat (h_n_units (nw_hdr blob)) * NW_UNIT_SIZE + i * sizeof_bind) sizeof_bind blob)"
    by (auto simp: nw_binds_def Let_def)
  from i have "Suc i * sizeof_bind \<le> unat (h_n_binds (nw_hdr blob)) * sizeof_bind"
    by (intro mult_right_mono) auto
  then have "sizeof_hdr + unat (h_n_units (nw_hdr blob)) * NW_UNIT_SIZE + i * sizeof_bind
      + sizeof_bind \<le> length blob" using assms by simp
  then show "bind_extents b" by (simp add: b bind_extents_get struct_sizes)
qed

text \<open>The body of the check, once the header has passed.\<close>

lemma decides_tables:
  assumes "header_wf blob"
  shows "decides
     (case check_units (nw_units blob) 0 (nw_units blob) name_dup_init name_dup_init of
        None \<Rightarrow> None | Some e \<Rightarrow> if e \<noteq> NW_OK then Some e
        else case check_binds (nw_units blob) (nw_binds blob) of None \<Rightarrow> None | Some e \<Rightarrow>
          if e \<noteq> NW_OK then Some e else check_edges (nw_units blob) [] (nw_edges blob))
     (plan_wf (nw_units blob) (nw_binds blob) (nw_edges blob))"
proof -
  let ?us = "nw_units blob"
  have ue: "\<forall>j<length ?us. unit_extents (?us ! j)"
    and be: "\<forall>b\<in>set (nw_binds blob). bind_extents b" and small: "length ?us \<le> NW_MAX_UNITS"
    using assms by (auto simp: header_wf_def Let_def
        intro!: unit_table_extents [rule_format] bind_table_extents [rule_format])
  have none: "layered ?us 0 = {}" by (simp add: layered_def)
  have u: "decides (check_units ?us 0 ?us name_dup_init name_dup_init)
      (\<forall>j<length ?us. unit_wf (?us ! j) \<and> fresh_at ?us j)"
    using check_units_spec [OF ue small, of ?us 0 name_dup_init name_dup_init]
    by (simp add: tab_inv_init none)
  have all: "(\<forall>j<length ?us. unit_wf (?us ! j) \<and> fresh_at ?us j) \<longleftrightarrow> (\<forall>u\<in>set ?us. unit_wf u)
      \<and> (\<forall>j<length ?us. fresh_at ?us j)"
    by (auto simp: all_set_conv_all_nth)
  show ?thesis
    using u [unfolded all all_fresh_iff] check_binds_spec [OF be, of ?us]
      check_edges_spec [of "[]" ?us "nw_edges blob"]
    unfolding decides_def plan_wf_def by fastforce
qed

lemma nw_check_decides:
  assumes "length blob = unat len"
  shows "decides (nw_check blob len) (sealed_wf blob)"
proof -
  let ?h = "nw_hdr blob"
  have lt: "len < of_nat sizeof_hdr \<longleftrightarrow> length blob < sizeof_hdr"
    by (simp add: word_less_nat_alt assms sizeof_hdr_def)
  have cnt: "of_nat NW_MAX_UNITS < h_n_units ?h \<longleftrightarrow> \<not> unat (h_n_units ?h) \<le> 64"
    "of_nat NW_MAX_BINDS < h_n_binds ?h \<longleftrightarrow> \<not> unat (h_n_binds ?h) \<le> 128"
    "of_nat NW_MAX_EDGES < h_n_edges ?h \<longleftrightarrow> \<not> unat (h_n_edges ?h) \<le> 128"
    "h_n_units ?h < 1 \<longleftrightarrow> \<not> 1 \<le> unat (h_n_units ?h)"
    by (simp_all add: word_less_nat_alt nw_limits not_le)
  show ?thesis
  proof (cases "header_wf blob")
    case True
    then have "nw_check blob len =
      (case check_units (nw_units blob) 0 (nw_units blob) name_dup_init name_dup_init of
        None \<Rightarrow> None | Some e \<Rightarrow> if e \<noteq> NW_OK then Some e
        else case check_binds (nw_units blob) (nw_binds blob) of None \<Rightarrow> None | Some e \<Rightarrow>
          if e \<noteq> NW_OK then Some e else check_edges (nw_units blob) [] (nw_edges blob))"
      unfolding nw_check_def Let_def lt cnt
      using assms by (simp add: refuse_if_def header_wf_def Let_def size_check nw_limits)
    then show ?thesis using decides_tables [OF True] True by (simp add: sealed_wf_def)
  next
    case False
    then have "\<exists>e. nw_check blob len = Some e \<and> e \<noteq> NW_OK"
      unfolding nw_check_def Let_def lt cnt
      using assms by (auto simp: refuse_if_def header_wf_def Let_def size_check nw_limits not_less)
    then show ?thesis using False by (auto simp: decides_def sealed_wf_def)
  qed
qed

end
