(* ===== verification/Handoff.thy ===== *)
theory Handoff
  imports CText NwCheck
begin

text \<open>
  The environment between \<^verbatim>\<open>nw-spawn\<close> and \<^verbatim>\<open>nw-sup\<close>: \<^verbatim>\<open>nwspawn.c\<close> writes the unit it read from the
  sealed blob into variables, and the start of \<^verbatim>\<open>main\<close> in \<^verbatim>\<open>nwsup.c\<close> reads them back and validates them
  again, because nothing stands behind an environment. An environment is a map from names to
  values; a \<^verbatim>\<open>die\<close> is a left value that carries its message.
\<close>

type_synonym env = "bytes \<rightharpoonup> bytes"
type_synonym 'a res = "bytes + 'a"

definition die_if :: "bool \<Rightarrow> bytes \<Rightarrow> 'a res \<Rightarrow> 'a res" where
  "die_if c msg k = (if c then Inl msg else k)"

fun and_then :: "'a res \<Rightarrow> ('a \<Rightarrow> 'b res) \<Rightarrow> 'b res" where
  "and_then (Inl msg) f = Inl msg"
| "and_then (Inr x) f = f x"

lemma die_if_Inr: "die_if c msg k = Inr x \<longleftrightarrow> \<not> c \<and> k = Inr x"
  by (simp add: die_if_def)

lemma and_then_Inr: "and_then r f = Inr y \<longleftrightarrow> (\<exists>x. r = Inr x \<and> f x = Inr y)"
  by (cases r) auto

text \<open>A resource limit of the kernel.\<close>

record rlimit =
  rlim_cur :: u64
  rlim_max :: u64

definition RLIM_INFINITY :: u64 where "RLIM_INFINITY = - 1"

subsection \<open>nw-spawn writes the environment\<close>

definition setenv_all :: "(bytes \<times> bytes) list \<Rightarrow> env \<Rightarrow> env" where
  "setenv_all kvs env = fold (\<lambda>(k, v) m. m(k \<mapsto> v)) kvs env"

definition wire_key :: "nat \<Rightarrow> bytes" where
  "wire_key slot = snprintf 24 (''NW_WIRE_'' @ dec slot)"

definition bind_key :: "nat \<Rightarrow> bytes" where
  "bind_key i = snprintf 24 (''NW_BIND_'' @ dec i)"

definition wire_vars :: "bytes list \<Rightarrow> (bytes \<times> bytes) list" where
  "wire_vars peers = map (\<lambda>k. (wire_key (3 + k), peers ! k)) [0..<length peers]"

definition bind_vars :: "bytes list \<Rightarrow> (bytes \<times> bytes) list" where
  "bind_vars paths = map (\<lambda>k. (bind_key k, paths ! k)) [0..<length paths]"

text \<open>The variables of one unit, in the order of the \<^verbatim>\<open>setenv\<close> calls.\<close>

definition unit_vars :: "nw_unit \<Rightarrow> (bytes \<times> bytes) list" where
  "unit_vars u =
    [(''NW_UNIT'', cstr (u_name u)),
     (''NW_HOUSE'', cstr (u_name u)),
     (''NW_LIDS'', snprintf 8 (dec (unat (u_lids u)))),
     (''NW_BUDGET'', snprintf 8 (dec (unat (u_budget u)))),
     (''NW_KIND'', snprintf 8 (dec (unat (u_kind u)))),
     (''NW_LOCK'', snprintf 8 (dec (unat (u_lock u)))),
     (''NW_STOP_SIGNAL'', snprintf 8 (dec (unat (u_stop_signal u)))),
     (''NW_GRACE_PERIOD'', snprintf 24 (dec (unat (u_grace_period u)))),
     (''NW_NOFILE'', snprintf 24 (dec (unat (u_nofile u)))),
     (''NW_CAPABILITIES'', snprintf 24 (dec (unat (u_capabilities u)))),
     (''NW_SUPERVISOR_DEATH_POLICY'', snprintf 8 (dec (unat (u_supervisor_death_policy u)))),
     (''NW_BRICK'', if nw_unit_has_brick u then hex_of (u_brick u) else []),
     (''NW_LAYER'', cstr (u_layer u)),
     (''NW_LAYER_BYTES'', snprintf 24 (dec (unat (r_layer_bytes (u_res u))))),
     (''NW_CPU_MASK'', snprintf 24 (dec (unat (r_cpu_mask (u_res u))))),
     (''NW_MEM_HIGH'', snprintf 24 (dec (unat (r_mem_high (u_res u))))),
     (''NW_MEM_MAX'', snprintf 24 (dec (unat (r_mem_max (u_res u))))),
     (''NW_CPU_WEIGHT'', snprintf 8 (dec (unat (r_cpu_weight (u_res u))))),
     (''NW_NICE'', snprintf 8 (dec_int (sint (r_nice (u_res u))))),
     (''NW_SCHED_POLICY'', snprintf 8 (dec (unat (r_sched_policy (u_res u))))),
     (''NW_TASK_CAP'', snprintf 24 (dec (unat (r_task_cap (u_res u))))),
     (''NW_OOM_SCORE_ADJ'', snprintf 8 (dec_int (sint (r_oom_score_adj (u_res u)))))]"

text \<open>The binds of unit \<open>i\<close>, in table order; the index is compared at the width of the field.\<close>

definition binds_of :: "nw_bind list \<Rightarrow> nat \<Rightarrow> bytes list" where
  "binds_of bs i = map (\<lambda>b. cstr (b_path b)) (filter (\<lambda>b. b_unit b = of_nat i) bs)"

definition spawn_env :: "env \<Rightarrow> nw_unit \<Rightarrow> bytes list \<Rightarrow> bytes list \<Rightarrow> env" where
  "spawn_env env u peers paths =
     setenv_all (wire_vars peers @ unit_vars u @ bind_vars paths
       @ [(''NW_NBINDS'', snprintf 8 (dec (length paths)))]) env"

subsection \<open>nw-sup reads it back\<close>

definition SIGHUP :: nat where "SIGHUP = 1"
definition SIGINT :: nat where "SIGINT = 2"
definition SIGQUIT :: nat where "SIGQUIT = 3"
definition SIGTERM :: nat where "SIGTERM = 15"

definition real_stop_signal :: "u32 \<Rightarrow> nat" where
  "real_stop_signal b =
     (if b = ucast NW_STOPSIG_TERM then SIGTERM
      else if b = ucast NW_STOPSIG_INT then SIGINT
      else if b = ucast NW_STOPSIG_HUP then SIGHUP
      else if b = ucast NW_STOPSIG_QUIT then SIGQUIT
      else SIGTERM)"

record sup_cfg =
  c_path :: bytes
  c_name :: bytes
  c_lids :: u32
  c_budget :: u32
  c_complete_on_0 :: bool
  c_lock :: bool
  c_stop_signal :: nat
  c_grace_period :: u32
  c_nofile :: u32
  c_capabilities :: u64
  c_brick :: "bytes option"
  c_layer :: "bytes option"
  c_layer_bytes :: u64
  c_cpu_mask :: u64
  c_mem_high :: u64
  c_mem_max :: u64
  c_cpu_weight :: u32
  c_nice :: int
  c_sched_policy :: u32
  c_task_cap :: u32
  c_oom_score_adj :: int
  c_binds :: "bytes list"

text \<open>\<^verbatim>\<open>if ((e = getenv(k))) x = (unsigned)atoi(e);\<close> over a default.\<close>

definition env_uint :: "env \<Rightarrow> bytes \<Rightarrow> u32 \<Rightarrow> u32" where
  "env_uint env k d = (case env k of None \<Rightarrow> d | Some e \<Rightarrow> atoi e)"

text \<open>Digits only, then \<^verbatim>\<open>strtoull\<close> with its \<^verbatim>\<open>ERANGE\<close> and its end pointer.\<close>

definition parse_u64 :: "bytes \<Rightarrow> bytes \<Rightarrow> bytes \<Rightarrow> u64 res" where
  "parse_u64 not_num not_fit e =
     die_if (\<not> list_all digit_char e) not_num (
       case strtoul e of (v, erange, rest) \<Rightarrow> die_if (erange \<or> rest \<noteq> []) not_fit (Inr v))"

text \<open>The blocks that treat an empty value as absent.\<close>

definition env_u64 :: "env \<Rightarrow> bytes \<Rightarrow> bytes \<Rightarrow> bytes \<Rightarrow> u64 res" where
  "env_u64 env k not_num not_fit =
     (case env k of None \<Rightarrow> Inr 0
      | Some e \<Rightarrow> if e = [] then Inr 0 else parse_u64 not_num not_fit e)"

definition parse_lock :: "env \<Rightarrow> bool res" where
  "parse_lock env =
     (let lock_byte = env_uint env ''NW_LOCK'' (ucast NW_LOCK_LOCKED) in
      die_if (ucast NW_LOCK_MAX < lock_byte) ''lock value''
        (Inr (lock_byte \<noteq> ucast NW_LOCK_UNLOCKED)))"

definition parse_stop :: "env \<Rightarrow> nat res" where
  "parse_stop env =
     (let b = env_uint env ''NW_STOP_SIGNAL'' (ucast NW_STOPSIG_UNSET) in
      die_if (ucast NW_STOPSIG_MAX < b) ''stop-signal value'' (Inr (real_stop_signal b)))"

definition parse_grace :: "env \<Rightarrow> u32 res" where
  "parse_grace env =
     (case env ''NW_GRACE_PERIOD'' of None \<Rightarrow> Inr 0
      | Some e \<Rightarrow> case strtoul e of (v, erange, rest) \<Rightarrow>
          die_if (e = [] \<or> rest \<noteq> [] \<or> erange \<or> ucast NW_GRACE_MAX_MS < v)
            (''grace-period exceeds what poll(2)'' @ [CHR 0x27] @ ''s timeout can hold'')
            (Inr (ucast v)))"

text \<open>\<^verbatim>\<open>nw_cap_last_cap\<close>: the content of the kernel's file, or its absence.\<close>

definition nw_cap_last_cap :: "bytes option \<Rightarrow> nat res" where
  "nw_cap_last_cap file =
     (case file of None \<Rightarrow> Inl ''cap_last_cap unavailable''
      | Some content \<Rightarrow>
        die_if (content = []) ''cap_last_cap read'' (
        let buf = cstr (take 15 content); v = strtol buf in
        case scan_num buf of (neg, ds, rest) \<Rightarrow>
        die_if (2 ^ 63 \<le> num_val ds \<or> (rest \<noteq> [] \<and> hd rest \<noteq> CHR 0x0A) \<or> v < 0 \<or> 63 < v)
          ''cap_last_cap parse'' (Inr (nat v))))"

definition parse_caps :: "env \<Rightarrow> bytes option \<Rightarrow> u64 res" where
  "parse_caps env cap_file =
     and_then (case env ''NW_CAPABILITIES'' of None \<Rightarrow> Inr 0
               | Some e \<Rightarrow> parse_u64 ''capabilities not a number'' ''capabilities range'' e)
       (\<lambda>caps. and_then (nw_cap_last_cap cap_file)
       (\<lambda>cap_last. die_if (cap_last \<noteq> 63 \<and> drop_bit (cap_last + 1) caps \<noteq> 0)
          (''capabilities: a declared bit names a capability past this kernel'' @ [CHR 0x27]
           @ ''s own cap_last_cap'') (Inr caps)))"

definition brick_path :: "bytes \<Rightarrow> bytes" where
  "brick_path hex = NW_BRICK_DIR @ ''/'' @ hex @ NW_BRICK_SUFFIX"

definition sizeof_brickbuf :: nat where
  "sizeof_brickbuf = Suc (length NW_BRICK_DIR) + 1 + NW_BRICK_HEX + Suc (length NW_BRICK_SUFFIX)"

definition parse_brick :: "env \<Rightarrow> bytes option res" where
  "parse_brick env =
     (case env ''NW_BRICK'' of None \<Rightarrow> Inr None
      | Some hex \<Rightarrow>
        if hex = [] then Inr None
        else die_if (length hex \<noteq> NW_BRICK_HEX) ''brick hash length'' (
             die_if (\<not> list_all hex_char hex) ''brick hash not hex'' (
             let p = brick_path hex in
             die_if (sizeof_brickbuf \<le> length p) ''brick path'' (Inr (Some p)))))"

definition parse_layer :: "env \<Rightarrow> bytes option res" where
  "parse_layer env =
     (case env ''NW_LAYER'' of None \<Rightarrow> Inr None
      | Some layer \<Rightarrow>
        if layer = [] then Inr None
        else die_if (NW_NAME_LEN \<le> length layer) ''layer id length'' (
             die_if (\<not> list_all name_char layer) ''layer id not a name'' (Inr (Some layer))))"

text \<open>The resource block: the six fields of the cgroup and the scheduler, then the two of later.\<close>

definition parse_res :: "env \<Rightarrow> sup_cfg \<Rightarrow> sup_cfg res" where
  "parse_res env c =
     and_then (env_u64 env ''NW_CPU_MASK'' ''cpu mask not a number'' ''cpu mask range'') (\<lambda>cpu_mask.
     and_then (env_u64 env ''NW_MEM_HIGH'' ''mem high not a number'' ''mem high range'') (\<lambda>mem_high.
     and_then (env_u64 env ''NW_MEM_MAX'' ''mem max not a number'' ''mem max range'') (\<lambda>mem_max.
     let cpu_weight = env_uint env ''NW_CPU_WEIGHT'' 0 in
     die_if (ucast NW_CPU_WEIGHT_MAX < cpu_weight) ''cpu weight range'' (
     let nice_val = sint (env_uint env ''NW_NICE'' 0) in
     die_if (nice_val < NW_NICE_MIN \<or> NW_NICE_MAX < nice_val) ''nice range'' (
     let sched_policy = env_uint env ''NW_SCHED_POLICY'' (ucast NW_SCHED_UNSET) in
     die_if (ucast NW_SCHED_MAX < sched_policy) ''sched policy value'' (
     die_if (mem_high \<noteq> 0 \<and> mem_max \<noteq> 0 \<and> mem_max \<le> mem_high) ''mem high/max order'' (
     die_if (nice_val \<noteq> 0 \<and> sched_policy \<noteq> ucast NW_SCHED_OTHER) ''nice without sched=other'' (
     let task_cap = env_uint env ''NW_TASK_CAP'' 0; oom = sint (env_uint env ''NW_OOM_SCORE_ADJ'' 0) in
     die_if (oom < NW_OOM_ADJ_MIN \<or> NW_OOM_ADJ_MAX < oom) ''oom-score-adj range'' (
     Inr (c\<lparr>c_cpu_mask := cpu_mask, c_mem_high := mem_high, c_mem_max := mem_max,
        c_cpu_weight := cpu_weight, c_nice := nice_val, c_sched_policy := sched_policy,
        c_task_cap := task_cap, c_oom_score_adj := oom\<rparr>))))))))))"

definition has_lid32 :: "u32 \<Rightarrow> u8 \<Rightarrow> bool" where
  "has_lid32 lids l \<longleftrightarrow> lids AND ucast l \<noteq> 0"

fun get_binds :: "env \<Rightarrow> nat \<Rightarrow> nat \<Rightarrow> bytes list res" where
  "get_binds env i 0 = Inr []"
| "get_binds env i (Suc n) =
     (case env (bind_key i) of None \<Rightarrow> Inl ''missing bind''
      | Some v \<Rightarrow> die_if (v = []) ''missing bind''
          (and_then (get_binds env (Suc i) n) (\<lambda>vs. Inr (v # vs))))"

text \<open>The rules between fields, and the binds.\<close>

definition parse_pairs :: "env \<Rightarrow> sup_cfg \<Rightarrow> sup_cfg res" where
  "parse_pairs env c =
     die_if (has_lid32 (c_lids c) NW_LID_LANDLOCK \<and> c_brick c = None) ''landlock without brick'' (
     die_if (c_brick c \<noteq> None \<and> c_layer c = None) ''brick without layer'' (
     die_if (c_brick c = None \<and> c_layer c \<noteq> None) ''layer without brick'' (
     die_if (c_layer_bytes c \<noteq> 0 \<and> c_layer c = None) ''layer bytes without layer'' (
     if c_brick c = None then Inr c
     else die_if (\<not> has_lid32 (c_lids c) NW_LID_NEWNS) ''brick without newns'' (
       let nbinds = sint (env_uint env ''NW_NBINDS'' 0) in
       die_if (nbinds < 0 \<or> int NW_MAX_BINDS < nbinds) ''nbinds'' (
       and_then (get_binds env 0 (nat nbinds)) (\<lambda>binds. Inr (c\<lparr>c_binds := binds\<rparr>))))))))"

text \<open>The whole of \<^verbatim>\<open>main\<close> up to the signal mask: the arguments are path and name.\<close>

definition sup_parse :: "bytes list \<Rightarrow> bytes option \<Rightarrow> env \<Rightarrow> sup_cfg res" where
  "sup_parse args cap_file env =
     (case args of path # name # _ \<Rightarrow>
       and_then (parse_lock env) (\<lambda>lock.
       and_then (parse_stop env) (\<lambda>stop.
       and_then (parse_grace env) (\<lambda>grace.
       die_if (env_uint env ''NW_SUPERVISOR_DEATH_POLICY'' 0 \<noteq> 0)
         ''supervisor-death-policy: reserved, no plan syntax exists yet (docs/options/31 Section 6)'' (
       and_then (parse_caps env cap_file) (\<lambda>caps.
       and_then (parse_brick env) (\<lambda>brick.
       and_then (parse_layer env) (\<lambda>layer.
       and_then (env_u64 env ''NW_LAYER_BYTES'' ''layer bytes not a number'' ''layer bytes range'') (\<lambda>layer_bytes.
       and_then (parse_res env
         \<lparr>c_path = path, c_name = name, c_lids = env_uint env ''NW_LIDS'' 0,
          c_budget = env_uint env ''NW_BUDGET'' 0,
          c_complete_on_0 = (env_uint env ''NW_KIND'' (ucast NW_KIND_LONGRUN) = ucast NW_KIND_ONESHOT),
          c_lock = lock, c_stop_signal = stop, c_grace_period = grace,
          c_nofile = env_uint env ''NW_NOFILE'' 0, c_capabilities = caps, c_brick = brick,
          c_layer = layer, c_layer_bytes = layer_bytes, c_cpu_mask = 0, c_mem_high = 0,
          c_mem_max = 0, c_cpu_weight = 0, c_nice = 0, c_sched_policy = 0, c_task_cap = 0,
          c_oom_score_adj = 0, c_binds = []\<rparr>)
       (parse_pairs env)))))))))
      | _ \<Rightarrow> Inl ''argv'')"

end
