(* ===== verification/Seal.thy ===== *)
theory Seal
  imports NwCheck
begin

text \<open>
  Sealing: the blob that holds a given plan, written with the layout of \<^verbatim>\<open>blob.h\<close> and the CRC the
  validator recomputes. The round trip shows that the tables read back are the tables written and
  that the validator accepts the blob of every well-formed plan. The theory also holds the
  properties of the validator as a whole and of its leaves.
\<close>

subsection \<open>The blob of a plan\<close>

definition body_of :: "nw_unit list \<Rightarrow> nw_bind list \<Rightarrow> nw_edge list \<Rightarrow> bytes" where
  "body_of us bs es = concat (map put_unit us) @ concat (map put_bind bs) @ concat (map put_edge es)"

definition unsealed_hdr :: "nw_unit list \<Rightarrow> nw_bind list \<Rightarrow> nw_edge list \<Rightarrow> nw_hdr" where
  "unsealed_hdr us bs es = \<lparr>h_magic = NW_MAGIC, h_n_units = of_nat (length us),
     h_n_binds = of_nat (length bs), h_n_edges = of_nat (length es), h_crc32 = 0\<rparr>"

definition seal :: "nw_unit list \<Rightarrow> nw_bind list \<Rightarrow> nw_edge list \<Rightarrow> bytes" where
  "seal us bs es = (let h = unsealed_hdr us bs es; body = body_of us bs es in
     put_hdr (h\<lparr>h_crc32 := nw_crc32_split (put_hdr h) body\<rparr>) @ body)"

text \<open>The plan fits the format: array fields have their extents, tables their limits.\<close>

definition plan_fits :: "nw_unit list \<Rightarrow> nw_bind list \<Rightarrow> nw_edge list \<Rightarrow> bool" where
  "plan_fits us bs es \<longleftrightarrow> (\<forall>u\<in>set us. unit_extents u) \<and> (\<forall>b\<in>set bs. bind_extents b)
     \<and> 1 \<le> length us \<and> length us \<le> NW_MAX_UNITS \<and> length bs \<le> NW_MAX_BINDS
     \<and> length es \<le> NW_MAX_EDGES"

lemma length_put_hdr [simp]: "length (h_magic h) = 8 \<Longrightarrow> length (put_hdr h) = 24"
  by (simp add: put_hdr_def)

lemma nw_hdr_put: "length (h_magic h) = 8 \<Longrightarrow> nw_hdr (put_hdr h @ body) = h"
  by (simp add: nw_hdr_def put_hdr_def layout_simps)

lemma length_concat_map_const:
  "\<forall>x\<in>set xs. length (f x) = n \<Longrightarrow> length (concat (map f xs)) = length xs * n"
  by (induction xs) auto

lemma sub_concat_map:
  assumes "\<forall>x\<in>set xs. length (f x) = n" "i < length xs"
  shows "sub (i * n) n (concat (map f xs) @ rest) = f (xs ! i)"
  using assms
proof (induction xs arbitrary: i)
  case Nil
  then show ?case by simp
next
  case (Cons x xs)
  show ?case
  proof (cases i)
    case 0
    then show ?thesis using Cons.prems by (simp add: sub_append1 sub_all)
  next
    case (Suc j)
    then show ?thesis using Cons by (simp add: sub_append2)
  qed
qed

lemma sub_table:
  assumes "\<forall>x\<in>set xs. length (f x) = n" "i < length xs" "length pre = k"
  shows "sub (k + i * n) n (pre @ concat (map f xs) @ rest) = f (xs ! i)"
  using sub_concat_map [OF assms(1,2)] assms(3) by (simp add: sub_append2)

lemma map_nth_eq: "\<forall>i<length xs. g i = xs ! i \<Longrightarrow> n = length xs \<Longrightarrow> map g [0..<n] = xs"
  by (rule nth_equalityI) auto

lemma counts_fit:
  assumes "plan_fits us bs es"
  shows "unat (of_nat (length us) :: u32) = length us" "unat (of_nat (length bs) :: u32) = length bs"
    "unat (of_nat (length es) :: u32) = length es"
  using assms by (auto simp: plan_fits_def nw_limits unat_of_nat)

lemma seal_hdr:
  "nw_hdr (seal us bs es) = (unsealed_hdr us bs es)\<lparr>h_crc32 :=
     nw_crc32_split (put_hdr (unsealed_hdr us bs es)) (body_of us bs es)\<rparr>"
  by (simp add: seal_def Let_def nw_hdr_put unsealed_hdr_def NW_MAGIC_def)

lemma seal_split:
  "\<exists>pre. length pre = 24 \<and> seal us bs es = pre @ body_of us bs es"
  by (auto simp: seal_def Let_def unsealed_hdr_def NW_MAGIC_def)

lemma length_seal:
  assumes "plan_fits us bs es"
  shows "length (seal us bs es) = sizeof_hdr + length us * NW_UNIT_SIZE + length bs * sizeof_bind
    + length es * sizeof_edge"
proof -
  have "length (concat (map put_unit us)) = length us * 288"
    "length (concat (map put_bind bs)) = length bs * 130"
    "length (concat (map put_edge es)) = length es * 4"
    using assms by (auto simp: plan_fits_def intro!: length_concat_map_const)
  then show ?thesis
    using seal_split [of us bs es] by (auto simp: body_of_def struct_sizes)
qed

lemma seal_tables:
  assumes fits: "plan_fits us bs es"
  shows "nw_units (seal us bs es) = us" and "nw_binds (seal us bs es) = bs"
    and "nw_edges (seal us bs es) = es"
proof -
  obtain pre where pre: "length pre = 24" "seal us bs es = pre @ body_of us bs es"
    using seal_split by blast
  let ?U = "concat (map put_unit us)" and ?B = "concat (map put_bind bs)"
  let ?E = "concat (map put_edge es)"
  have ul: "\<forall>u\<in>set us. length (put_unit u) = 288" and bl: "\<forall>b\<in>set bs. length (put_bind b) = 130"
    using fits by (auto simp: plan_fits_def)
  have lens: "length ?U = length us * 288" "length ?B = length bs * 130"
    using ul bl by (auto intro: length_concat_map_const)
  have n: "unat (h_n_units (nw_hdr (seal us bs es))) = length us"
    "unat (h_n_binds (nw_hdr (seal us bs es))) = length bs"
    "unat (h_n_edges (nw_hdr (seal us bs es))) = length es"
    using counts_fit [OF fits] by (simp_all add: seal_hdr unsealed_hdr_def)
  show "nw_units (seal us bs es) = us"
    unfolding nw_units_def n
  proof (intro map_nth_eq allI impI refl)
    fix i assume i: "i < length us"
    have "sub (24 + i * 288) 288 (pre @ ?U @ (?B @ ?E)) = put_unit (us ! i)"
      using sub_table [OF ul i pre(1)] .
    then show "get_unit (sub (sizeof_hdr + i * NW_UNIT_SIZE) NW_UNIT_SIZE (seal us bs es)) = us ! i"
      using fits i by (simp add: pre(2) body_of_def struct_sizes get_put_unit plan_fits_def)
  qed
  show "nw_binds (seal us bs es) = bs"
    unfolding nw_binds_def Let_def n
  proof (intro map_nth_eq allI impI refl)
    fix i assume i: "i < length bs"
    have "sub ((24 + length us * 288) + i * 130) 130 ((pre @ ?U) @ ?B @ ?E) = put_bind (bs ! i)"
      by (rule sub_table [OF bl i]) (simp add: pre(1) lens)
    then show "get_bind (sub (sizeof_hdr + length us * NW_UNIT_SIZE + i * sizeof_bind) sizeof_bind
        (seal us bs es)) = bs ! i"
      using fits i by (simp add: pre(2) body_of_def struct_sizes get_put_bind plan_fits_def)
  qed
  show "nw_edges (seal us bs es) = es"
    unfolding nw_edges_def Let_def n
  proof (intro map_nth_eq allI impI refl)
    fix i assume i: "i < length es"
    have "sub ((24 + length us * 288 + length bs * 130) + i * 4) 4 ((pre @ ?U @ ?B) @ ?E @ [])
        = put_edge (es ! i)"
      by (rule sub_table [OF _ i]) (simp_all add: pre(1) lens)
    then show "get_edge (sub (sizeof_hdr + length us * NW_UNIT_SIZE + length bs * sizeof_bind
        + i * sizeof_edge) sizeof_edge (seal us bs es)) = es ! i"
      by (simp add: pre(2) body_of_def struct_sizes get_put_edge)
  qed
qed

lemma seal_crc: "crc_of (seal us bs es) = h_crc32 (nw_hdr (seal us bs es))"
proof -
  have z: "wr 4 (0 :: u32) = replicate 4 NUL" by (simp add: wr_def le_enc_zero)
  show ?thesis
    unfolding seal_hdr
    by (simp add: crc_of_def seal_def Let_def put_hdr_def unsealed_hdr_def NW_MAGIC_def
        sizeof_hdr_def z)
qed

lemma seal_header_wf:
  assumes "plan_fits us bs es"
  shows "header_wf (seal us bs es)"
proof -
  have n: "unat (h_n_units (nw_hdr (seal us bs es))) = length us"
    "unat (h_n_binds (nw_hdr (seal us bs es))) = length bs"
    "unat (h_n_edges (nw_hdr (seal us bs es))) = length es"
    "h_magic (nw_hdr (seal us bs es)) = NW_MAGIC"
    using counts_fit [OF assms] by (simp_all add: seal_hdr unsealed_hdr_def)
  show ?thesis
    unfolding header_wf_def Let_def n length_seal [OF assms] seal_crc
    using assms by (simp add: plan_fits_def)
qed

lemma seal_wf: "plan_fits us bs es \<Longrightarrow> plan_wf us bs es \<Longrightarrow> sealed_wf (seal us bs es)"
  by (simp add: sealed_wf_def seal_header_wf seal_tables)

lemma seal_len_u32:
  assumes "plan_fits us bs es"
  shows "length (seal us bs es) = unat (of_nat (length (seal us bs es)) :: u32)"
proof -
  have "length (seal us bs es) < 2 ^ 32"
    using assms by (simp add: length_seal plan_fits_def struct_sizes nw_limits)
  then show ?thesis by (simp add: unat_of_nat)
qed

lemma seal_decides:
  assumes "plan_fits us bs es"
  shows "nw_check (seal us bs es) (of_nat (length (seal us bs es))) = Some NW_OK
    \<longleftrightarrow> sealed_wf (seal us bs es)"
  using nw_check_decides [OF seal_len_u32 [OF assms]] by (auto simp: decides_def)

lemma seal_accepted:
  assumes "plan_fits us bs es" "plan_wf us bs es"
  shows "nw_check (seal us bs es) (of_nat (length (seal us bs es))) = Some NW_OK"
  using seal_decides [OF assms(1)] seal_wf [OF assms] by simp

subsection \<open>A concrete plan\<close>

text \<open>A house in a brick with every lid, a layer and a bind, wired to a plain house.\<close>

definition pad :: "nat \<Rightarrow> bytes \<Rightarrow> bytes" where
  "pad n s = s @ replicate (n - length s) NUL"

definition demo_res :: nw_res where
  "demo_res = \<lparr>r_cpu_mask = 3, r_mem_high = 1000000, r_mem_max = 2000000, r_layer_bytes = 4096,
     r_cpu_weight = 100, r_nice = - 5, r_sched_policy = 1, r_task_cap = 64,
     r_oom_score_adj = 500\<rparr>"

definition no_res :: nw_res where
  "no_res = \<lparr>r_cpu_mask = 0, r_mem_high = 0, r_mem_max = 0, r_layer_bytes = 0, r_cpu_weight = 0,
     r_nice = 0, r_sched_policy = 0, r_task_cap = 0, r_oom_score_adj = 0\<rparr>"

definition demo_brick_unit :: nw_unit where
  "demo_brick_unit = \<lparr>u_name = pad 32 ''web'', u_exec_path = pad 128 ''/bin/web'',
     u_brick = pad 32 [NUL, CHR ''a''], u_layer = pad 32 ''web-data'', u_kind = 1, u_budget = 3,
     u_lids = 15, u_lock = 0, u_res = demo_res, u_stop_signal = 2, u_grace_period = 1500,
     u_nofile = 256, u_capabilities = 1024, u_supervisor_death_policy = 0\<rparr>"

definition demo_plain_unit :: nw_unit where
  "demo_plain_unit = \<lparr>u_name = pad 32 ''log'', u_exec_path = pad 128 ''/bin/log'',
     u_brick = pad 32 [], u_layer = pad 32 [], u_kind = 0, u_budget = 0, u_lids = 1, u_lock = 0,
     u_res = no_res, u_stop_signal = 0, u_grace_period = 0, u_nofile = 0, u_capabilities = 0,
     u_supervisor_death_policy = 0\<rparr>"

definition demo_units :: "nw_unit list" where
  "demo_units = [demo_brick_unit, demo_plain_unit]"

definition demo_binds :: "nw_bind list" where
  "demo_binds = [\<lparr>b_unit = 0, b_path = pad 128 ''/etc/..hidden''\<rparr>]"

definition demo_edges :: "nw_edge list" where
  "demo_edges = [\<lparr>e_a = 1, e_b = 0\<rparr>]"

lemma demo_fits: "plan_fits demo_units demo_binds demo_edges"
  by code_simp

lemma demo_wf: "plan_wf demo_units demo_binds demo_edges"
  by code_simp

subsection \<open>Any changed byte is refused\<close>

lemma rd_inj:
  assumes "LENGTH('a::len) = 8 * n" "k + n \<le> length x" "k + n \<le> length y"
    and "(rd k n x :: 'a word) = rd k n y"
  shows "sub k n x = sub k n y"
  using wr_rd [OF assms(1,2)] wr_rd [OF assms(1,3)] assms(4) by metis

lemma changed_byte_crc:
  assumes "a \<noteq> b" and "sizeof_hdr \<le> length (p @ a # s)"
    and "crc_of (p @ a # s) = h_crc32 (nw_hdr (p @ a # s))"
  shows "crc_of (p @ b # s) \<noteq> h_crc32 (nw_hdr (p @ b # s))"
proof -
  have h: "h_crc32 (nw_hdr m) = rd 20 4 m" for m by (simp add: nw_hdr_def)
  consider (low) "length p < 20" | (crc) "20 \<le> length p" "length p < 24" | (body) "24 \<le> length p"
    by linarith
  then show ?thesis
  proof cases
    case low
    then obtain k where k: "20 - length p = Suc k" by (metis Suc_diff_Suc)
    have t: "take 20 (p @ x # s) = p @ x # take k s" for x using low k by simp
    have d: "drop sizeof_hdr (p @ x # s) = drop (23 - length p) s" for x
      using low by (simp add: sizeof_hdr_def drop_Cons' Suc_diff_le)
    have "sub 20 4 (p @ a # s) = sub 20 4 (p @ b # s)" using low k by (simp add: sub_def)
    then have "h_crc32 (nw_hdr (p @ a # s)) = h_crc32 (nw_hdr (p @ b # s))" by (simp add: h rd_def)
    moreover have "crc_of (p @ a # s) \<noteq> crc_of (p @ b # s)"
      using crc_detects_first [OF assms(1), of p "take k s @ replicate 4 NUL"]
      by (simp only: crc_of_def t d append_assoc append_Cons not_False_eq_True)
    ultimately show ?thesis using assms(3) by simp
  next
    case crc
    have "crc_of (p @ a # s) = crc_of (p @ b # s)"
      using crc by (simp add: crc_of_def sizeof_hdr_def drop_Cons')
    moreover have "sub 20 4 (p @ a # s) \<noteq> sub 20 4 (p @ b # s)"
    proof
      assume eq: "sub 20 4 (p @ a # s) = sub 20 4 (p @ b # s)"
      have "sub 20 4 (p @ x # s) ! (length p - 20) = x" for x
        using crc assms(2) by (subst sub_nth) (auto simp: sizeof_hdr_def)
      then show False using eq assms(1) by metis
    qed
    then have "h_crc32 (nw_hdr (p @ a # s)) \<noteq> h_crc32 (nw_hdr (p @ b # s))"
      using rd_inj [where 'a = 32 and n = 4 and k = 20] assms(2) by (force simp: h sizeof_hdr_def)
    ultimately show ?thesis using assms(3) by simp
  next
    case body
    have d: "drop sizeof_hdr (p @ x # s) = drop 24 p @ x # s" for x
      using body by (simp add: sizeof_hdr_def)
    have "crc_of (p @ a # s) \<noteq> crc_of (p @ b # s)"
      using crc_detects_second [OF assms(1)] body by (simp add: crc_of_def del: drop_append) (simp only: d not_False_eq_True)
    moreover have "h_crc32 (nw_hdr (p @ a # s)) = h_crc32 (nw_hdr (p @ b # s))"
      using body by (simp add: h rd_append1)
    ultimately show ?thesis using assms(3) by simp
  qed
qed

subsection \<open>Properties\<close>



text \<open>
  C4. Sealing and reading back is the identity: for every plan that fits the format, the tables
  that the accessors read from its blob are the tables that were written, and the validator accepts
  the blob of every such plan that is well formed.
\<close>

theorem seal_roundtrip:
  assumes "plan_fits us bs es"
  shows "nw_units (seal us bs es) = us \<and> nw_binds (seal us bs es) = bs
    \<and> nw_edges (seal us bs es) = es
    \<and> (plan_wf us bs es \<longleftrightarrow>
         nw_check (seal us bs es) (of_nat (length (seal us bs es))) = Some NW_OK)"
  using seal_tables [OF assms] seal_header_wf [OF assms] seal_decides [OF assms]
  by (simp add: sealed_wf_def)

theorem seal_roundtrip_witness:
  "nw_units (seal demo_units demo_binds demo_edges) = demo_units"
  using seal_roundtrip [OF demo_fits] by simp

text \<open>
  C5. The seal detects every one-byte change: if the validator accepts a blob, it refuses the blob
  that differs from it in one byte, wherever that byte is (in the magic, the counts, the CRC field
  itself or the tables).
\<close>

theorem changed_byte_refused:
  assumes "length (p @ a # s) = unat len" and "nw_check (p @ a # s) len = Some NW_OK" and "a \<noteq> b"
  shows "nw_check (p @ b # s) len \<noteq> Some NW_OK"
proof -
  have "sealed_wf (p @ a # s)" using nw_check_decides [OF assms(1)] assms(2) by (simp add: decides_def)
  then have "crc_of (p @ b # s) \<noteq> h_crc32 (nw_hdr (p @ b # s))"
    using changed_byte_crc [OF assms(3)] by (simp add: sealed_wf_def header_wf_def Let_def)
  then have "\<not> sealed_wf (p @ b # s)" by (simp add: sealed_wf_def header_wf_def Let_def)
  then show ?thesis using nw_check_decides [of "p @ b # s" len] assms(1) by (auto simp: decides_def)
qed

theorem changed_byte_refused_witness:
  "\<exists>p a s. seal demo_units demo_binds demo_edges = p @ a # s \<and>
     nw_check (p @ a # s) (of_nat (length (p @ a # s))) = Some NW_OK \<and>
     nw_check (p @ (if a = NUL then CHR ''x'' else NUL) # s) (of_nat (length (p @ a # s)))
       \<noteq> Some NW_OK"
proof -
  let ?m = "seal demo_units demo_binds demo_edges"
  have "length ?m \<noteq> 0"
    unfolding length_seal [OF demo_fits] by (simp add: struct_sizes)
  then obtain a s where m: "?m = [] @ a # s" by (cases ?m) auto
  let ?p = "[] :: bytes"
  have len: "length (?p @ a # s) = unat (of_nat (length (?p @ a # s)) :: u32)"
    using seal_len_u32 [OF demo_fits] by (simp only: m [symmetric])
  have ok: "nw_check (?p @ a # s) (of_nat (length (?p @ a # s))) = Some NW_OK"
    using seal_accepted [OF demo_fits demo_wf] by (simp only: m [symmetric])
  show ?thesis
    using changed_byte_refused [OF len ok, of "if a = NUL then CHR ''x'' else NUL"] ok m
    by (intro exI [of _ "[]"] exI [of _ a] exI [of _ s]) auto
qed

text \<open>
  The hashed duplicate search is the nested scan it replaced: with the names of the units in
  \<open>T\<close> inserted and room left, probing for unit \<open>i\<close> reads nothing out of range and answers exactly
  whether some unit of \<open>T\<close> has the same name, whatever the hashes; and if none has, the table
  afterwards holds unit \<open>i\<close> as well.
\<close>

theorem field_dup_is_scan:
  assumes "\<forall>j<length us. length (f (us ! j)) = NW_NAME_LEN" and "tab_inv f us T t"
    and "i < length us" "i \<notin> T" and "card T < NW_DUP_SLOTS"
  shows "\<exists>t'. field_dup f t us i = Some (\<exists>j\<in>T. cstr (f (us ! j)) = cstr (f (us ! i)), t')
     \<and> ((\<exists>j\<in>T. cstr (f (us ! j)) = cstr (f (us ! i))) \<or> tab_inv f us (insert i T) t')"
  using assms by (rule field_dup_spec)

theorem field_dup_is_scan_example:
  "\<exists>t'. field_dup u_name name_dup_init demo_units 1 = Some (False, t')
     \<and> tab_inv u_name demo_units {1} t'"
proof -
  have w: "\<forall>j<length demo_units. length (u_name (demo_units ! j)) = NW_NAME_LEN"
    using demo_fits by (simp add: plan_fits_def unit_extents_def nw_limits)
  show ?thesis
    using field_dup_is_scan [OF w tab_inv_init, of 1] by (simp add: demo_units_def nw_limits)
qed

text \<open>
  C7. No accepted path climbs: \<open>path_ok\<close> reads only inside the 128-byte field, and what it accepts
  is absolute, terminated inside the field with nothing after the terminator, and has no component
  equal to \<^verbatim>\<open>..\<close>, so joined under any directory it stays beneath it.
\<close>

theorem path_ok_no_traversal:
  assumes "length s = NW_PATH_LEN"
  shows "path_ok s = Some (path_wf s)
    \<and> (\<not> path_wf s \<or> hd (cstr s) = CHR ''/'' \<and> NUL \<notin> set (cstr s) \<and> ''..'' \<notin> set (comps (cstr s))
         \<and> s = cstr s @ replicate (NW_PATH_LEN - length (cstr s)) NUL)"
proof -
  have "path_ok s = Some (path_wf s)"
    using assms by (simp add: path_ok_def path_ok_len_spec nw_limits)
  moreover have "''..'' \<notin> set (comps (cstr s))" if "path_wf s"
    using that by (intro updir_free_comps) (auto simp: path_wf_alt)
  moreover have "s = cstr s @ replicate (NW_PATH_LEN - length (cstr s)) NUL" if "path_wf s"
    using that padded_eq [of s] assms by (simp add: path_wf_def)
  ultimately show ?thesis using cstr_no_NUL by (auto simp: path_wf_def)
qed

theorem path_ok_no_traversal_witness:
  "path_ok (pad 128 ''/etc/..hidden'') = Some True \<and> path_ok (pad 128 ''/etc/../x'') = Some False"
proof -
  have l: "length (pad 128 ''/etc/..hidden'') = NW_PATH_LEN" "length (pad 128 ''/etc/../x'') = NW_PATH_LEN"
    by (simp_all add: pad_def nw_limits)
  have w: "path_wf (pad 128 ''/etc/..hidden'')" "\<not> path_wf (pad 128 ''/etc/../x'')" by code_simp+
  show ?thesis using path_ok_no_traversal [OF l(1)] path_ok_no_traversal [OF l(2)] w by simp
qed

text \<open>
  Every byte of a unit belongs to exactly one field: reading a 288-byte unit and writing it
  back gives the same bytes, and writing a unit and reading it gives the same fields. This is what
  the offset, extent and size asserts of the header pin.
\<close>

theorem unit_layout_exact:
  "(length m = 288 \<longrightarrow> put_unit (get_unit m) = m) \<and> (unit_extents u \<longrightarrow> get_unit (put_unit u) = u)"
  using put_get_unit get_put_unit by blast

theorem unit_layout_exact_example:
  "get_unit (put_unit demo_brick_unit) = demo_brick_unit
   \<and> put_unit (get_unit (put_unit demo_brick_unit)) = put_unit demo_brick_unit"
proof -
  have "unit_extents demo_brick_unit" by code_simp
  then show ?thesis
    using unit_layout_exact [of "put_unit demo_brick_unit" demo_brick_unit] by simp
qed

text \<open>
  \<open>nw_errstr\<close> never reads past \<open>errs[]\<close>: it answers for every integer, every code of the enum
  has its own string, and exactly the integers outside the enum are unknown.
\<close>

lemma errstr_total:
  "nw_errstr i \<noteq> None \<and> distinct (map (\<lambda>e. nw_errstr (err_code e)) nw_codes)
   \<and> (nw_errstr i = Some ''unknown'' \<longleftrightarrow> i < 0 \<or> NW_E_COUNT \<le> i)
   \<and> length errs = length nw_codes"
proof -
  have "errs ! nat i \<noteq> ''unknown''" if "\<not> (i < 0 \<or> 33 \<le> i)"
    using that errs_not_unknown length_errs
    by (metis nat_less_iff linorder_not_le nth_mem of_nat_numeral)
  moreover have "distinct (map Some errs)" using errs_distinct by (simp add: distinct_map)
  moreover have "length nw_codes = 33" by (simp add: nw_codes_def)
  ultimately show ?thesis
    unfolding errstr_of_codes by (auto simp: nw_errstr_def NW_E_COUNT_def idx_def length_errs)
qed

end
