(* ===== verification/HandoffSpec.thy ===== *)
theory HandoffSpec
  imports Handoff Seal
begin

text \<open>
  What crosses the environment is what the sealed plan says: for every unit of an accepted blob,
  \<^verbatim>\<open>nw-sup\<close> reads back exactly the fields \<^verbatim>\<open>nw-spawn\<close> wrote, whatever environment both inherited, and
  every one of its checks passes.
\<close>

subsection \<open>Variables and buffers\<close>

lemma setenv_all_append: "setenv_all (xs @ ys) env = setenv_all ys (setenv_all xs env)"
  by (simp add: setenv_all_def)

lemma setenv_all_Cons: "setenv_all ((k, v) # kvs) env = setenv_all kvs (env(k \<mapsto> v))"
  by (simp add: setenv_all_def)

lemma setenv_all_Nil: "setenv_all [] env = env"
  by (simp add: setenv_all_def)

lemma setenv_all_other: "k \<notin> fst ` set kvs \<Longrightarrow> setenv_all kvs env k = env k"
  by (induction kvs arbitrary: env) (auto simp: setenv_all_def)

lemma setenv_all_nth:
  assumes "distinct (map fst kvs)" "i < length kvs"
  shows "setenv_all kvs env (fst (kvs ! i)) = Some (snd (kvs ! i))"
  using assms
proof (induction kvs arbitrary: env i)
  case Nil
  then show ?case by simp
next
  case (Cons kv kvs)
  obtain k v where kv: "kv = (k, v)" by (cases kv)
  show ?case
  proof (cases i)
    case 0
    then show ?thesis using Cons.prems by (simp add: kv setenv_all_Cons setenv_all_other)
  next
    case (Suc j)
    then show ?thesis using Cons by (simp add: kv setenv_all_Cons)
  qed
qed

lemma sint_bounds:
  "- 128 \<le> sint (b :: u8)" "sint b < 128" "- 32768 \<le> sint (h :: u16)" "sint h < 32768"
  using sint_ge [of b] sint_lt [of b] sint_ge [of h] sint_lt [of h] by simp_all

lemma snprintf_words [simp]:
  "snprintf 8 (dec (unat (b :: u8))) = dec (unat b)"
  "snprintf 8 (dec (unat (h :: u16))) = dec (unat h)"
  "snprintf 24 (dec (unat (w :: u32))) = dec (unat w)"
  "snprintf 24 (dec (unat (q :: u64))) = dec (unat q)"
  "snprintf 8 (dec_int (sint b)) = dec_int (sint b)"
  "snprintf 8 (dec_int (sint h)) = dec_int (sint h)"
  using unat_bounds(1) [of b] unat_bounds(2) [of h] unat_bounds(3) [of w] unat_bounds(4) [of q]
    sint_bounds(1,2) [of b] sint_bounds(3,4) [of h]
  by (auto intro!: snprintf8_dec snprintf24_dec snprintf8_dec_int)

text \<open>What the readers make of the words that were written.\<close>

lemma atoi_words [simp]:
  "atoi (dec (unat (b :: u8))) = ucast b"
  "atoi (dec (unat (h :: u16))) = ucast h"
  "atoi (dec (unat (w :: u32))) = w"
  using unat_bounds(1) [of b] unat_bounds(2) [of h] unat_bounds(3) [of w]
  by (simp_all add: atoi_dec unsigned_ucast_eq word_of_nat_eq_iff take_bit_eq_mod)

lemma sint_atoi [simp]:
  "sint (atoi (dec_int (sint (b :: u8)))) = sint b"
  "sint (atoi (dec_int (sint (h :: u16)))) = sint h"
  using sint_bounds(1,2) [of b] sint_bounds(3,4) [of h]
  by (simp_all add: atoi_dec_int signed_of_int signed_take_bit_int_eq_self
      del: of_int_sint)

lemma digits_dec [simp]: "list_all digit_char (dec n)"
  using dec_digits by (simp add: list_all_iff)

lemma parse_u64_dec [simp]: "parse_u64 a b (dec (unat (q :: u64))) = Inr q"
  using unat_bounds(4) [of q] by (simp add: parse_u64_def die_if_def strtoul_dec)

lemma strtoul_u32 [simp]: "strtoul (dec (unat (w :: u32))) = (ucast w, False, [])"
  using unat_bounds(3) [of w] by (simp add: strtoul_dec unsigned_ucast_eq)

lemma env_u64_dec: "env k = Some (dec (unat q)) \<Longrightarrow> env_u64 env k a b = Inr q"
  by (simp add: env_u64_def)

subsection \<open>Looking a variable up\<close>

lemma bind_key_take: "take 8 (bind_key i) = ''NW_BIND_''"
  by (simp add: bind_key_def snprintf_def)

lemma bind_key_eq: "i < 1000 \<Longrightarrow> bind_key i = ''NW_BIND_'' @ dec i"
  using length_dec [of i 2] by (simp add: bind_key_def snprintf_def)

lemma bind_vars_keys: "k \<in> fst ` set (bind_vars paths) \<Longrightarrow> take 8 k = ''NW_BIND_''"
  by (auto simp: bind_vars_def bind_key_take)

lemma env_var:
  assumes "take 8 k \<noteq> ''NW_BIND_''" "k \<noteq> ''NW_NBINDS''"
  shows "spawn_env env u peers paths k = setenv_all (unit_vars u) (setenv_all (wire_vars peers) env) k"
proof -
  have "k \<notin> fst ` set (bind_vars paths)" using assms(1) bind_vars_keys by blast
  then show ?thesis
    using assms(2) by (simp add: spawn_env_def setenv_all_append setenv_all_other setenv_all_Cons
        setenv_all_Nil)
qed

lemma env_unit_vars:
  assumes "i < 22"
  shows "spawn_env env u peers paths (fst (unit_vars u ! i)) = Some (snd (unit_vars u ! i))"
proof -
  have l: "length (unit_vars u) = 22" by (simp add: unit_vars_def)
  have d: "distinct (map fst (unit_vars u))" by (simp add: unit_vars_def)
  have "\<forall>kv\<in>set (unit_vars u). take 8 (fst kv) \<noteq> ''NW_BIND_'' \<and> fst kv \<noteq> ''NW_NBINDS''"
    by (simp add: unit_vars_def)
  then have "take 8 (fst (unit_vars u ! i)) \<noteq> ''NW_BIND_''" "fst (unit_vars u ! i) \<noteq> ''NW_NBINDS''"
    using nth_mem [of i "unit_vars u"] assms l by (metis, metis)
  then show ?thesis using setenv_all_nth [OF d] assms l by (simp add: env_var)
qed

lemma env_nbinds:
  "length paths \<le> 128 \<Longrightarrow> spawn_env env u peers paths ''NW_NBINDS'' = Some (dec (length paths))"
  by (simp add: spawn_env_def setenv_all_append setenv_all_Cons setenv_all_Nil snprintf8_dec)

lemma env_bind:
  assumes "i < length paths" "length paths \<le> 128"
  shows "spawn_env env u peers paths (bind_key i) = Some (paths ! i)"
proof -
  let ?bv = "bind_vars paths"
  have "inj_on bind_key {..<128}" by (rule inj_onI) (simp add: bind_key_eq)
  then have "inj_on bind_key {0..<length paths}" using assms(2) by (auto intro: inj_on_subset)
  then have d: "distinct (map fst ?bv)" by (simp add: bind_vars_def distinct_map o_def)
  have i: "?bv ! i = (bind_key i, paths ! i)" "i < length ?bv"
    using assms(1) by (simp_all add: bind_vars_def)
  have "bind_key i \<noteq> ''NW_NBINDS''" using bind_key_take [of i] by auto
  then show ?thesis
    using setenv_all_nth [OF d i(2)] by (simp add: spawn_env_def setenv_all_append setenv_all_Cons
        setenv_all_Nil i(1))
qed

lemma get_binds_env:
  "i + n = length paths \<Longrightarrow> length paths \<le> 128 \<Longrightarrow> \<forall>p\<in>set paths. p \<noteq> [] \<Longrightarrow>
     get_binds (spawn_env env u peers paths) i n = Inr (drop i paths)"
proof (induction n arbitrary: i)
  case 0
  then show ?case by simp
next
  case (Suc n)
  then have i: "i < length paths" by simp
  then have "paths ! i \<noteq> []" using Suc.prems(3) by simp
  with Suc i show ?case by (simp add: env_bind die_if_def Cons_nth_drop_Suc)
qed

subsection \<open>What nw-sup must make of a unit\<close>

definition cfg_of :: "nw_unit \<Rightarrow> bytes list \<Rightarrow> sup_cfg" where
  "cfg_of u paths =
    \<lparr>c_path = cstr (u_exec_path u), c_name = cstr (u_name u), c_lids = ucast (u_lids u),
     c_budget = ucast (u_budget u), c_complete_on_0 = (u_kind u = NW_KIND_ONESHOT),
     c_lock = (u_lock u = NW_LOCK_LOCKED), c_stop_signal = real_stop_signal (ucast (u_stop_signal u)),
     c_grace_period = u_grace_period u, c_nofile = u_nofile u, c_capabilities = u_capabilities u,
     c_brick = (if nw_unit_has_brick u then Some (brick_path (hex_of (u_brick u))) else None),
     c_layer = (if has_layer u then Some (cstr (u_layer u)) else None),
     c_layer_bytes = r_layer_bytes (u_res u), c_cpu_mask = r_cpu_mask (u_res u),
     c_mem_high = r_mem_high (u_res u), c_mem_max = r_mem_max (u_res u),
     c_cpu_weight = ucast (r_cpu_weight (u_res u)), c_nice = sint (r_nice (u_res u)),
     c_sched_policy = ucast (r_sched_policy (u_res u)), c_task_cap = r_task_cap (u_res u),
     c_oom_score_adj = sint (r_oom_score_adj (u_res u)), c_binds = paths\<rparr>"

lemma var_at:
  "i < 22 \<Longrightarrow> unit_vars u ! i = (k, v) \<Longrightarrow> spawn_env env u peers paths k = Some v"
  using env_unit_vars [of i env u peers paths] by simp

lemma spawn_vars:
  "spawn_env env u peers paths ''NW_LIDS'' = Some (dec (unat (u_lids u)))"
  "spawn_env env u peers paths ''NW_BUDGET'' = Some (dec (unat (u_budget u)))"
  "spawn_env env u peers paths ''NW_KIND'' = Some (dec (unat (u_kind u)))"
  "spawn_env env u peers paths ''NW_LOCK'' = Some (dec (unat (u_lock u)))"
  "spawn_env env u peers paths ''NW_STOP_SIGNAL'' = Some (dec (unat (u_stop_signal u)))"
  "spawn_env env u peers paths ''NW_GRACE_PERIOD'' = Some (dec (unat (u_grace_period u)))"
  "spawn_env env u peers paths ''NW_NOFILE'' = Some (dec (unat (u_nofile u)))"
  "spawn_env env u peers paths ''NW_CAPABILITIES'' = Some (dec (unat (u_capabilities u)))"
  "spawn_env env u peers paths ''NW_SUPERVISOR_DEATH_POLICY''
     = Some (dec (unat (u_supervisor_death_policy u)))"
  "spawn_env env u peers paths ''NW_BRICK''
     = Some (if nw_unit_has_brick u then hex_of (u_brick u) else [])"
  "spawn_env env u peers paths ''NW_LAYER'' = Some (cstr (u_layer u))"
  "spawn_env env u peers paths ''NW_LAYER_BYTES'' = Some (dec (unat (r_layer_bytes (u_res u))))"
  by (rule var_at [of 2] var_at [of 3] var_at [of 4] var_at [of 5] var_at [of 6] var_at [of 7]
      var_at [of 8] var_at [of 9] var_at [of 10] var_at [of 11] var_at [of 12] var_at [of 13];
      simp add: unit_vars_def; fail)+

lemma spawn_res_vars:
  "spawn_env env u peers paths ''NW_CPU_MASK'' = Some (dec (unat (r_cpu_mask (u_res u))))"
  "spawn_env env u peers paths ''NW_MEM_HIGH'' = Some (dec (unat (r_mem_high (u_res u))))"
  "spawn_env env u peers paths ''NW_MEM_MAX'' = Some (dec (unat (r_mem_max (u_res u))))"
  "spawn_env env u peers paths ''NW_CPU_WEIGHT'' = Some (dec (unat (r_cpu_weight (u_res u))))"
  "spawn_env env u peers paths ''NW_NICE'' = Some (dec_int (sint (r_nice (u_res u))))"
  "spawn_env env u peers paths ''NW_SCHED_POLICY'' = Some (dec (unat (r_sched_policy (u_res u))))"
  "spawn_env env u peers paths ''NW_TASK_CAP'' = Some (dec (unat (r_task_cap (u_res u))))"
  "spawn_env env u peers paths ''NW_OOM_SCORE_ADJ'' = Some (dec_int (sint (r_oom_score_adj (u_res u))))"
  by (rule var_at [of 14] var_at [of 15] var_at [of 16] var_at [of 17] var_at [of 18] var_at [of 19]
      var_at [of 20] var_at [of 21]; simp add: unit_vars_def; fail)+

subsection \<open>Every check passes\<close>

lemma unat_ucast_up:
  "unat (ucast (b :: u8) :: u32) = unat b" "unat (ucast (h :: u16) :: u32) = unat h"
  "unat (ucast (w :: u32) :: u64) = unat w"
  using unat_bounds(1) [of b] unat_bounds(2) [of h] unat_bounds(3) [of w]
  by (simp_all add: unsigned_ucast_eq take_bit_eq_mod)

lemma ucast_up_less:
  "(ucast (b :: u8) :: u32) < ucast b' \<longleftrightarrow> b < b'" "(ucast (h :: u16) :: u32) < ucast h' \<longleftrightarrow> h < h'"
  "(ucast (w :: u32) :: u64) < ucast w' \<longleftrightarrow> w < w'"
  by (simp_all add: word_less_nat_alt unat_ucast_up)

lemma ucast_up_eq: "(ucast (b :: u8) :: u32) = ucast b' \<longleftrightarrow> b = b'"
  by (metis unat_ucast_up(1) word_unat_eq_iff)

lemma ucast_up_zero: "(ucast (b :: u8) :: u32) = 0 \<longleftrightarrow> b = 0"
  by (metis unat_ucast_up(1) unsigned_0 word_unat_eq_iff)

lemma ucast_down_up: "(ucast (ucast (w :: u32) :: u64) :: u32) = w"
  by (rule bit_word_eqI) (simp add: bit_simps)

lemma parse_lock_spawn:
  assumes "u_lock u \<le> NW_LOCK_MAX"
  shows "parse_lock (spawn_env env u peers paths) = Inr (u_lock u = NW_LOCK_LOCKED)"
proof -
  have "u_lock u = 0 \<or> u_lock u = 1"
    using assms by (simp add: nw_sets word_le_nat_alt) (metis One_nat_def le_Suc_eq le_zero_eq unat_1 unat_eq_zero word_unat_eq_iff)
  then show ?thesis
    by (auto simp: parse_lock_def env_uint_def spawn_vars die_if_def nw_sets Let_def)
qed

lemma parse_stop_spawn:
  "u_stop_signal u \<le> NW_STOPSIG_MAX \<Longrightarrow> parse_stop (spawn_env env u peers paths)
     = Inr (real_stop_signal (ucast (u_stop_signal u)))"
  by (simp add: parse_stop_def env_uint_def spawn_vars die_if_def Let_def ucast_up_less not_less)

lemma parse_grace_spawn:
  "u_grace_period u \<le> NW_GRACE_MAX_MS \<Longrightarrow>
     parse_grace (spawn_env env u peers paths) = Inr (u_grace_period u)"
  by (simp add: parse_grace_def spawn_vars die_if_def ucast_up_less not_less ucast_down_up)

lemma parse_caps_spawn:
  assumes "nw_cap_last_cap cap_file = Inr lc" "lc = 63 \<or> drop_bit (lc + 1) (u_capabilities u) = 0"
  shows "parse_caps (spawn_env env u peers paths) cap_file = Inr (u_capabilities u)"
  using assms by (auto simp: parse_caps_def spawn_vars die_if_def)

lemma parse_brick_spawn:
  assumes "length (u_brick u) = 32"
  shows "parse_brick (spawn_env env u peers paths) = Inr (c_brick (cfg_of u paths))"
proof -
  have "hex_of (u_brick u) \<noteq> []" "list_all hex_char (hex_of (u_brick u))"
    using assms hex_of_chars by (auto simp: list_all_iff simp flip: length_greater_0_conv)
  moreover have "\<not> sizeof_brickbuf \<le> length (brick_path (hex_of (u_brick u)))"
    using assms by (simp add: sizeof_brickbuf_def brick_path_def nw_limits NW_BRICK_DIR_def NW_BRICK_SUFFIX_def)
  ultimately show ?thesis
    using assms by (simp add: parse_brick_def spawn_vars die_if_def cfg_of_def nw_limits Let_def)
qed

lemma parse_layer_spawn:
  assumes "length (u_layer u) = 32" "has_layer u \<longrightarrow> name_wf (u_layer u)"
  shows "parse_layer (spawn_env env u peers paths) = Inr (c_layer (cfg_of u paths))"
proof (cases "has_layer u")
  case True
  then have "length (cstr (u_layer u)) < 32" "list_all name_char (cstr (u_layer u))"
    using assms by (simp_all add: name_wf_def padded_def)
  then show ?thesis using True
    by (simp add: parse_layer_def spawn_vars die_if_def cfg_of_def nw_limits has_layer_def)
next
  case False
  then show ?thesis by (simp add: parse_layer_def spawn_vars cfg_of_def has_layer_def)
qed

lemma parse_res_spawn:
  assumes "res_wf (u_res u) hl"
  shows "parse_res (spawn_env env u peers paths) c =
    Inr (c\<lparr>c_cpu_mask := r_cpu_mask (u_res u), c_mem_high := r_mem_high (u_res u),
      c_mem_max := r_mem_max (u_res u), c_cpu_weight := ucast (r_cpu_weight (u_res u)),
      c_nice := sint (r_nice (u_res u)), c_sched_policy := ucast (r_sched_policy (u_res u)),
      c_task_cap := r_task_cap (u_res u), c_oom_score_adj := sint (r_oom_score_adj (u_res u))\<rparr>)"
proof -
  have nice: "sint (r_nice (u_res u)) = 0 \<longleftrightarrow> r_nice (u_res u) = 0" by (simp add: signed_eq_0_iff)
  show ?thesis
    using assms unfolding res_wf_def
    by (auto simp: parse_res_def env_uint_def env_u64_dec spawn_res_vars die_if_def Let_def
        ucast_up_less ucast_up_eq not_less nice)
qed

lemma has_lid32_ucast: "has_lid32 (ucast lids) l \<longleftrightarrow> has_lid lids l"
proof -
  have "(ucast lids :: u32) AND ucast l = ucast (lids AND l)"
    by (rule bit_word_eqI) (simp add: bit_simps)
  then show ?thesis by (simp add: has_lid32_def has_lid_def ucast_up_zero)
qed

lemma parse_pairs_spawn:
  assumes wf: "unit_wf u" and paths: "length paths \<le> 128" "\<forall>p\<in>set paths. p \<noteq> []"
    and "paths \<noteq> [] \<longrightarrow> nw_unit_has_brick u"
  shows "parse_pairs (spawn_env env u peers paths) (cfg_of u paths\<lparr>c_binds := []\<rparr>)
    = Inr (cfg_of u paths)"
proof -
  have n: "sint (env_uint (spawn_env env u peers paths) ''NW_NBINDS'' 0) = int (length paths)"
    using paths(1) by (simp add: env_uint_def env_nbinds atoi_dec signed_of_nat signed_take_bit_int_eq_self)
  have b: "get_binds (spawn_env env u peers paths) 0 (length paths) = Inr paths"
    using get_binds_env [of 0 "length paths" paths] paths by simp
  have r: "r_layer_bytes (u_res u) = 0 \<or> has_layer u" "has_layer u = nw_unit_has_brick u"
    "nw_unit_has_brick u \<longrightarrow> has_lid (u_lids u) NW_LID_NEWNS"
    "has_lid (u_lids u) NW_LID_LANDLOCK \<longrightarrow> nw_unit_has_brick u"
    using wf unfolding unit_wf_def res_wf_def by blast+
  show ?thesis
    using r assms(4) paths(1)
    by (cases "nw_unit_has_brick u")
      (simp_all add: parse_pairs_def cfg_of_def die_if_def has_lid32_ucast n b Let_def nw_limits)
qed

lemma sup_parse_spawn:
  assumes wf: "unit_wf u" and ext: "unit_extents u"
    and cap: "nw_cap_last_cap cap_file = Inr lc" "lc = 63 \<or> drop_bit (lc + 1) (u_capabilities u) = 0"
    and paths: "length paths \<le> 128" "\<forall>p\<in>set paths. p \<noteq> []" "paths \<noteq> [] \<longrightarrow> nw_unit_has_brick u"
  shows "sup_parse [cstr (u_exec_path u), cstr (u_name u)] cap_file (spawn_env env u peers paths)
    = Inr (cfg_of u paths)"
proof -
  have u: "u_lock u \<le> NW_LOCK_MAX" "u_stop_signal u \<le> NW_STOPSIG_MAX"
    "u_grace_period u \<le> NW_GRACE_MAX_MS" "u_supervisor_death_policy u = 0"
    "res_wf (u_res u) (has_layer u)" "has_layer u \<longrightarrow> name_wf (u_layer u)"
    using wf unfolding unit_wf_def closed_wf_def by presburger+
  have l: "length (u_brick u) = 32" "length (u_layer u) = 32" using ext by (simp_all add: unit_extents_def)
  have sdp: "env_uint (spawn_env env u peers paths) ''NW_SUPERVISOR_DEATH_POLICY'' 0 = 0"
    using u(4) atoi_dec [of 0] by (simp add: env_uint_def spawn_vars)
  have kind: "(env_uint (spawn_env env u peers paths) ''NW_KIND'' (ucast NW_KIND_LONGRUN)
      = ucast NW_KIND_ONESHOT) = (u_kind u = NW_KIND_ONESHOT)"
    by (simp add: env_uint_def spawn_vars ucast_up_eq)
  have e: "env_uint (spawn_env env u peers paths) ''NW_LIDS'' 0 = ucast (u_lids u)"
    "env_uint (spawn_env env u peers paths) ''NW_BUDGET'' 0 = ucast (u_budget u)"
    "env_uint (spawn_env env u peers paths) ''NW_NOFILE'' 0 = u_nofile u"
    by (simp_all add: env_uint_def spawn_vars)
  have lb: "env_u64 (spawn_env env u peers paths) ''NW_LAYER_BYTES'' a b = Inr (r_layer_bytes (u_res u))" for a b
    by (simp add: env_u64_dec spawn_vars)
  show ?thesis
    using parse_pairs_spawn [OF wf paths]
    by (simp add: sup_parse_def parse_lock_spawn [OF u(1)] parse_stop_spawn [OF u(2)]
        parse_grace_spawn [OF u(3)] parse_caps_spawn [OF cap] parse_brick_spawn [OF l(1)]
        parse_layer_spawn [OF l(2) u(6)] parse_res_spawn [OF u(5)] sdp kind e lb die_if_def
        cfg_of_def)
qed

lemma handoff:
  assumes "length blob = unat len" and "nw_check blob len = Some NW_OK"
    and "i < length (nw_units blob)" and "u = nw_units blob ! i"
    and "paths = binds_of (nw_binds blob) i"
    and "nw_cap_last_cap cap_file = Inr lc" and "lc = 63 \<or> drop_bit (lc + 1) (u_capabilities u) = 0"
  shows "sup_parse [cstr (u_exec_path u), cstr (u_name u)] cap_file (spawn_env env u peers paths)
    = Inr (cfg_of u paths)"
proof (rule sup_parse_spawn [OF _ _ assms(6,7)])
  have s: "sealed_wf blob" using nw_check_decides [OF assms(1)] assms(2) by (simp add: decides_def)
  then have h: "header_wf blob" and p: "plan_wf (nw_units blob) (nw_binds blob) (nw_edges blob)"
    by (simp_all add: sealed_wf_def)
  have mem: "u \<in> set (nw_units blob)" using assms(3,4) by simp
  show "unit_wf u" using p mem by (simp add: plan_wf_def)
  show "unit_extents u"
    using unit_table_extents [of blob] h assms(3,4) by (simp add: header_wf_def Let_def)
  have "i < 65536" using h assms(3) by (simp add: header_wf_def Let_def nw_limits)
  then have ui: "unat (of_nat i :: u16) = i" by (simp add: unat_of_nat)
  have b: "bind_wf (nw_units blob) x" if "x \<in> set (nw_binds blob)" for x
    using p that by (simp add: plan_wf_def)
  have "length (nw_binds blob) \<le> 128" using h by (simp add: header_wf_def Let_def nw_limits)
  then show "length paths \<le> 128"
    using length_filter_le [of "\<lambda>b. b_unit b = of_nat i" "nw_binds blob"] by (simp add: assms(5) binds_of_def)
  have "cstr (b_path x) \<noteq> []" if "x \<in> set (nw_binds blob)" for x
    using b [OF that] unfolding bind_wf_def path_wf_def by force
  then show "\<forall>p\<in>set paths. p \<noteq> []" by (auto simp: assms(5) binds_of_def)
  show "paths \<noteq> [] \<longrightarrow> nw_unit_has_brick u"
    using b ui assms(4) by (fastforce simp: assms(5) binds_of_def bind_wf_def filter_empty_conv)
qed

text \<open>A supervisor that passed its checks knows every capability the unit declares.\<close>

lemma parsed_caps:
  assumes "sup_parse args cap_file (spawn_env env u peers paths) = Inr c" "nw_cap_last_cap cap_file = Inr lc"
  shows "lc = 63 \<or> drop_bit (lc + 1) (u_capabilities u) = 0"
proof -
  obtain caps where "parse_caps (spawn_env env u peers paths) cap_file = Inr caps"
    using assms(1) by (auto simp: sup_parse_def and_then_Inr die_if_Inr split: list.splits)
  then show ?thesis
    using assms(2) by (auto simp: parse_caps_def spawn_vars and_then_Inr die_if_Inr)
qed

text \<open>
  C10. The environment hands over the plan: take any blob the validator accepts, any of its units, any
  wires and any environment \<^verbatim>\<open>nw-spawn\<close> itself inherited. If every capability bit the unit declares is
  one the kernel has, \<^verbatim>\<open>nw-sup\<close> dies in none of its checks and ends up with exactly the fields of the
  unit: no truncation in a buffer, no value misread, nothing of the inherited environment left.
\<close>

theorem handoff_roundtrip:
  assumes "length blob = unat len" and "nw_check blob len = Some NW_OK"
    and "i < length (nw_units blob)" and "u = nw_units blob ! i"
    and "paths = binds_of (nw_binds blob) i"
    and "nw_cap_last_cap cap_file = Inr lc" and "lc = 63 \<or> drop_bit (lc + 1) (u_capabilities u) = 0"
  shows "sup_parse [cstr (u_exec_path u), cstr (u_name u)] cap_file (spawn_env env u peers paths)
    = Inr (cfg_of u paths)"
  using assms by (rule handoff)

theorem handoff_roundtrip_witness:
  "sup_parse [''/bin/web'', ''web''] (Some (''40'' @ [CHR 0x0A]))
     (spawn_env [''NW_BRICK'' \<mapsto> ''../../etc''] demo_brick_unit [''log''] [''/etc/..hidden''])
   = Inr (cfg_of demo_brick_unit [''/etc/..hidden''])"
proof -
  let ?m = "seal demo_units demo_binds demo_edges"
  have t: "nw_units ?m = demo_units" "nw_binds ?m = demo_binds"
    using seal_tables [OF demo_fits] by simp_all
  have cap: "nw_cap_last_cap (Some (''40'' @ [CHR 0x0A])) = Inr 40"
    by (simp add: nw_cap_last_cap_def cstr_def strtol_def scan_num_def space_char_def digit_char_def
        num_val_def die_if_def Let_def)
  have bits: "(40::nat) = 63 \<or> drop_bit (40 + 1) (u_capabilities demo_brick_unit) = 0"
    by (simp add: demo_brick_unit_def)
  have p: "binds_of demo_binds 0 = [''/etc/..hidden'']" by code_simp
  have c: "cstr (u_exec_path demo_brick_unit) = ''/bin/web''" "cstr (u_name demo_brick_unit) = ''web''"
    by code_simp+
  have u: "0 < length (nw_units ?m)" "demo_brick_unit = nw_units ?m ! 0"
    "[''/etc/..hidden''] = binds_of (nw_binds ?m) 0"
    unfolding t p by (simp_all add: demo_units_def)
  show ?thesis
    using handoff_roundtrip [OF seal_len_u32 [OF demo_fits] seal_accepted [OF demo_fits demo_wf]
        u cap bits]
    by (simp only: c)
qed

end
