(* ===== verification/Pid1Args.thy ===== *)
theory Pid1Args
  imports HandoffSpec
begin

text \<open>
  \<^verbatim>\<open>pid1.c\<close> up to the sealed plan: the command line, the live slot, the plan's path, the plan file.
  A \<^verbatim>\<open>halt_now\<close> is a left value with its reason. What the kernel answers to \<^verbatim>\<open>open\<close>, \<^verbatim>\<open>fstat\<close> and
  \<^verbatim>\<open>read\<close> is in the arguments.
\<close>

subsection \<open>The command line\<close>

record pid1_args =
  pa_hold :: int
  pa_plan :: "bytes option"
  pa_slot :: "bytes option"
  pa_slots :: "bytes option"
  pa_rescue :: "bytes option"
  pa_kill_spawner :: bool

definition no_args :: pid1_args where
  "no_args = \<lparr>pa_hold = 0, pa_plan = None, pa_slot = None, pa_slots = None, pa_rescue = None,
     pa_kill_spawner = False\<rparr>"

text \<open>
  The digits of \<^verbatim>\<open>--hold-ms\<close>. The C adds in \<^verbatim>\<open>int\<close>, where overflow is undefined; here it is the 32-bit
  sum of the machine, so that the guard \<^verbatim>\<open>next < v\<close> has a case to catch.
\<close>

fun hold_digits :: "u32 \<Rightarrow> bytes \<Rightarrow> u32 res" where
  "hold_digits v [] = Inr v"
| "hold_digits v (c # cs) =
     die_if (\<not> digit_char c) ''hold-ms'' (
     let next_v = v * 10 + (word_of_nat (of_char c) - 48) in
     die_if (sint next_v < sint v) ''hold-ms'' (hold_digits next_v cs))"

definition parse_hold :: "bytes \<Rightarrow> int res" where
  "parse_hold s =
     die_if (s = []) ''hold-ms'' (
     and_then (hold_digits 0 s) (\<lambda>v. die_if (sint v \<le> 0) ''hold-ms'' (Inr (sint v))))"

text \<open>An option that lacks its value, and an unknown one, is skipped; the last plan named wins.\<close>

fun parse_args :: "bytes list \<Rightarrow> pid1_args \<Rightarrow> pid1_args res" where
  "parse_args [] c = Inr c"
| "parse_args (a # rest) c =
     (if a = ''--hold-ms'' \<and> rest \<noteq> [] then
        and_then (parse_hold (hd rest)) (\<lambda>v. parse_args (tl rest) (c\<lparr>pa_hold := v\<rparr>))
      else if a = ''--kill-spawner'' then parse_args rest (c\<lparr>pa_kill_spawner := True\<rparr>)
      else if a = ''--slot'' \<and> rest \<noteq> [] then parse_args (tl rest) (c\<lparr>pa_slot := Some (hd rest)\<rparr>)
      else if a = ''--slots'' \<and> rest \<noteq> [] then parse_args (tl rest) (c\<lparr>pa_slots := Some (hd rest)\<rparr>)
      else if a = ''--rescue'' \<and> rest \<noteq> [] then parse_args (tl rest) (c\<lparr>pa_rescue := Some (hd rest)\<rparr>)
      else if a = [] \<or> hd a \<noteq> CHR ''-'' then parse_args rest (c\<lparr>pa_plan := Some a\<rparr>)
      else parse_args rest c)"

declare parse_args.simps(2) [simp del]

subsection \<open>The live slot\<close>

text \<open>What an \<^verbatim>\<open>open\<close> gives: the object, \<^verbatim>\<open>ENOENT\<close>, or another error.\<close>

datatype 'a opened = Opened 'a | Enoent | OpenFailed

definition trim_end :: "bytes \<Rightarrow> bytes" where
  "trim_end nm = rev (dropWhile (\<lambda>c. c \<in> {CHR 0x0A, CHR 0x0D, CHR '' ''}) (rev nm))"

text \<open>
  The directory, and in it the file \<^verbatim>\<open>current\<close> with its content. The result is the code and what was
  written to \<open>out\<close>.
\<close>

definition slot_from_current :: "bytes opened opened \<Rightarrow> bytes \<Rightarrow> nat \<Rightarrow> int \<times> bytes option" where
  "slot_from_current dir slots outsz =
     (case dir of Enoent \<Rightarrow> (- 3, None) | OpenFailed \<Rightarrow> (- 1, None)
      | Opened cur \<Rightarrow>
        case cur of Enoent \<Rightarrow> (- 2, None) | OpenFailed \<Rightarrow> (- 1, None)
        | Opened content \<Rightarrow>
          let nm = trim_end (take (NW_NAME_LEN - 1) content) in
          if nm = [] then (- 1, None)
          else if \<not> list_all name_char nm then (- 1, None)
          else if outsz \<le> length (slots @ ''/'' @ nm) then (- 1, None)
          else (0, Some (slots @ ''/'' @ nm)))"

definition live_slot :: "(bytes \<Rightarrow> bytes opened opened) \<Rightarrow> pid1_args \<Rightarrow> bytes option res" where
  "live_slot dirs c =
     (if pa_plan c = None \<and> pa_slot c = None then
        case pa_slots c of None \<Rightarrow> Inr None
        | Some slots \<Rightarrow>
          case slot_from_current (dirs slots) slots 384 of (sc, out) \<Rightarrow>
          die_if (sc = - 3) ''slots missing'' (
          die_if (sc = - 2) ''slot unchosen'' (
          die_if (sc < 0) ''slots/current'' (Inr out)))
      else Inr (pa_slot c))"

definition plan_path :: "pid1_args \<Rightarrow> bytes option \<Rightarrow> bytes res" where
  "plan_path c slot =
     (case pa_plan c of Some p \<Rightarrow> Inr p
      | None \<Rightarrow>
        case slot of None \<Rightarrow> Inl ''no plan''
        | Some s \<Rightarrow> die_if (512 \<le> length (s @ ''/plan.blob'')) ''slot path too long''
            (Inr (s @ ''/plan.blob'')))"

subsection \<open>The plan file\<close>

text \<open>
  What \<^verbatim>\<open>fstat\<close> says of the size, if it answers, and the bytes a \<^verbatim>\<open>read\<close> gets; a read that fails is one
  that gets none.
\<close>

record plan_file =
  pf_size :: "int option"
  pf_bytes :: bytes

definition load_plan :: "plan_file option \<Rightarrow> bytes res" where
  "load_plan f =
     (case f of None \<Rightarrow> Inl ''open plan''
      | Some pf \<Rightarrow>
        case pf_size pf of None \<Rightarrow> Inl ''stat plan''
        | Some sz \<Rightarrow>
          die_if (sz \<le> 0 \<or> uint NW_BLOB_MAX < sz) ''plan size'' (
          let blob = take (nat sz) (pf_bytes pf) in
          die_if (int (length blob) \<noteq> sz) ''plan read'' (
          die_if (nw_check blob (of_nat (length blob)) \<noteq> Some NW_OK) ''plan'' (Inr blob))))"

subsection \<open>What the arguments mean\<close>

lemma num_val_mono: "num_val xs \<le> num_val (xs @ ys)"
  by (induction ys rule: rev_induct) (simp_all add: num_val_snoc flip: append_assoc)

lemma hold_digits_exact:
  "list_all digit_char s \<Longrightarrow> num_val (ds @ s) < 2 ^ 31 \<Longrightarrow>
     hold_digits (of_nat (num_val ds)) s = Inr (of_nat (num_val (ds @ s)))"
proof (induction s arbitrary: ds)
  case Nil
  then show ?case by simp
next
  case (Cons c cs)
  let ?n = "num_val ds" and ?m = "num_val (ds @ [c])"
  have c: "digit_char c" "list_all digit_char cs" using Cons.prems(1) by simp_all
  have m: "?m = ?n * 10 + (of_char c - 48)" by (rule num_val_snoc)
  have lt: "?m < 2 ^ 31" using num_val_mono [of "ds @ [c]" cs] Cons.prems(2) by simp
  have nx: "of_nat ?n * 10 + (word_of_nat (of_char c) - 48) = (of_nat ?m :: u32)"
    using c(1) by (simp add: m digit_char_def of_nat_diff)
  have "\<not> sint (of_nat ?m :: u32) < sint (of_nat ?n :: u32)"
    using sint_small [of ?n] sint_small [of ?m] lt m
    by (simp del: of_nat_mult of_nat_add)
  then have "hold_digits (of_nat ?n) (c # cs) = hold_digits (of_nat ?m) cs"
    using c(1) by (simp add: die_if_def Let_def nx del: of_nat_mult of_nat_add)
  then show ?case using Cons.IH [OF c(2), of "ds @ [c]"] Cons.prems(2) by simp
qed

lemma hold_digits_digits: "hold_digits v s = Inr w \<Longrightarrow> list_all digit_char s"
  by (induction v s rule: hold_digits.induct) (auto simp: die_if_Inr Let_def)

text \<open>A pointer file is its name, then what \<open>make_stage\<close> puts after it.\<close>

lemma trim_end_append:
  assumes "nm \<noteq> []" "list_all name_char nm" "set ws \<subseteq> {CHR 0x0A, CHR 0x0D, CHR '' ''}"
  shows "trim_end (nm @ ws) = nm"
proof -
  have "\<not> name_char CHR 0x0A" "\<not> name_char CHR 0x0D" "\<not> name_char CHR '' ''"
    by (simp_all add: name_char_def)
  then have "last nm \<notin> {CHR 0x0A, CHR 0x0D, CHR '' ''}"
    using assms(1,2) last_in_set [of nm] unfolding list_all_iff by fastforce
  then have "dropWhile (\<lambda>c. c \<in> {CHR 0x0A, CHR 0x0D, CHR '' ''}) (rev nm) = rev nm"
    using assms(1) by (cases nm rule: rev_cases) auto
  moreover have "\<forall>c\<in>set (rev ws). c \<in> {CHR 0x0A, CHR 0x0D, CHR '' ''}" using assms(3) by auto
  ultimately show ?thesis
    unfolding trim_end_def rev_append by (simp only: dropWhile_append2 rev_rev_ident)
qed

lemma trim_end_prefix: "\<exists>ws. s = trim_end s @ ws"
  unfolding trim_end_def
  by (metis rev_append rev_rev_ident takeWhile_dropWhile_id)

lemma slot_from_current_ok:
  assumes "slot_from_current dir slots outsz = (0, out)"
  obtains content nm where "dir = Opened (Opened content)" "out = Some (slots @ ''/'' @ nm)"
    "nm = trim_end (take (NW_NAME_LEN - 1) content)" "nm \<noteq> []" "list_all name_char nm"
    "length (slots @ ''/'' @ nm) < outsz"
  using assms unfolding slot_from_current_def Let_def
  by (auto split: opened.splits if_splits simp: not_le)

lemma trim_end_length: "length (trim_end s) \<le> length s"
  using trim_end_prefix [of s] by (metis le_add1 length_append)

subsection \<open>Properties\<close>

text \<open>
  C30. The live slot cannot lie outside the slots directory, and its three failures stay distinct: the
  code is \<open>-3\<close> exactly when the directory is absent, \<open>-2\<close> exactly when only the pointer file is, and
  otherwise \<open>-1\<close> or \<open>0\<close>; a path is produced only with \<open>0\<close>, fits the buffer, and is the directory, a
  slash and a non-empty name of fewer than \<open>NW_NAME_LEN\<close> characters that are letters, digits,
  \<^verbatim>\<open>_\<close> or \<^verbatim>\<open>-\<close>, so no slash or dot of it; and a pointer file with such a name and a newline selects it.
\<close>

theorem slot_confined:
  assumes "slot_from_current dir slots outsz = (sc, out)"
  shows "(sc = - 3 \<longleftrightarrow> dir = Enoent) \<and> (sc = - 2 \<longleftrightarrow> dir = Opened Enoent) \<and> sc \<in> {- 3, - 2, - 1, 0}
    \<and> (out \<noteq> None \<longleftrightarrow> sc = 0)
    \<and> (\<forall>p. out = Some p \<longrightarrow> length p < outsz \<and> (\<exists>nm. p = slots @ ''/'' @ nm \<and> nm \<noteq> []
         \<and> length nm < NW_NAME_LEN \<and> list_all name_char nm
         \<and> CHR ''/'' \<notin> set nm \<and> CHR ''.'' \<notin> set nm))
    \<and> (\<forall>nm. dir = Opened (Opened (nm @ [CHR 0x0A])) \<and> nm \<noteq> [] \<and> length nm < NW_NAME_LEN
         \<and> list_all name_char nm \<and> length (slots @ ''/'' @ nm) < outsz
         \<longrightarrow> out = Some (slots @ ''/'' @ nm))"
proof -
  have codes: "(sc = - 3 \<longleftrightarrow> dir = Enoent) \<and> (sc = - 2 \<longleftrightarrow> dir = Opened Enoent)
      \<and> sc \<in> {- 3, - 2, - 1, 0} \<and> (out \<noteq> None \<longleftrightarrow> sc = 0)"
    using assms unfolding slot_from_current_def Let_def by (auto split: opened.splits if_splits)
  have path: "length p < outsz \<and> (\<exists>nm. p = slots @ ''/'' @ nm \<and> nm \<noteq> []
      \<and> length nm < NW_NAME_LEN \<and> list_all name_char nm \<and> CHR ''/'' \<notin> set nm \<and> CHR ''.'' \<notin> set nm)"
    if p: "out = Some p" for p
  proof -
    have "slot_from_current dir slots outsz = (0, Some p)" using assms codes p by simp
    then obtain content nm where n: "Some p = Some (slots @ ''/'' @ nm)"
      "nm = trim_end (take (NW_NAME_LEN - 1) content)" "nm \<noteq> []" "list_all name_char nm"
      "length (slots @ ''/'' @ nm) < outsz"
      by (rule slot_from_current_ok)
    have "length nm < NW_NAME_LEN"
      using trim_end_length [of "take (NW_NAME_LEN - 1) content"] n(2) by (simp add: nw_limits)
    moreover have "CHR ''/'' \<notin> set nm \<and> CHR ''.'' \<notin> set nm"
      using n(4) name_char_not_slash by (auto simp: list_all_iff)
    ultimately show ?thesis using n by auto
  qed
  have pick: "out = Some (slots @ ''/'' @ nm)"
    if d: "dir = Opened (Opened (nm @ [CHR 0x0A]))" and n: "nm \<noteq> []" "length nm < NW_NAME_LEN"
      "list_all name_char nm" "length (slots @ ''/'' @ nm) < outsz" for nm
  proof -
    obtain ws where ws: "take (NW_NAME_LEN - 1) (nm @ [CHR 0x0A]) = nm @ ws" "set ws \<subseteq> {CHR 0x0A}"
      using n(2) by (cases "length nm = NW_NAME_LEN - 1") (auto simp: nw_limits)
    then have "trim_end (take (NW_NAME_LEN - 1) (nm @ [CHR 0x0A])) = nm"
      using trim_end_append [OF n(1,3), of ws] by auto
    then show ?thesis
      using assms n by (simp add: slot_from_current_def d Let_def not_le)
  qed
  show ?thesis using codes path pick by blast
qed

theorem slot_confined_witness:
  "slot_from_current (Opened (Opened ''B-2\<newline>'')) ''/slots'' 384 = (0, Some ''/slots/B-2'')
   \<and> slot_from_current (Opened (Opened ''../etc\<newline>'')) ''/slots'' 384 = (- 1, None)"
proof -
  have e: "slot_from_current (Opened (Opened ''B-2\<newline>'')) ''/slots'' 384 = (0, Some ''/slots/B-2'')"
    "slot_from_current (Opened (Opened ''../etc\<newline>'')) ''/slots'' 384 = (- 1, None)"
    by code_simp+
  show ?thesis using e slot_confined [OF e(1)] by blast
qed

text \<open>A name longer than the field is not refused: its first 31 characters are taken for the name.\<close>

lemma slot_name_cut:
  "slot_from_current (Opened (Opened (replicate 31 CHR ''A'' @ ''B\<newline>''))) ''/slots'' 384
   = slot_from_current (Opened (Opened (replicate 31 CHR ''A'' @ [CHR 0x0A]))) ''/slots'' 384"
  by code_simp

text \<open>
  \<^verbatim>\<open>--hold-ms\<close> takes exactly the positive decimals an \<^verbatim>\<open>int\<close> can hold: a string with another
  character, the empty string and zero halt, and a decimal below \<open>2^31\<close> is taken at its value.
\<close>

lemma hold_ms_exact:
  assumes "num_val s < 2 ^ 31"
  shows "parse_hold s = (if s \<noteq> [] \<and> list_all digit_char s \<and> num_val s \<noteq> 0
     then Inr (int (num_val s)) else Inl ''hold-ms'')"
proof (cases "list_all digit_char s")
  case True
  have "hold_digits 0 s = Inr (of_nat (num_val s))"
    using hold_digits_exact [OF True, of "[]"] assms by (simp add: num_val_def)
  then show ?thesis using True assms by (simp add: parse_hold_def die_if_def sint_small)
next
  case False
  have "x = ''hold-ms''" if "hold_digits v t = Inl x" for v t x
    using that by (induction v t rule: hold_digits.induct) (auto simp: die_if_def Let_def split: if_splits)
  then show ?thesis
    using False hold_digits_digits [of 0 s] by (cases "hold_digits 0 s") (auto simp: parse_hold_def die_if_def)
qed

lemma hold_ms_exact_example:
  "parse_hold ''800'' = Inr 800 \<and> parse_hold ''-1'' = Inl ''hold-ms'' \<and> parse_hold ''0'' = Inl ''hold-ms''"
proof -
  have v: "num_val ''800'' = 800" "num_val ''-1'' = 1" "num_val ''0'' = 0" by code_simp+
  have d: "list_all digit_char ''800''" "\<not> list_all digit_char ''-1''" by code_simp+
  show ?thesis
    using hold_ms_exact [of "''800''"] hold_ms_exact [of "''-1''"] hold_ms_exact [of "''0''"] v d by simp
qed

text \<open>
  Past that the guard does not refuse every overflow: the sum of the machine can wrap to a larger
  number, and the city then holds for a time nobody asked for.
\<close>

lemma hold_ms_wraps: "parse_hold ''9999999999'' = Inr 1410065407"
  by (simp add: parse_hold_def die_if_def Let_def digit_char_def)

text \<open>The plan PID 1 accepts is the file's whole content, and the re-check of the spawner accepts it.\<close>

lemma load_plan_eq:
  "load_plan (Some \<lparr>pf_size = Some (int (length content)), pf_bytes = content\<rparr>) =
     die_if (content = [] \<or> 35608 < length content) ''plan size'' (
     die_if (nw_check content (of_nat (length content)) \<noteq> Some NW_OK) ''plan'' (Inr content))"
proof -
  have "uint NW_BLOB_MAX = 35608" by (simp add: NW_BLOB_MAX_val)
  then show ?thesis by (simp add: load_plan_def Let_def die_if_def)
qed

lemma load_plan_exact:
  assumes "load_plan (Some \<lparr>pf_size = Some (int (length content)), pf_bytes = content\<rparr>) = Inr blob"
  shows "blob = content" "content \<noteq> []" "length content \<le> 35608"
    "nw_check content (of_nat (length content)) = Some NW_OK"
  using assms unfolding load_plan_eq die_if_Inr by auto

end
