(* ===== verification/FdTable.thy ===== *)
theory FdTable
  imports NwPrelude
begin

text \<open>
  A process's descriptor table, as far as the program uses it: each open descriptor has an open file
  and the close-on-exec flag. The operations answer as POSIX says: a new descriptor is the lowest
  free one, \<^verbatim>\<open>F_DUPFD_CLOEXEC\<close> takes the lowest free one from its argument on, \<^verbatim>\<open>dup2\<close> onto itself
  changes nothing and otherwise replaces the target with the flag clear. \<open>limit\<close> is the resource
  limit: no descriptor at or above it is handed out. \<open>None\<close> is a failed call.
\<close>

record 'f desc =
  d_file :: 'f
  d_cloexec :: bool

type_synonym 'f fdtab = "nat \<rightharpoonup> 'f desc"

definition lowest_free :: "nat \<Rightarrow> nat \<Rightarrow> 'f fdtab \<Rightarrow> nat option" where
  "lowest_free limit lo t = find (\<lambda>fd. t fd = None) [lo..<limit]"

definition fd_new :: "nat \<Rightarrow> 'f \<Rightarrow> bool \<Rightarrow> 'f fdtab \<Rightarrow> (nat \<times> 'f fdtab) option" where
  "fd_new limit f cloexec t = (case lowest_free limit 0 t of None \<Rightarrow> None
     | Some fd \<Rightarrow> Some (fd, t(fd \<mapsto> \<lparr>d_file = f, d_cloexec = cloexec\<rparr>)))"

definition fd_open :: "nat \<Rightarrow> 'f \<Rightarrow> 'f fdtab \<Rightarrow> (nat \<times> 'f fdtab) option" where
  "fd_open limit f t = fd_new limit f True t"

definition fd_dupfd :: "nat \<Rightarrow> nat \<Rightarrow> nat \<Rightarrow> 'f fdtab \<Rightarrow> (nat \<times> 'f fdtab) option" where
  "fd_dupfd limit lo fd t = (case t fd of None \<Rightarrow> None
     | Some d \<Rightarrow> case lowest_free limit lo t of None \<Rightarrow> None
     | Some fd' \<Rightarrow> Some (fd', t(fd' \<mapsto> \<lparr>d_file = d_file d, d_cloexec = True\<rparr>)))"

definition fd_dup2 :: "nat \<Rightarrow> nat \<Rightarrow> nat \<Rightarrow> 'f fdtab \<Rightarrow> 'f fdtab option" where
  "fd_dup2 limit a b t = (case t a of None \<Rightarrow> None
     | Some d \<Rightarrow> if a = b then Some t
         else if limit \<le> b then None
         else Some (t(b \<mapsto> \<lparr>d_file = d_file d, d_cloexec = False\<rparr>)))"

definition fd_close :: "nat \<Rightarrow> 'f fdtab \<Rightarrow> 'f fdtab" where
  "fd_close fd t = t(fd := None)"

definition fd_clear_cloexec :: "nat \<Rightarrow> 'f fdtab \<Rightarrow> 'f fdtab option" where
  "fd_clear_cloexec fd t = (case t fd of None \<Rightarrow> None
     | Some d \<Rightarrow> Some (t(fd \<mapsto> d\<lparr>d_cloexec := False\<rparr>)))"

text \<open>What \<^verbatim>\<open>execve\<close> leaves open.\<close>

definition fd_exec :: "'f fdtab \<Rightarrow> 'f fdtab" where
  "fd_exec t = (\<lambda>fd. case t fd of None \<Rightarrow> None | Some d \<Rightarrow> if d_cloexec d then None else Some d)"

lemma lowest_free_Some:
  assumes "lowest_free limit lo t = Some fd"
  shows "lo \<le> fd" "fd < limit" "t fd = None" "\<forall>j. lo \<le> j \<and> j < fd \<longrightarrow> t j \<noteq> None"
proof -
  from assms obtain i where i: "i < length [lo..<limit]" "t ([lo..<limit] ! i) = None"
    "fd = [lo..<limit] ! i" "\<forall>j<i. t ([lo..<limit] ! j) \<noteq> None"
    unfolding lowest_free_def by (auto simp: find_Some_iff)
  then show "lo \<le> fd" "fd < limit" "t fd = None" by auto
  show "\<forall>j. lo \<le> j \<and> j < fd \<longrightarrow> t j \<noteq> None"
  proof (intro allI impI)
    fix j assume j: "lo \<le> j \<and> j < fd"
    then have "j - lo < i" "[lo..<limit] ! (j - lo) = j" using i(1,3) by auto
    then show "t j \<noteq> None" using i(4) by force
  qed
qed

lemma lowest_free_None:
  "lowest_free limit lo t = None \<longleftrightarrow> (\<forall>fd. lo \<le> fd \<and> fd < limit \<longrightarrow> t fd \<noteq> None)"
  by (auto simp: lowest_free_def find_None_iff)

text \<open>With fewer open descriptors than the limit allows, there is a free one.\<close>

lemma lowest_free_room:
  assumes "finite (dom t)" "card {fd \<in> dom t. lo \<le> fd} < limit - lo"
  shows "\<exists>fd. lowest_free limit lo t = Some fd"
proof (rule ccontr)
  assume "\<nexists>fd. lowest_free limit lo t = Some fd"
  then have "lowest_free limit lo t = None" by simp
  then have "{lo..<limit} \<subseteq> {fd \<in> dom t. lo \<le> fd}" by (auto simp: lowest_free_None)
  then have "card {lo..<limit} \<le> card {fd \<in> dom t. lo \<le> fd}"
    using assms(1) by (intro card_mono) auto
  then show False using assms(2) by simp
qed

lemma fd_new_Some:
  assumes "fd_new limit f c t = Some (fd, t')"
  shows "fd < limit" "t fd = None" "t' = t(fd \<mapsto> \<lparr>d_file = f, d_cloexec = c\<rparr>)"
    "\<forall>j<fd. t j \<noteq> None"
  using assms lowest_free_Some [of limit 0 t] by (auto simp: fd_new_def split: option.splits)

lemma fd_new_room:
  assumes "finite (dom t)" "card (dom t) < limit"
  shows "\<exists>fd t'. fd_new limit f c t = Some (fd, t')"
proof -
  have "card {fd \<in> dom t. 0 \<le> fd} < limit - 0" using assms by simp
  from lowest_free_room [OF assms(1) this] show ?thesis by (auto simp: fd_new_def)
qed

text \<open>Which number a new descriptor gets, and when there is none.\<close>

lemma lowest_free_is:
  assumes "lo \<le> fd" "fd < limit" "t fd = None" "\<forall>j. lo \<le> j \<and> j < fd \<longrightarrow> t j \<noteq> None"
  shows "lowest_free limit lo t = Some fd"
proof (cases "lowest_free limit lo t")
  case None
  then show ?thesis using assms(1-3) unfolding lowest_free_None by blast
next
  case (Some x)
  note x = lowest_free_Some [OF Some]
  have "\<not> x < fd" using x(1,3) assms(4) by blast
  moreover have "\<not> fd < x" using x(4) assms(1,3) by blast
  ultimately show ?thesis using Some by simp
qed

lemma fd_new_is:
  assumes "fd < limit" "t fd = None" "\<forall>j<fd. t j \<noteq> None"
  shows "fd_new limit f c t = Some (fd, t(fd \<mapsto> \<lparr>d_file = f, d_cloexec = c\<rparr>))"
  using lowest_free_is [of 0 fd limit t] assms by (simp add: fd_new_def)

lemma fd_new_full: "\<forall>j<limit. t j \<noteq> None \<Longrightarrow> fd_new limit f c t = None"
  using lowest_free_None [of limit 0 t] by (simp add: fd_new_def)

text \<open>Opening and closing again leaves the table as it was.\<close>

lemma fd_new_close:
  "fd_new limit f c t = Some (fd, t') \<Longrightarrow> fd_close fd t' = t"
  using fd_new_Some [of limit f c t fd t'] by (auto simp: fd_close_def)

end
