(* ===== verification/Spawn.thy ===== *)
theory Spawn
  imports FdTable Blob
begin

text \<open>
  \<^verbatim>\<open>nwspawn.c\<close>, the descriptors: the sweep \<^verbatim>\<open>close_others\<close>, and \<^verbatim>\<open>pack_kit\<close>, which turns the table a
  forked child inherited into the one its house starts with. The files are abstract: what the proof
  follows is which file each descriptor refers to.
\<close>

definition kept :: "nat \<Rightarrow> nat list \<Rightarrow> bool" where
  "kept fd keep \<longleftrightarrow> list_ex (\<lambda>k. k = fd) keep"

text \<open>
  How the sweep learns what is open: through \<^verbatim>\<open>/proc/self/fd\<close>, or, when that cannot be opened, by
  trying every number up to \<open>NW_FD_SWEEP\<close>; a directory that opens but gives no stream is fatal. The
  listing is of the descriptors below \<open>limit\<close>; the one of the directory itself is closed with it.
\<close>

datatype proc_dir = ProcListed | ProcAbsent | ProcNoStream

fun close_others :: "proc_dir \<Rightarrow> nat \<Rightarrow> nat list \<Rightarrow> 'f fdtab \<Rightarrow> 'f fdtab option" where
  "close_others ProcAbsent limit keep t =
     Some (fold (\<lambda>fd t. if kept fd keep then t else fd_close fd t) [0..<NW_FD_SWEEP] t)"
| "close_others ProcNoStream limit keep t = None"
| "close_others ProcListed limit keep t =
     (let doomed = filter (\<lambda>fd. t fd \<noteq> None \<and> \<not> kept fd keep) [0..<limit] in
      if NW_FD_SWEEP < length doomed then None
      else Some (fold fd_close doomed t))"

text \<open>All scratch allocation first: one duplicate of each wire's descriptor.\<close>

fun scratch_wires :: "nat \<Rightarrow> nat list \<Rightarrow> 'f fdtab \<Rightarrow> (nat list \<times> 'f fdtab) option" where
  "scratch_wires limit [] t = Some ([], t)"
| "scratch_wires limit (w # ws) t =
     (case fd_dupfd limit 3 w t of None \<Rightarrow> None
      | Some (s, t') \<Rightarrow> case scratch_wires limit ws t' of None \<Rightarrow> None
      | Some (ss, t'') \<Rightarrow> Some (s # ss, t''))"

text \<open>Placement: slots 3, 4, 5 in the order the wires were collected.\<close>

fun place_wires :: "nat \<Rightarrow> nat \<Rightarrow> nat list \<Rightarrow> 'f fdtab \<Rightarrow> 'f fdtab option" where
  "place_wires limit target [] t = Some t"
| "place_wires limit target (s # ss) t =
     (case fd_dup2 limit s target t of None \<Rightarrow> None
      | Some t1 \<Rightarrow>
        let t2 = (if s \<noteq> target then fd_close s t1 else t1) in
        case fd_clear_cloexec target t2 of None \<Rightarrow> None
      | Some t3 \<Rightarrow> place_wires limit (Suc target) ss t3)"

definition clear3 :: "'f fdtab \<Rightarrow> 'f fdtab option" where
  "clear3 t = (case fd_clear_cloexec 0 t of None \<Rightarrow> None
     | Some t1 \<Rightarrow> case fd_clear_cloexec 1 t1 of None \<Rightarrow> None
     | Some t2 \<Rightarrow> fd_clear_cloexec 2 t2)"

text \<open>The part of \<^verbatim>\<open>pack_kit\<close> after the sweep: the first three slots, then the wires.\<close>

definition place_kit :: "nat \<Rightarrow> nat \<Rightarrow> nat \<Rightarrow> nat list \<Rightarrow> 'f fdtab \<Rightarrow> 'f fdtab option" where
  "place_kit limit nullfd logn scratch t4 =
     (case fd_dup2 limit nullfd 0 t4 of None \<Rightarrow> None
      | Some t5 \<Rightarrow> case fd_dup2 limit logn 1 t5 of None \<Rightarrow> None
      | Some t6 \<Rightarrow> case fd_dup2 limit logn 2 t6 of None \<Rightarrow> None
      | Some t7 \<Rightarrow>
        case clear3 (let t8 = (if 2 < nullfd then fd_close nullfd t7 else t7) in
          if 2 < logn then fd_close logn t8 else t8) of None \<Rightarrow> None
      | Some t10 \<Rightarrow> place_wires limit 3 scratch t10)"

text \<open>\<open>null\<close> is the file of \<^verbatim>\<open>/dev/null\<close>. \<open>None\<close> is a return of \<open>-1\<close> or a \<^verbatim>\<open>die\<close> in the sweep.\<close>

definition pack_kit :: "proc_dir \<Rightarrow> nat \<Rightarrow> 'f \<Rightarrow> nat \<Rightarrow> nat list \<Rightarrow> 'f fdtab \<Rightarrow> 'f fdtab option" where
  "pack_kit proc limit null log_w wire_fd t =
     (case fd_open limit null t of None \<Rightarrow> None
      | Some (nullfd, t1) \<Rightarrow> case fd_dupfd limit 3 log_w t1 of None \<Rightarrow> None
      | Some (logn, t2) \<Rightarrow> case scratch_wires limit wire_fd t2 of None \<Rightarrow> None
      | Some (scratch, t3) \<Rightarrow>
        case close_others proc limit (nullfd # logn # scratch) t3 of None \<Rightarrow> None
      | Some t4 \<Rightarrow> place_kit limit nullfd logn scratch t4)"

subsection \<open>The sweep\<close>

lemma kept_iff: "kept fd keep \<longleftrightarrow> fd \<in> set keep"
  by (auto simp: kept_def list_ex_iff)

lemma fold_close: "fold fd_close fds t = (\<lambda>fd. if fd \<in> set fds then None else t fd)"
  by (induction fds arbitrary: t) (auto simp: fd_close_def fun_eq_iff)

lemma fold_close_unless:
  "fold (\<lambda>fd t. if P fd then t else fd_close fd t) fds t =
   (\<lambda>fd. if fd \<in> set fds \<and> \<not> P fd then None else t fd)"
  by (induction fds arbitrary: t) (auto simp: fd_close_def fun_eq_iff)

text \<open>
  A table whose descriptors are below the limit, and below what the blind sweep covers, is reduced
  to what is kept.
\<close>

lemma close_others_keeps:
  assumes "close_others proc limit keep t = Some t'" "\<forall>fd\<in>dom t. fd < limit"
    and "proc = ProcAbsent \<longrightarrow> limit \<le> NW_FD_SWEEP"
  shows "t' = (\<lambda>fd. if fd \<in> set keep then t fd else None)"
proof (cases proc)
  case ProcListed
  let ?doomed = "filter (\<lambda>fd. t fd \<noteq> None \<and> \<not> kept fd keep) [0..<limit]"
  have "t' = (\<lambda>fd. if fd \<in> set ?doomed then None else t fd)"
    using ProcListed assms(1) by (auto simp: fold_close Let_def split: if_splits)
  moreover have "fd \<in> set ?doomed \<longleftrightarrow> t fd \<noteq> None \<and> fd \<notin> set keep" for fd
    using assms(2) by (auto simp: kept_iff)
  ultimately show ?thesis by (auto simp: fun_eq_iff)
next
  case ProcAbsent
  then have "t' = (\<lambda>fd. if fd \<in> set [0..<NW_FD_SWEEP] \<and> fd \<notin> set keep then None else t fd)"
    using assms(1) by (simp add: fold_close_unless kept_iff)
  moreover have "t fd = None" if "NW_FD_SWEEP \<le> fd" for fd
    using that assms(2,3) ProcAbsent by (metis domIff leD le_trans)
  ultimately show ?thesis by (auto simp: fun_eq_iff not_less)
next
  case ProcNoStream
  then show ?thesis using assms(1) by simp
qed

lemma close_others_succeeds:
  assumes "proc \<noteq> ProcNoStream" "limit \<le> NW_FD_SWEEP"
  shows "\<exists>t'. close_others proc limit keep t = Some t'"
proof (cases proc)
  case ProcListed
  have "length (filter P [0..<limit]) \<le> NW_FD_SWEEP" for P
    using length_filter_le [of P "[0..<limit]"] assms(2) by simp
  then show ?thesis using ProcListed by (simp add: Let_def not_less)
qed (use assms in simp_all)

subsection \<open>Scratch descriptors\<close>

definition at :: "'f fdtab \<Rightarrow> nat \<Rightarrow> 'f \<Rightarrow> bool \<Rightarrow> bool" where
  "at t fd f c \<longleftrightarrow> t fd = Some \<lparr>d_file = f, d_cloexec = c\<rparr>"

definition below :: "nat \<Rightarrow> 'f fdtab \<Rightarrow> bool" where
  "below limit t \<longleftrightarrow> (\<forall>fd\<in>dom t. fd < limit)"

lemma dupfd_Some:
  assumes "fd_dupfd limit lo fd t = Some (s, t')"
  obtains d where "t fd = Some d" "lo \<le> s" "s < limit" "t s = None"
    "\<forall>j. lo \<le> j \<and> j < s \<longrightarrow> t j \<noteq> None"
    "t' = t(s \<mapsto> \<lparr>d_file = d_file d, d_cloexec = True\<rparr>)"
  using assms lowest_free_Some [of limit lo t s]
  by (auto simp: fd_dupfd_def split: option.splits)

text \<open>
  The scratch descriptors are fresh, above everything allocated before them, increasing, and refer
  to the files of the wires; everything else in the table stays.
\<close>

lemma scratch_wires_Some:
  "scratch_wires limit ws t = Some (ss, t') \<Longrightarrow> below limit t \<Longrightarrow>
     \<forall>j. 3 \<le> j \<and> j < lo \<longrightarrow> t j \<noteq> None \<Longrightarrow> 3 \<le> lo \<Longrightarrow>
     \<forall>w\<in>set ws. t w = Some (D w) \<Longrightarrow>
     length ss = length ws \<and> below limit t' \<and> sorted_wrt (<) ss \<and> (\<forall>s\<in>set ss. lo \<le> s \<and> t s = None)
     \<and> (\<forall>fd. fd \<notin> set ss \<longrightarrow> t' fd = t fd)
     \<and> (\<forall>k<length ws. at t' (ss ! k) (d_file (D (ws ! k))) True)"
proof (induction ws arbitrary: t ss lo)
  case Nil
  then show ?case by simp
next
  case (Cons w ws)
  from Cons.prems(1) obtain s t1 ss' where d: "fd_dupfd limit 3 w t = Some (s, t1)"
    and r: "scratch_wires limit ws t1 = Some (ss', t')" and ss: "ss = s # ss'"
    by (auto split: option.splits)
  from d obtain d where s: "t w = Some d" "3 \<le> s" "s < limit" "t s = None"
    "\<forall>j. 3 \<le> j \<and> j < s \<longrightarrow> t j \<noteq> None" "t1 = t(s \<mapsto> \<lparr>d_file = d_file d, d_cloexec = True\<rparr>)"
    by (rule dupfd_Some)
  have lo: "lo \<le> s" using s(2,4) Cons.prems(3) by (meson not_le)
  have 1: "below limit t1" "\<forall>j. 3 \<le> j \<and> j < Suc s \<longrightarrow> t1 j \<noteq> None"
    using Cons.prems(2) s by (auto simp: below_def less_Suc_eq)
  have 2: "\<forall>w\<in>set ws. t1 w = Some (D w)"
    using Cons.prems(5) s(4,6) by force
  have 3: "3 \<le> Suc s" using s(2) by simp
  from Cons.IH [OF r 1 3 2] have IH: "length ss' = length ws" "below limit t'" "sorted_wrt (<) ss'"
    "\<forall>x\<in>set ss'. Suc s \<le> x \<and> t1 x = None" "\<forall>fd. fd \<notin> set ss' \<longrightarrow> t' fd = t1 fd"
    "\<forall>k<length ws. at t' (ss' ! k) (d_file (D (ws ! k))) True"
    by blast+
  have "s \<notin> set ss'" using IH(4) by force
  then have "t' s = t1 s" using IH(5) by blast
  moreover have "d = D w" using s(1) Cons.prems(5) by simp
  ultimately have "at t' s (d_file (D w)) True" by (simp add: at_def s(6))
  then have "\<forall>k<length (w # ws). at t' (ss ! k) (d_file (D ((w # ws) ! k))) True"
    using IH(6) ss by (simp add: nth_Cons split: nat.split)
  moreover have "\<forall>x\<in>set ss'. s < x \<and> lo \<le> x \<and> t x = None"
  proof
    fix x assume "x \<in> set ss'"
    then have "Suc s \<le> x" "t1 x = None" using IH(4) by blast+
    then show "s < x \<and> lo \<le> x \<and> t x = None" using lo s(6) by (simp split: if_splits)
  qed
  moreover have "\<forall>fd. fd \<notin> set ss \<longrightarrow> t' fd = t fd" using IH(5) s(6) ss by simp
  ultimately show ?case using IH(1-3) ss lo s(4) by simp
qed

text \<open>
  With the standard streams open, the descriptors from 3 on run out exactly when the table is full.
\<close>

definition stdio :: "'f fdtab \<Rightarrow> bool" where
  "stdio t \<longleftrightarrow> t 0 \<noteq> None \<and> t 1 \<noteq> None \<and> t 2 \<noteq> None"

lemma lowest_free_stdio:
  assumes fin: "finite (dom t)" and std: "stdio t" and room: "card (dom t) < limit"
  shows "\<exists>fd. lowest_free limit 3 t = Some fd"
proof (rule lowest_free_room [OF fin])
  have sub: "{0, 1, 2} \<subseteq> dom t" using std by (auto simp: stdio_def)
  have c: "card {0, 1, 2 :: nat} = 3" by simp
  have "{fd \<in> dom t. 3 \<le> fd} = dom t - {0, 1, 2}" by auto
  then have "card {fd \<in> dom t. 3 \<le> fd} = card (dom t) - 3"
    using card_Diff_subset [OF _ sub] c by simp
  moreover have "3 \<le> card (dom t)" using card_mono [OF fin sub] c by simp
  ultimately show "card {fd \<in> dom t. 3 \<le> fd} < limit - 3" using room by simp
qed

lemma dupfd_card:
  assumes "fd_dupfd limit lo w t = Some (s, t')" "finite (dom t)" "below limit t"
  shows "finite (dom t') \<and> card (dom t') = Suc (card (dom t)) \<and> below limit t' \<and> t s = None
    \<and> dom t' = insert s (dom t)"
  using assms(1) by (rule dupfd_Some) (use assms(2,3) in \<open>simp add: domIff card_insert_if below_def\<close>)

lemma scratch_wires_card:
  "scratch_wires limit ws t = Some (ss, t') \<Longrightarrow> finite (dom t) \<Longrightarrow> below limit t \<Longrightarrow>
     finite (dom t') \<and> card (dom t') = card (dom t) + length ws \<and> below limit t'"
proof (induction ws arbitrary: t ss)
  case Nil
  then show ?case by simp
next
  case (Cons w ws)
  from Cons.prems(1) obtain s t1 ss' where d: "fd_dupfd limit 3 w t = Some (s, t1)"
    and r: "scratch_wires limit ws t1 = Some (ss', t')"
    by (auto split: option.splits)
  have "finite (dom t1)" "card (dom t1) = Suc (card (dom t))" "below limit t1"
    using dupfd_card [OF d Cons.prems(2,3)] by blast+
  with Cons.IH [OF r this(1,3)] show ?case by simp
qed

lemma scratch_wires_room:
  "finite (dom t) \<Longrightarrow> stdio t \<Longrightarrow> \<forall>w\<in>set ws. t w \<noteq> None \<Longrightarrow> card (dom t) + length ws \<le> limit \<Longrightarrow>
     \<exists>ss t'. scratch_wires limit ws t = Some (ss, t')"
proof (induction ws arbitrary: t)
  case Nil
  then show ?case by simp
next
  case (Cons w ws)
  then obtain d where d: "t w = Some d" by auto
  obtain s where s: "lowest_free limit 3 t = Some s"
    using lowest_free_stdio [OF Cons.prems(1,2)] Cons.prems(4) by fastforce
  let ?t = "t(s \<mapsto> \<lparr>d_file = d_file d, d_cloexec = True\<rparr>)"
  have "card (dom ?t) = Suc (card (dom t))"
    using lowest_free_Some(3) [OF s] Cons.prems(1) by (simp add: domIff card_insert_if)
  then have "card (dom ?t) + length ws \<le> limit"
    using Cons.prems(4) by (simp del: dom_fun_upd)
  moreover have "finite (dom ?t)" "stdio ?t" "\<forall>w\<in>set ws. ?t w \<noteq> None"
    using Cons.prems(1-3) by (simp_all add: stdio_def)
  ultimately obtain ss t' where "scratch_wires limit ws ?t = Some (ss, t')"
    using Cons.IH by blast
  then show ?case using d s by (simp add: fd_dupfd_def)
qed

subsection \<open>Placement\<close>

lemma place_wires_spec:
  "sorted_wrt (<) ss \<Longrightarrow> \<forall>s\<in>set ss. target \<le> s \<and> s < limit \<Longrightarrow> length fs = length ss \<Longrightarrow>
     \<forall>k<length ss. \<exists>c. at t (ss ! k) (fs ! k) c \<Longrightarrow>
     place_wires limit target ss t = Some (\<lambda>fd.
       if target \<le> fd \<and> fd < target + length ss
       then Some \<lparr>d_file = fs ! (fd - target), d_cloexec = False\<rparr>
       else if fd \<in> set ss then None else t fd)"
proof (induction ss arbitrary: target t fs)
  case Nil
  then show ?case by (auto simp: fun_eq_iff)
next
  case (Cons s ss)
  obtain f fs' where fs: "fs = f # fs'" using Cons.prems(3) by (cases fs) auto
  obtain c where c: "at t s f c" using Cons.prems(4) fs by force
  let ?d = "\<lparr>d_file = f, d_cloexec = False\<rparr>"
  define t3 where "t3 = (if s = target then t(target \<mapsto> ?d) else t(s := None, target \<mapsto> ?d))"
  have gt: "\<forall>x\<in>set ss. s < x" using Cons.prems(1) by simp
  have s: "target \<le> s" "s < limit" using Cons.prems(2) by simp_all
  have step: "place_wires limit target (s # ss) t = place_wires limit (Suc target) ss t3"
    using c s by (auto simp: fd_dup2_def fd_clear_cloexec_def fd_close_def at_def t3_def fun_upd_twist)
  have "\<exists>c. at t3 (ss ! k) (fs' ! k) c" if k: "k < length ss" for k
  proof -
    have "ss ! k \<noteq> s" "ss ! k \<noteq> target" using gt k s(1) by (metis leD nth_mem less_irrefl)+
    moreover obtain c' where "at t (ss ! k) (fs' ! k) c'" using Cons.prems(4) k fs by force
    ultimately show ?thesis by (auto simp: t3_def at_def)
  qed
  moreover have "\<forall>x\<in>set ss. Suc target \<le> x \<and> x < limit"
    using gt s(1) Cons.prems(2) by (metis Suc_leI le_less_trans list.set_intros(2))
  ultimately have IH: "place_wires limit (Suc target) ss t3 = Some (\<lambda>fd.
       if Suc target \<le> fd \<and> fd < Suc target + length ss
       then Some \<lparr>d_file = fs' ! (fd - Suc target), d_cloexec = False\<rparr>
       else if fd \<in> set ss then None else t3 fd)"
    using Cons.IH [of "Suc target" fs' t3] Cons.prems(1,3) fs by simp
  have "target \<notin> set ss" using gt s(1) by (meson leD)
  show ?case
    unfolding step IH
  proof (rule arg_cong [where f = Some], rule ext)
    fix fd
    show "(if Suc target \<le> fd \<and> fd < Suc target + length ss
       then Some \<lparr>d_file = fs' ! (fd - Suc target), d_cloexec = False\<rparr>
       else if fd \<in> set ss then None else t3 fd) =
      (if target \<le> fd \<and> fd < target + length (s # ss)
       then Some \<lparr>d_file = fs ! (fd - target), d_cloexec = False\<rparr>
       else if fd \<in> set (s # ss) then None else t fd)"
      using \<open>target \<notin> set ss\<close> s(1)
      by (cases "fd = target") (auto simp: fs t3_def nth_Cons' Suc_le_eq diff_Suc split: nat.split)
  qed
qed

subsection \<open>The kit\<close>

text \<open>The table after the sweep and the first three slots: \<open>t4\<close> holds what was kept.\<close>

lemma kit_base:
  assumes "at t4 nullfd null True" "at t4 logn lg True" "3 \<le> logn" "nullfd \<noteq> logn" "2 < limit"
    and "\<forall>fd. t4 fd \<noteq> None \<longrightarrow> fd = nullfd \<or> fd = logn \<or> 3 \<le> fd"
  shows "\<exists>t5 t6 t7. fd_dup2 limit nullfd 0 t4 = Some t5 \<and> fd_dup2 limit logn 1 t5 = Some t6
    \<and> fd_dup2 limit logn 2 t6 = Some t7
    \<and> clear3 (let t8 = (if 2 < nullfd then fd_close nullfd t7 else t7) in
         if 2 < logn then fd_close logn t8 else t8) =
      Some (\<lambda>fd. if fd = 0 then Some \<lparr>d_file = null, d_cloexec = False\<rparr>
         else if fd \<le> 2 then Some \<lparr>d_file = lg, d_cloexec = False\<rparr>
         else if fd = nullfd \<or> fd = logn then None else t4 fd)"
proof -
  let ?N = "\<lparr>d_file = null, d_cloexec = False\<rparr>" and ?L = "\<lparr>d_file = lg, d_cloexec = False\<rparr>"
  define t5 where "t5 = (if nullfd = 0 then t4 else t4(0 \<mapsto> ?N))"
  have 5: "fd_dup2 limit nullfd 0 t4 = Some t5"
    using assms(1,5) by (auto simp: fd_dup2_def at_def t5_def)
  have "t5 logn = t4 logn" using assms(3) by (simp add: t5_def)
  then have 6: "fd_dup2 limit logn 1 t5 = Some (t5(1 \<mapsto> ?L))"
    and 7: "fd_dup2 limit logn 2 (t5(1 \<mapsto> ?L)) = Some (t5(1 \<mapsto> ?L, 2 \<mapsto> ?L))"
    using assms(2,3,5) by (auto simp: fd_dup2_def at_def)
  let ?t9 = "let t8 = (if 2 < nullfd then fd_close nullfd (t5(1 \<mapsto> ?L, 2 \<mapsto> ?L))
      else t5(1 \<mapsto> ?L, 2 \<mapsto> ?L)) in if 2 < logn then fd_close logn t8 else t8"
  have v: "\<exists>c. ?t9 0 = Some \<lparr>d_file = null, d_cloexec = c\<rparr>" "?t9 1 = Some ?L" "?t9 2 = Some ?L"
    using assms(1,3) by (auto simp: t5_def at_def fd_close_def Let_def)
  have o: "?t9 fd = (if fd = nullfd \<or> fd = logn then None else t4 fd)" if "2 < fd" for fd
    using that assms(3,4) by (auto simp: t5_def fd_close_def Let_def)
  have "clear3 ?t9 = Some (?t9(0 \<mapsto> ?N, 1 \<mapsto> ?L, 2 \<mapsto> ?L))"
    using v by (auto simp: clear3_def fd_clear_cloexec_def)
  also have "?t9(0 \<mapsto> ?N, 1 \<mapsto> ?L, 2 \<mapsto> ?L) =
      (\<lambda>fd. if fd = 0 then Some ?N else if fd \<le> 2 then Some ?L
         else if fd = nullfd \<or> fd = logn then None else t4 fd)"
    (is "?l = ?r")
  proof
    fix fd :: nat
    consider "fd = 0" | "fd = 1" | "fd = 2" | "2 < fd" by linarith
    then show "?l fd = ?r fd" using o [of fd] by cases simp_all
  qed
  finally show ?thesis using 5 6 7 by blast
qed

text \<open>The table a house must start with: \<^verbatim>\<open>/dev/null\<close>, its log twice, its wires from 3 on.\<close>

definition kit :: "'f \<Rightarrow> 'f \<Rightarrow> 'f list \<Rightarrow> 'f fdtab" where
  "kit null lg wires = (\<lambda>fd. if fd = 0 then Some \<lparr>d_file = null, d_cloexec = False\<rparr>
     else if fd \<le> 2 then Some \<lparr>d_file = lg, d_cloexec = False\<rparr>
     else if fd < 3 + length wires then Some \<lparr>d_file = wires ! (fd - 3), d_cloexec = False\<rparr>
     else None)"

lemma kit_survives_exec: "fd_exec (kit null lg wires) = kit null lg wires"
  by (auto simp: fd_exec_def kit_def fun_eq_iff)

text \<open>Up to the sweep: the scratch descriptors are all there is, fresh and in order.\<close>

definition swept :: "nat \<Rightarrow> 'f \<Rightarrow> 'f \<Rightarrow> 'f list \<Rightarrow> nat \<Rightarrow> nat \<Rightarrow> nat list \<Rightarrow> 'f fdtab \<Rightarrow> bool" where
  "swept limit null lg files nullfd logn scratch t \<longleftrightarrow>
     at t nullfd null True \<and> at t logn lg True \<and> 3 \<le> logn \<and> nullfd \<noteq> logn \<and> 2 < limit
     \<and> (\<forall>fd. t fd \<noteq> None \<longrightarrow> fd = nullfd \<or> fd = logn \<or> fd \<in> set scratch)
     \<and> length scratch = length files \<and> sorted_wrt (<) scratch
     \<and> (\<forall>x\<in>set scratch. 3 < x \<and> x < limit \<and> x \<noteq> nullfd \<and> x \<noteq> logn)
     \<and> (\<forall>k<length files. at t (scratch ! k) (files ! k) True)"

lemma pack_kit_sweep:
  assumes o: "fd_open limit null t = Some (nullfd, t1)"
    and l: "fd_dupfd limit 3 log_w t1 = Some (logn, t2)"
    and s: "scratch_wires limit wires t2 = Some (scratch, t3)"
    and c: "close_others proc limit (nullfd # logn # scratch) t3 = Some t4"
    and bel: "below limit t" and lg: "t log_w = Some lg" and ws: "\<forall>w\<in>set wires. t w = Some (D w)"
    and sweep: "proc = ProcAbsent \<longrightarrow> limit \<le> NW_FD_SWEEP"
  shows "swept limit null (d_file lg) (map (\<lambda>w. d_file (D w)) wires) nullfd logn scratch t4"
proof -
  from o have n: "t nullfd = None" "nullfd < limit" "t1 = t(nullfd \<mapsto> \<lparr>d_file = null, d_cloexec = True\<rparr>)"
    using fd_new_Some by (auto simp: fd_open_def)
  from l obtain d where d: "t1 log_w = Some d" "3 \<le> logn" "logn < limit" "t1 logn = None"
    "\<forall>j. 3 \<le> j \<and> j < logn \<longrightarrow> t1 j \<noteq> None" "t2 = t1(logn \<mapsto> \<lparr>d_file = d_file d, d_cloexec = True\<rparr>)"
    by (rule dupfd_Some)
  have neq: "nullfd \<noteq> logn" "log_w \<noteq> nullfd" using d(4) n(1,3) lg by auto
  have dl: "d = lg" using d(1) n(3) lg neq(2) by simp
  have b2: "below limit t2" using bel n(2,3) d(3,6) by (simp add: below_def)
  have low: "\<forall>j. 3 \<le> j \<and> j < Suc logn \<longrightarrow> t2 j \<noteq> None" using d(5,6) by (auto simp: less_Suc_eq)
  have w2: "\<forall>w\<in>set wires. t2 w = Some (D w)" using ws n(1,3) d(4,6) by force
  from scratch_wires_Some [OF s b2 low _ w2] d(2)
  have sc: "length scratch = length wires" "below limit t3" "sorted_wrt (<) scratch"
    "\<forall>x\<in>set scratch. Suc logn \<le> x \<and> t2 x = None" "\<forall>fd. fd \<notin> set scratch \<longrightarrow> t3 fd = t2 fd"
    "\<forall>k<length wires. at t3 (scratch ! k) (d_file (D (wires ! k))) True"
    by (metis le_SucI)+
  have t4: "t4 = (\<lambda>fd. if fd \<in> set (nullfd # logn # scratch) then t3 fd else None)"
    using close_others_keeps [OF c _ sweep] sc(2) by (simp add: below_def)
  have nin: "nullfd \<notin> set scratch" "logn \<notin> set scratch" using sc(4) n(3) d(6) neq by force+
  have "x < limit" if x: "x \<in> set scratch" for x
    using x sc(1,2,6) by (force simp: in_set_conv_nth below_def at_def)
  then have "\<forall>x\<in>set scratch. 3 < x \<and> x < limit \<and> x \<noteq> nullfd \<and> x \<noteq> logn"
    using sc(4) d(2) nin by force
  moreover have "at t4 nullfd null True" "at t4 logn (d_file lg) True"
    using sc(5) nin n(3) d(6) dl neq by (simp_all add: t4 at_def)
  moreover have "\<forall>k<length wires. at t4 (scratch ! k) (d_file (D (wires ! k))) True"
    using sc(1,6) by (simp add: t4 at_def)
  ultimately show ?thesis
    using d(2,3) neq(1) sc(1,3) by (auto simp: swept_def t4 split: if_splits)
qed

lemma place_kit_swept:
  assumes "swept limit null lg files nullfd logn scratch t4"
  shows "place_kit limit nullfd logn scratch t4 = Some (kit null lg files)"
proof -
  have a: "at t4 nullfd null True" "at t4 logn lg True" "3 \<le> logn" "nullfd \<noteq> logn" "2 < limit"
    and only: "\<forall>fd. t4 fd \<noteq> None \<longrightarrow> fd = nullfd \<or> fd = logn \<or> fd \<in> set scratch"
    and sc: "length scratch = length files" "sorted_wrt (<) scratch"
      "\<forall>x\<in>set scratch. 3 < x \<and> x < limit \<and> x \<noteq> nullfd \<and> x \<noteq> logn"
      "\<forall>k<length files. at t4 (scratch ! k) (files ! k) True"
    using assms unfolding swept_def by blast+
  let ?t10 = "\<lambda>fd. if fd = 0 then Some \<lparr>d_file = null, d_cloexec = False\<rparr>
      else if fd \<le> 2 then Some \<lparr>d_file = lg, d_cloexec = False\<rparr>
      else if fd = nullfd \<or> fd = logn then None else t4 fd"
  have "\<forall>fd. t4 fd \<noteq> None \<longrightarrow> fd = nullfd \<or> fd = logn \<or> 3 \<le> fd" using only sc(3) by force
  from kit_base [OF a this] obtain t5 t6 t7 where k: "fd_dup2 limit nullfd 0 t4 = Some t5"
    "fd_dup2 limit logn 1 t5 = Some t6" "fd_dup2 limit logn 2 t6 = Some t7"
    "clear3 (let t8 = (if 2 < nullfd then fd_close nullfd t7 else t7) in
       if 2 < logn then fd_close logn t8 else t8) = Some ?t10"
    by blast
  have p: "place_kit limit nullfd logn scratch t4 = place_wires limit 3 scratch ?t10"
    by (simp only: place_kit_def k option.case)
  have "\<forall>x\<in>set scratch. ?t10 x = t4 x" using sc(3) by force
  then have "\<forall>k<length scratch. \<exists>c. at ?t10 (scratch ! k) (files ! k) c"
    using sc(1,4) by (auto simp: at_def)
  moreover have "\<forall>x\<in>set scratch. 3 \<le> x \<and> x < limit" using sc(3) by force
  ultimately have t': "place_wires limit 3 scratch ?t10 = Some (\<lambda>fd. if 3 \<le> fd \<and> fd < 3 + length scratch
       then Some \<lparr>d_file = files ! (fd - 3), d_cloexec = False\<rparr>
       else if fd \<in> set scratch then None else ?t10 fd)"
    using place_wires_spec [OF sc(2), of 3 limit files ?t10] sc(1) by simp
  have "fd \<notin> set scratch" if "fd \<le> 2" for fd using that sc(3) by force
  moreover have "t4 fd = None" if "fd \<noteq> nullfd" "fd \<noteq> logn" "fd \<notin> set scratch" for fd
    using that only by blast
  ultimately show ?thesis
    unfolding p t' kit_def sc(1) by (intro arg_cong [where f = Some] ext) auto
qed

lemma pack_kit_exact:
  assumes "pack_kit proc limit null log_w wires t = Some t'"
    and "below limit t" and "t log_w = Some lg" and "\<forall>w\<in>set wires. t w = Some (D w)"
    and "proc = ProcAbsent \<longrightarrow> limit \<le> NW_FD_SWEEP"
  shows "t' = kit null (d_file lg) (map (\<lambda>w. d_file (D w)) wires)"
proof -
  from assms(1) obtain nullfd t1 logn t2 scratch t3 t4 where o: "fd_open limit null t = Some (nullfd, t1)"
    and l: "fd_dupfd limit 3 log_w t1 = Some (logn, t2)"
    and s: "scratch_wires limit wires t2 = Some (scratch, t3)"
    and c: "close_others proc limit (nullfd # logn # scratch) t3 = Some t4"
    and p: "place_kit limit nullfd logn scratch t4 = Some t'"
    unfolding pack_kit_def by (auto split: option.splits)
  show ?thesis using place_kit_swept [OF pack_kit_sweep [OF o l s c assms(2-5)]] p by simp
qed

text \<open>With room in the table nothing fails.\<close>

lemma pack_kit_room:
  assumes fin: "finite (dom t)" and bel: "below limit t" and std: "stdio t"
    and lg: "t log_w = Some lg" and ws: "\<forall>w\<in>set wires. t w = Some (D w)"
    and room: "card (dom t) + 2 + length wires \<le> limit" "limit \<le> NW_FD_SWEEP"
    and proc: "proc \<noteq> ProcNoStream"
  shows "\<exists>t'. pack_kit proc limit null log_w wires t = Some t'"
proof -
  obtain nullfd t1 where o: "fd_open limit null t = Some (nullfd, t1)"
    using fd_new_room [OF fin] room by (fastforce simp: fd_open_def)
  have n: "t nullfd = None" "t1 = t(nullfd \<mapsto> \<lparr>d_file = null, d_cloexec = True\<rparr>)"
    using o fd_new_Some by (auto simp: fd_open_def)
  have c1: "card (dom t1) = Suc (card (dom t))" "finite (dom t1)" "t1 log_w = Some lg" "stdio t1"
    and w1: "\<forall>w\<in>set wires. t1 w \<noteq> None"
    using fin lg ws n std by (auto simp: domIff card_insert_if stdio_def)
  have "scratch_wires limit (log_w # wires) t1 = Some (a, b) \<Longrightarrow> ?thesis" for a b
  proof -
    assume "scratch_wires limit (log_w # wires) t1 = Some (a, b)"
    then obtain logn t2 scratch t3 where l: "fd_dupfd limit 3 log_w t1 = Some (logn, t2)"
      and s: "scratch_wires limit wires t2 = Some (scratch, t3)"
      by (auto split: option.splits)
    obtain t4 where c: "close_others proc limit (nullfd # logn # scratch) t3 = Some t4"
      using close_others_succeeds [OF proc room(2)] by blast
    show ?thesis
      using place_kit_swept [OF pack_kit_sweep [OF o l s c bel lg ws]] room(2)
      by (auto simp: pack_kit_def o l s c)
  qed
  moreover have "\<exists>a b. scratch_wires limit (log_w # wires) t1 = Some (a, b)"
    using c1 w1 room(1) by (intro scratch_wires_room) simp_all
  ultimately show ?thesis by blast
qed

text \<open>Conversely a kit that was packed had room for every scratch descriptor at once.\<close>

lemma pack_kit_needs_room:
  assumes pk: "pack_kit proc limit null log_w wires t = Some t'"
    and fin: "finite (dom t)" and bel: "below limit t"
  shows "card (dom t) + 2 + length wires \<le> limit"
proof -
  from pk obtain nullfd t1 logn t2 scratch t3 where o: "fd_open limit null t = Some (nullfd, t1)"
    and l: "fd_dupfd limit 3 log_w t1 = Some (logn, t2)"
    and s: "scratch_wires limit wires t2 = Some (scratch, t3)"
    unfolding pack_kit_def by (auto split: option.splits)
  have t1: "finite (dom t1)" "card (dom t1) = Suc (card (dom t))" "below limit t1"
    using fd_new_Some [OF o [unfolded fd_open_def]] fin bel
    by (auto simp: domIff card_insert_if below_def)
  have t2: "finite (dom t2)" "card (dom t2) = Suc (card (dom t1))" "below limit t2"
    using dupfd_card [OF l t1(1,3)] by blast+
  have "card (dom t3) = card (dom t) + 2 + length wires" "below limit t3"
    using scratch_wires_card [OF s t2(1,3)] t1(2) t2(2) by simp_all
  moreover have "card (dom t3) \<le> card {..<limit}"
    using calculation(2) by (intro card_mono) (auto simp: below_def)
  ultimately show ?thesis by simp
qed

end
