(* ===== verification/SpawnMain.thy ===== *)
theory SpawnMain
  imports Spawn HandoffSpec
begin

text \<open>
  \<^verbatim>\<open>main\<close> of \<^verbatim>\<open>nwspawn.c\<close>: the arguments, the re-check of the blob, the socket pairs of all edges
  before the first fork, one house per unit, the census, the closing of its own copies, the report
  to PID 1. A house is what its \<^verbatim>\<open>execl\<close> gets: descriptor table, environment, arguments.
\<close>

text \<open>Which open file a descriptor refers to; \<open>FSock k s\<close> is side \<open>s\<close> of the pair of edge \<open>k\<close>;
  the ends of a pipe are apart, \<open>FLog i\<close> being the write end of the log of unit \<open>i\<close>.\<close>

datatype kfile = FNull | FLog nat | FLogRead nat | FSock nat nat | FPipe nat | FSignals
  | FReport nat | FOther nat

subsection \<open>Edges\<close>

fun make_edges :: "nat \<Rightarrow> nat \<Rightarrow> nat \<Rightarrow> kfile fdtab \<Rightarrow> ((nat \<times> nat) list \<times> kfile fdtab) option" where
  "make_edges limit k 0 t = Some ([], t)"
| "make_edges limit k (Suc n) t =
     (case fd_new limit (FSock k 0) False t of None \<Rightarrow> None
      | Some (a, t1) \<Rightarrow> case fd_new limit (FSock k 1) False t1 of None \<Rightarrow> None
      | Some (b, t2) \<Rightarrow> case make_edges limit (Suc k) n t2 of None \<Rightarrow> None
      | Some (ps, t3) \<Rightarrow> Some ((a, b) # ps, t3))"

text \<open>The wires of unit \<open>i\<close>: a descriptor and the peer, in edge order.\<close>

fun collect_wires :: "(nat \<times> nat) list \<Rightarrow> nw_edge list \<Rightarrow> nat \<Rightarrow> (nat \<times> nat) list" where
  "collect_wires ((f0, f1) # ps) (e # es) i =
     (if unat (e_a e) = i then (f0, unat (e_b e)) # collect_wires ps es i
      else if unat (e_b e) = i then (f1, unat (e_a e)) # collect_wires ps es i
      else collect_wires ps es i)"
| "collect_wires _ _ i = []"

subsection \<open>One house\<close>

record house =
  ho_fds :: "kfile fdtab"
  ho_env :: env
  ho_args :: "bytes list"

text \<open>
  The pid pipe is opened before the forks; the house has closed both ends when it packs its kit.
  The peers are named by the units at the other ends. A failed pid pipe ends the spawner; a failed
  kit ends the house, whose pid the process between has reported already.
\<close>

definition spawn_house ::
  "proc_dir \<Rightarrow> nat \<Rightarrow> nat list \<Rightarrow> env \<Rightarrow> nw_unit list \<Rightarrow> nw_bind list \<Rightarrow> nw_edge list
   \<Rightarrow> (nat \<times> nat) list \<Rightarrow> kfile fdtab \<Rightarrow> nat \<Rightarrow> house res res" where
  "spawn_house proc limit logw env us bs es ps t i =
     (let wires = collect_wires ps es i in
      case fd_new limit (FPipe 0) True t of None \<Rightarrow> Inl ''pid pipe''
      | Some (r, t1) \<Rightarrow> case fd_new limit (FPipe 1) True t1 of None \<Rightarrow> Inl ''pid pipe''
      | Some (w, t2) \<Rightarrow>
        case pack_kit proc limit FNull (logw ! i) (map fst wires) (fd_close r (fd_close w t2)) of
          None \<Rightarrow> Inr (Inl ''pack kit'')
        | Some packed \<Rightarrow> Inr (Inr \<lparr>ho_fds = fd_exec packed,
            ho_env = spawn_env env (us ! i) (map (\<lambda>(_, peer). cstr (u_name (us ! peer))) wires)
              (binds_of bs i),
            ho_args = [''nw-sup'', cstr (u_exec_path (us ! i)), cstr (u_name (us ! i))]\<rparr>))"

fun spawn_houses ::
  "proc_dir \<Rightarrow> nat \<Rightarrow> nat list \<Rightarrow> env \<Rightarrow> nw_unit list \<Rightarrow> nw_bind list \<Rightarrow> nw_edge list
   \<Rightarrow> (nat \<times> nat) list \<Rightarrow> kfile fdtab \<Rightarrow> nat list \<Rightarrow> house res list res" where
  "spawn_houses proc limit logw env us bs es ps t [] = Inr []"
| "spawn_houses proc limit logw env us bs es ps t (i # is) =
     and_then (spawn_house proc limit logw env us bs es ps t i) (\<lambda>h.
     and_then (spawn_houses proc limit logw env us bs es ps t is) (\<lambda>hs. Inr (h # hs)))"

subsection \<open>The program\<close>

text \<open>The arguments: blob, report descriptor, number of logs, the logs. The first is \<^verbatim>\<open>argv[1]\<close>.\<close>

definition spawn_args :: "bytes list \<Rightarrow> (bytes \<times> u32 \<times> nat list) res" where
  "spawn_args args =
     (case args of path # report # n # logs \<Rightarrow>
        let nlogs = sint (atoi n) in
        die_if (nlogs < 1 \<or> int NW_MAX_UNITS < nlogs) ''nlogs'' (
        die_if (int (length logs) \<noteq> nlogs) ''log argc'' (
        die_if (list_ex (\<lambda>l. sint (atoi l) < 0) logs) ''log fd'' (
        Inr (path, atoi report, map (\<lambda>l. nat (sint (atoi l))) logs))))
      | _ \<Rightarrow> Inl ''argv'')"

text \<open>The blob: \<open>content\<close> is what one \<^verbatim>\<open>read\<close> of \<open>NW_BLOB_BUF\<close> bytes gets of the file.\<close>

definition spawn_recheck :: "bytes option \<Rightarrow> nat \<Rightarrow> bytes res" where
  "spawn_recheck file nlogs =
     (case file of None \<Rightarrow> Inl ''open blob''
      | Some content \<Rightarrow>
        let blob = take (unat NW_BLOB_BUF) content in
        die_if (blob = []) ''read blob'' (
        die_if (unat NW_BLOB_MAX < length blob) ''blob size'' (
        die_if (nw_check blob (of_nat (length blob)) \<noteq> Some NW_OK) ''blob recheck'' (
        die_if (length (nw_units blob) \<noteq> nlogs) ''log/unit mismatch'' (Inr blob)))))"

definition report_of :: "u32 list \<Rightarrow> bytes" where
  "report_of pids = wr 4 (of_nat (length pids) :: u32) @ concat (map (wr 4) pids)"

record spawned =
  sp_houses :: "house res list"
  sp_report :: bytes
  sp_fds :: "kfile fdtab"

definition close_edges :: "(nat \<times> nat) list \<Rightarrow> kfile fdtab \<Rightarrow> kfile fdtab" where
  "close_edges ps t = fold (\<lambda>(a, b) t. fd_close b (fd_close a t)) ps t"

text \<open>\<open>pids\<close> are the house pids the kernel gave; \<open>disk\<close> the files by the blob's path.\<close>

definition nw_spawn ::
  "proc_dir \<Rightarrow> nat \<Rightarrow> bytes list \<Rightarrow> env \<Rightarrow> (bytes \<Rightarrow> bytes option) \<Rightarrow> (nat \<Rightarrow> u32) \<Rightarrow> kfile fdtab
   \<Rightarrow> spawned res" where
  "nw_spawn proc limit args env disk pids t =
     and_then (spawn_args args) (\<lambda>(path, report_fd, logw).
     die_if (env ''NW_SUP'' = None \<or> env ''NW_SUP'' = Some []) ''NW_SUP'' (
     and_then (spawn_recheck (disk path) (length logw)) (\<lambda>blob.
     let us = nw_units blob; bs = nw_binds blob; es = nw_edges blob; n = length us in
     case make_edges limit 0 (length es) t of None \<Rightarrow> Inl ''edge socketpair''
     | Some (ps, t1) \<Rightarrow>
       and_then (spawn_houses proc limit logw env us bs es ps t1 [0..<n]) (\<lambda>houses.
       let t2 = fold fd_close logw t1; t3 = close_edges ps t2;
           wired_total = sum_list (map (\<lambda>i. length (collect_wires ps es i)) [0..<n]) in
       die_if (wired_total \<noteq> 2 * length es) ''edge wiring census'' (
       die_if (list_ex (\<lambda>(a, b). t3 a \<noteq> None \<or> t3 b \<noteq> None) ps) ''leaked wire fd'' (
       Inr \<lparr>sp_houses = houses, sp_report = report_of (map pids [0..<n]), sp_fds = t3\<rparr>))))))"

subsection \<open>The wires of a unit\<close>

definition touches :: "nw_edge \<Rightarrow> nat \<Rightarrow> bool" where
  "touches e i \<longleftrightarrow> unat (e_a e) = i \<or> unat (e_b e) = i"

definition side :: "nw_edge \<Rightarrow> nat \<Rightarrow> nat" where
  "side e i = (if unat (e_a e) = i then 0 else 1)"

definition peer :: "nw_edge \<Rightarrow> nat \<Rightarrow> nat" where
  "peer e i = (if unat (e_a e) = i then unat (e_b e) else unat (e_a e))"

text \<open>The edges that name a unit, by index; what it must hold of them.\<close>

definition edges_of :: "nw_edge list \<Rightarrow> nat \<Rightarrow> nat list" where
  "edges_of es i = filter (\<lambda>k. touches (es ! k) i) [0..<length es]"

lemma length_edges_of: "length (edges_of es i) \<le> length es"
  unfolding edges_of_def using length_filter_le [of _ "[0..<length es]"] by simp

lemma edges_of_Cons:
  "edges_of (e # es) i = (if touches e i then [0] else []) @ map Suc (edges_of es i)"
  by (simp add: edges_of_def upt_conv_Cons map_Suc_upt [symmetric] filter_map o_def del: upt_Suc)

lemma collect_wires_eq:
  "length ps = length es \<Longrightarrow> collect_wires ps es i =
     map (\<lambda>k. (if side (es ! k) i = 0 then fst (ps ! k) else snd (ps ! k), peer (es ! k) i)) (edges_of es i)"
proof (induction ps es i rule: collect_wires.induct)
  case (1 f0 f1 ps e es i)
  then show ?case
    by (auto simp: edges_of_Cons touches_def side_def peer_def)
qed (auto simp: edges_of_def)

lemma census:
  assumes "\<forall>e\<in>set es. unat (e_a e) < n \<and> unat (e_b e) < n \<and> e_a e \<noteq> e_b e" "length ps = length es"
  shows "sum_list (map (\<lambda>i. length (collect_wires ps es i)) [0..<n]) = 2 * length es"
  using assms
proof (induction ps es arbitrary: rule: list_induct2')
  case 1
  then show ?case by (simp add: sum_list_triv)
next
  case (4 p ps e es)
  obtain f0 f1 where p: "p = (f0, f1)" by (cases p)
  have ne: "unat (e_a e) \<noteq> unat (e_b e)" using 4 by (simp add: word_unat_eq_iff)
  have "sum_list (map (\<lambda>i. length (collect_wires (p # ps) (e # es) i)) [0..<n]) =
      (\<Sum>i = 0..<n. (if unat (e_a e) = i then 1 else 0) + (if unat (e_b e) = i then 1 else 0)
        + length (collect_wires ps es i))"
    using ne by (auto simp: p interv_sum_list_conv_sum_set_nat intro!: sum.cong)
  also have "\<dots> = 2 + sum_list (map (\<lambda>i. length (collect_wires ps es i)) [0..<n])"
    using 4(2) by (simp add: sum.distrib interv_sum_list_conv_sum_set_nat)
  also have "\<dots> = 2 * length (e # es)" using 4 by simp
  finally show ?case .
qed simp_all

subsection \<open>The pairs\<close>

lemma make_edges_Some:
  "make_edges limit k n t = Some (ps, t') \<Longrightarrow> below limit t \<Longrightarrow>
     length ps = n \<and> below limit t' \<and> (\<forall>fd. t fd \<noteq> None \<longrightarrow> t' fd = t fd)
     \<and> (\<forall>(a, b)\<in>set ps. t a = None \<and> t b = None)
     \<and> (\<forall>fd. t fd = None \<longrightarrow> t' fd \<noteq> None \<longrightarrow> (\<exists>(a, b)\<in>set ps. fd = a \<or> fd = b))
     \<and> (\<forall>j<n. at t' (fst (ps ! j)) (FSock (k + j) 0) False \<and> at t' (snd (ps ! j)) (FSock (k + j) 1) False)"
proof (induction n arbitrary: k t ps)
  case 0
  then show ?case by simp
next
  case (Suc n)
  from Suc.prems(1) obtain a t1 b t2 ps' where
    1: "fd_new limit (FSock k 0) False t = Some (a, t1)" and
    2: "fd_new limit (FSock k 1) False t1 = Some (b, t2)" and
    3: "make_edges limit (Suc k) n t2 = Some (ps', t')" and ps: "ps = (a, b) # ps'"
    by (auto split: option.splits)
  note A = fd_new_Some(1-3) [OF 1] and B = fd_new_Some(1-3) [OF 2]
  have "below limit t2" using Suc.prems(2) A B by (auto simp: below_def)
  note IH = Suc.IH [OF 3 this]
  have ab: "a \<noteq> b" "t b = None" using A(3) B(2) by (auto split: if_splits)
  have "t' a = t2 a" "t' b = t2 b" using IH A(3) B(3) by auto
  then have "at t' a (FSock k 0) False" "at t' b (FSock k 1) False"
    using A(3) B(3) ab(1) by (simp_all add: at_def)
  moreover have "at t' (fst (ps' ! j)) (FSock (k + Suc j) 0) False
      \<and> at t' (snd (ps' ! j)) (FSock (k + Suc j) 1) False" if "j < n" for j
    using IH that by simp
  ultimately have 4: "\<forall>j<Suc n. at t' (fst (ps ! j)) (FSock (k + j) 0) False
      \<and> at t' (snd (ps ! j)) (FSock (k + j) 1) False"
    by (auto simp: ps nth_Cons split: nat.split)
  have 5: "\<forall>fd. t fd \<noteq> None \<longrightarrow> t' fd = t fd" using IH A(2,3) B(3) ab(2) by (auto split: if_splits)
  have 6: "\<forall>(x, y)\<in>set ps. t x = None \<and> t y = None"
    using IH A(2,3) B(3) ab(2) by (auto simp: ps split: if_splits)
  have 7: "\<forall>fd. t fd = None \<longrightarrow> t' fd \<noteq> None \<longrightarrow> (\<exists>(x, y)\<in>set ps. fd = x \<or> fd = y)"
    using IH A(3) B(3) by (auto simp: ps split: if_splits)
  show ?case using 4 5 6 7 IH ps by simp
qed

lemma make_edges_room:
  "finite (dom t) \<Longrightarrow> card (dom t) + 2 * n \<le> limit \<Longrightarrow> \<exists>ps t'. make_edges limit k n t = Some (ps, t')
     \<and> finite (dom t') \<and> card (dom t') = card (dom t) + 2 * n"
proof (induction n arbitrary: k t)
  case 0
  then show ?case by simp
next
  case (Suc n)
  obtain a t1 where 1: "fd_new limit (FSock k 0) False t = Some (a, t1)"
    using fd_new_room [OF Suc.prems(1)] Suc.prems(2) by fastforce
  have c1: "finite (dom t1)" "card (dom t1) = Suc (card (dom t))"
    using fd_new_Some(2,3) [OF 1] Suc.prems(1) by (simp_all add: domIff card_insert_if)
  obtain b t2 where 2: "fd_new limit (FSock k 1) False t1 = Some (b, t2)"
    using fd_new_room [OF c1(1)] c1(2) Suc.prems(2) by fastforce
  have c2: "finite (dom t2)" "card (dom t2) = Suc (Suc (card (dom t)))"
    using fd_new_Some(2,3) [OF 2] c1 by (simp_all add: domIff card_insert_if)
  show ?case using Suc.IH [OF c2(1), of "Suc k"] c2(2) Suc.prems(2) 1 2 by force
qed

subsection \<open>What every house must get\<close>

definition house_spec ::
  "env \<Rightarrow> nw_unit list \<Rightarrow> nw_bind list \<Rightarrow> nw_edge list \<Rightarrow> nat \<Rightarrow> house" where
  "house_spec env us bs es i =
    \<lparr>ho_fds = kit FNull (FLog i) (map (\<lambda>k. FSock k (side (es ! k) i)) (edges_of es i)),
     ho_env = spawn_env env (us ! i) (map (\<lambda>k. cstr (u_name (us ! peer (es ! k) i))) (edges_of es i))
       (binds_of bs i),
     ho_args = [''nw-sup'', cstr (u_exec_path (us ! i)), cstr (u_name (us ! i))]\<rparr>"

text \<open>
  What becomes of house \<open>i\<close>: it starts, unless the free descriptors do not suffice for its scratch.
\<close>

definition house_outcome ::
  "nat \<Rightarrow> env \<Rightarrow> nw_unit list \<Rightarrow> nw_bind list \<Rightarrow> nw_edge list \<Rightarrow> nat \<Rightarrow> house res" where
  "house_outcome free env us bs es i =
     (if 2 + length (edges_of es i) \<le> free then Inr (house_spec env us bs es i) else Inl ''pack kit'')"

lemma spawn_house_ok:
  assumes fin: "finite (dom t)" and bel: "below limit t" and lim: "limit \<le> NW_FD_SWEEP"
    and std: "stdio t" and room: "card (dom t) + 2 \<le> limit" and proc: "proc \<noteq> ProcNoStream"
    and lg: "t (logw ! i) = Some lg" "d_file lg = FLog i"
    and ps: "length ps = length es" "\<forall>k<length es. at t (fst (ps ! k)) (FSock k 0) False
      \<and> at t (snd (ps ! k)) (FSock k 1) False"
  shows "spawn_house proc limit logw env us bs es ps t i = Inr (house_outcome (limit - card (dom t)) env us bs es i)"
proof -
  obtain r t1 where 1: "fd_new limit (FPipe 0) True t = Some (r, t1)"
    using fd_new_room [OF fin] room by fastforce
  have c1: "finite (dom t1)" "card (dom t1) = Suc (card (dom t))"
    using fd_new_Some(2,3) [OF 1] fin by (simp_all add: domIff card_insert_if)
  obtain w t2 where 2: "fd_new limit (FPipe 1) True t1 = Some (w, t2)"
    using fd_new_room [OF c1(1)] c1(2) room by fastforce
  have t: "fd_close r (fd_close w t2) = t" using fd_new_close [OF 1] fd_new_close [OF 2] by simp
  let ?wires = "map fst (collect_wires ps es i)"
  let ?fd = "\<lambda>k. if side (es ! k) i = 0 then fst (ps ! k) else snd (ps ! k)"
  have wires: "?wires = map ?fd (edges_of es i)" by (simp add: collect_wires_eq [OF ps(1)] o_def)
  have len: "length ?wires = length (edges_of es i)" unfolding wires by simp
  have open_wire: "at t (?fd k) (FSock k (side (es ! k) i)) False" if "k \<in> set (edges_of es i)" for k
    using that ps(2) by (auto simp: edges_of_def side_def)
  have D: "\<forall>w\<in>set ?wires. t w = Some (the (t w))"
    unfolding wires set_map ball_simps using open_wire by (metis at_def option.sel)
  have files: "map (\<lambda>w. d_file (the (t w))) ?wires = map (\<lambda>k. FSock k (side (es ! k) i)) (edges_of es i)"
    unfolding wires map_map o_def using open_wire by (intro map_cong refl) (simp add: at_def)
  show ?thesis
  proof (cases "card (dom t) + 2 + length (edges_of es i) \<le> limit")
    case False
    have "pack_kit proc limit FNull (logw ! i) ?wires t = None"
      using pack_kit_needs_room [of proc limit FNull "logw ! i" ?wires t, OF _ fin bel] False len
      by (cases "pack_kit proc limit FNull (logw ! i) ?wires t") auto
    then show ?thesis
      unfolding spawn_house_def Let_def 1 2 option.case prod.case t
      using False by (simp add: house_outcome_def)
  next
    case True
    obtain t' where pk: "pack_kit proc limit FNull (logw ! i) ?wires t = Some t'"
      using pack_kit_room [OF fin bel std lg(1) D _ lim proc] True len by fastforce
    have "t' = kit FNull (FLog i) (map (\<lambda>k. FSock k (side (es ! k) i)) (edges_of es i))"
      using pack_kit_exact [OF pk bel lg(1) D] lim lg(2) files by simp
    moreover have "map (\<lambda>(_, peer). cstr (u_name (us ! peer))) (collect_wires ps es i)
        = map (\<lambda>k. cstr (u_name (us ! peer (es ! k) i))) (edges_of es i)"
      by (simp add: collect_wires_eq [OF ps(1)] o_def)
    ultimately show ?thesis
      unfolding spawn_house_def Let_def 1 2 option.case prod.case t pk
      using True by (simp add: house_spec_def house_outcome_def kit_survives_exec)
  qed
qed

lemma spawn_houses_ok:
  "\<forall>i\<in>set is. spawn_house proc limit logw env us bs es ps t i = Inr (H i) \<Longrightarrow>
     spawn_houses proc limit logw env us bs es ps t is = Inr (map H is)"
  by (induction "is") simp_all

lemma fold_close_edges:
  "close_edges ps t = (\<lambda>fd. if \<exists>(a, b)\<in>set ps. fd = a \<or> fd = b then None else t fd)"
proof (induction ps arbitrary: t)
  case Nil
  then show ?case by (simp add: close_edges_def)
next
  case (Cons p ps)
  obtain a b where p: "p = (a, b)" by (cases p)
  have "close_edges (p # ps) t = close_edges ps (fd_close b (fd_close a t))"
    by (simp add: close_edges_def p)
  then show ?case by (auto simp: Cons.IH p fd_close_def fun_eq_iff)
qed

text \<open>
  The state \<^verbatim>\<open>nw-spawn\<close> starts in: the standard streams and one open log per unit, a limit the sweep
  covers, and room for both ends of every edge and for a pid pipe.
\<close>

definition spawn_ready :: "nat \<Rightarrow> nat list \<Rightarrow> nat \<Rightarrow> nw_edge list \<Rightarrow> kfile fdtab \<Rightarrow> bool" where
  "spawn_ready limit logw n es t \<longleftrightarrow> finite (dom t) \<and> below limit t \<and> limit \<le> NW_FD_SWEEP
     \<and> stdio t \<and> length logw = n \<and> card (dom t) + 2 * length es + 2 \<le> limit
     \<and> (\<forall>i<n. \<exists>lg. t (logw ! i) = Some lg \<and> d_file lg = FLog i)"

lemma nw_spawn_ok:
  assumes args: "spawn_args args = Inr (path, report_fd, logw)"
    and sup: "env ''NW_SUP'' = Some s" "s \<noteq> []"
    and re: "spawn_recheck (disk path) (length logw) = Inr blob"
    and plan: "plan_wf (nw_units blob) (nw_binds blob) (nw_edges blob)"
    and ready: "spawn_ready limit logw (length (nw_units blob)) (nw_edges blob) t"
    and proc: "proc \<noteq> ProcNoStream"
  shows "nw_spawn proc limit args env disk pids t = Inr
    \<lparr>sp_houses = map (house_outcome (limit - (card (dom t) + 2 * length (nw_edges blob))) env
        (nw_units blob) (nw_binds blob) (nw_edges blob)) [0..<length (nw_units blob)],
     sp_report = report_of (map pids [0..<length (nw_units blob)]),
     sp_fds = fold fd_close logw t\<rparr>"
proof -
  let ?us = "nw_units blob" and ?bs = "nw_binds blob" and ?es = "nw_edges blob"
  have r: "finite (dom t)" "below limit t" "limit \<le> NW_FD_SWEEP"
    "stdio t" "length logw = length ?us" "card (dom t) + 2 * length ?es + 2 \<le> limit"
    "\<forall>i<length ?us. \<exists>lg. t (logw ! i) = Some lg \<and> d_file lg = FLog i"
    using ready unfolding spawn_ready_def by blast+
  obtain ps t1 where 1: "make_edges limit 0 (length ?es) t = Some (ps, t1)"
    and c1: "finite (dom t1)" "card (dom t1) = card (dom t) + 2 * length ?es"
    using make_edges_room [OF r(1), of "length ?es" limit 0] r(6)
    by (auto simp del: length_nw_edges)
  note E = make_edges_Some [OF 1 r(2)]
  have ps: "length ps = length ?es" "below limit t1"
    "\<forall>k<length ?es. at t1 (fst (ps ! k)) (FSock k 0) False \<and> at t1 (snd (ps ! k)) (FSock k 1) False"
    using E by simp_all
  have std: "stdio t1" using E r(4) by (simp add: stdio_def)
  have "spawn_house proc limit logw env ?us ?bs ?es ps t1 i
      = Inr (house_outcome (limit - (card (dom t) + 2 * length ?es)) env ?us ?bs ?es i)"
    if i: "i < length ?us" for i
  proof -
    obtain lg where "t (logw ! i) = Some lg" "d_file lg = FLog i" using r(7) i by blast
    moreover from this have "t1 (logw ! i) = Some lg" using E by force
    ultimately show ?thesis
      using spawn_house_ok [OF c1(1) ps(2) r(3) std _ proc _ _ ps(1,3)] c1(2) r(6)
      by (simp del: length_nw_units length_nw_edges)
  qed
  then have H: "spawn_houses proc limit logw env ?us ?bs ?es ps t1 [0..<length ?us]
      = Inr (map (house_outcome (limit - (card (dom t) + 2 * length ?es)) env ?us ?bs ?es) [0..<length ?us])"
    by (intro spawn_houses_ok) simp
  have "\<forall>e\<in>set ?es. unat (e_a e) < length ?us \<and> unat (e_b e) < length ?us \<and> e_a e \<noteq> e_b e"
    using plan by (simp add: plan_wf_def edge_wf_def)
  note cen = census [OF this ps(1)]
  let ?t3 = "close_edges ps (fold fd_close logw t1)"
  have nil: "\<not> list_ex (\<lambda>(a, b). ?t3 a \<noteq> None \<or> ?t3 b \<noteq> None) ps"
  proof -
    have "?t3 a = None \<and> ?t3 b = None" if "(a, b) \<in> set ps" for a b
    proof -
      have "\<exists>(x, y)\<in>set ps. a = x \<or> a = y" "\<exists>(x, y)\<in>set ps. b = x \<or> b = y" using that by blast+
      then show ?thesis by (simp only: fold_close_edges if_True)
    qed
    then show ?thesis by (auto simp: list_ex_iff)
  qed
  have E1: "t1 x = t x" if "t x \<noteq> None" for x using E that by blast
  have E2: "t a = None \<and> t b = None" if "(a, b) \<in> set ps" for a b using E that by blast
  have E3: "\<exists>a b. (a, b) \<in> set ps \<and> (x = a \<or> x = b)" if "t x = None" "t1 x \<noteq> None" for x
    using E that by blast
  have eq: "?t3 = fold fd_close logw t"
  proof
    fix fd
    show "?t3 fd = fold fd_close logw t fd"
    proof (cases "\<exists>(a, b)\<in>set ps. fd = a \<or> fd = b")
      case True
      then have "t fd = None" using E2 by blast
      then show ?thesis using True by (simp add: fold_close_edges fold_close)
    next
      case False
      have "t1 fd = None" if none: "t fd = None"
      proof (rule ccontr)
        assume "t1 fd \<noteq> None"
        from E3 [OF none this] show False using False by blast
      qed
      then have "t1 fd = t fd" using E1 [of fd] by (cases "t fd = None") simp_all
      then show ?thesis using False by (simp add: fold_close_edges fold_close)
    qed
  qed
  show ?thesis
    unfolding nw_spawn_def args re and_then.simps prod.case Let_def 1 option.case H cen
    using sup nil unfolding eq by (simp add: die_if_def del: length_nw_units length_nw_edges)
qed

subsection \<open>Properties\<close>

text \<open>
  C11. \<open>pack_kit\<close> gives a house exactly its kit, whatever the table it inherited looks like: when it
  returns, descriptor 0 is \<^verbatim>\<open>/dev/null\<close>, 1 and 2 are the unit's log, \<open>3 + k\<close> is the file of its k-th
  wire, none is close-on-exec, and nothing else is open; no wire is lost to an earlier placement even
  if its number is a target. With the standard streams open and a working sweep it succeeds exactly
  when the limit leaves room for its \<open>2 + n_wires\<close> scratch descriptors at once.
\<close>

theorem pack_kit_gives_kit:
  assumes "finite (dom t)" "below limit t" "limit \<le> NW_FD_SWEEP" "t log_w = Some lg"
    and "\<forall>w\<in>set wires. t w = Some (D w)"
  shows "(pack_kit proc limit null log_w wires t = Some t' \<longrightarrow>
      t' = kit null (d_file lg) (map (\<lambda>w. d_file (D w)) wires))
    \<and> (stdio t \<and> proc \<noteq> ProcNoStream \<longrightarrow>
      ((\<exists>t'. pack_kit proc limit null log_w wires t = Some t')
        \<longleftrightarrow> card (dom t) + 2 + length wires \<le> limit))"
  using pack_kit_exact [of proc limit null log_w wires t t' lg D]
    pack_kit_room [of t limit log_w lg wires D proc null]
    pack_kit_needs_room [of proc limit null log_w wires t] assms
  by blast

text \<open>The adversarial input of the source's third axis: a later wire is an earlier target.\<close>

definition axis3_table :: "kfile fdtab" where
  "axis3_table = (\<lambda>fd. if fd \<in> {0, 1, 2, 3, 7, 20, 21} then Some \<lparr>d_file = FOther fd, d_cloexec = False\<rparr> else None)"

theorem pack_kit_gives_kit_witness:
  "pack_kit ProcListed 64 FNull 7 [20, 21, 3] axis3_table
   = Some (kit FNull (FOther 7) [FOther 20, FOther 21, FOther 3])"
proof -
  have dom: "dom axis3_table = {0, 1, 2, 3, 7, 20, 21}" by (auto simp: axis3_table_def split: if_splits)
  have f: "finite (dom axis3_table)" "below 64 axis3_table" "(64::nat) \<le> NW_FD_SWEEP"
    "axis3_table 7 = Some \<lparr>d_file = FOther 7, d_cloexec = False\<rparr>"
    "\<forall>w\<in>set [20, 21, 3]. axis3_table w = Some \<lparr>d_file = FOther w, d_cloexec = False\<rparr>"
    unfolding below_def dom by (auto simp: axis3_table_def NW_FD_SWEEP_def nw_limits)
  have "card (dom axis3_table) + 2 + length [20, 21, 3::nat] \<le> 64" unfolding dom by simp
  moreover have "stdio axis3_table" by (simp add: stdio_def axis3_table_def)
  ultimately obtain t' where "pack_kit ProcListed 64 FNull 7 [20, 21, 3] axis3_table = Some t'"
    using pack_kit_gives_kit [OF f, where proc = ProcListed and null = FNull] by blast
  then show ?thesis
    using pack_kit_gives_kit [OF f, where proc = ProcListed and null = FNull and t' = t'] by simp
qed

text \<open>
  C9. \<^verbatim>\<open>nw-spawn\<close> boots the plan: from a table with one open log per unit, with room, and from a blob
  whose re-check passes, it reports one pid per unit; each house for whose scratch descriptors the
  limit leaves room (two and one per wire), and no other, starts with \<^verbatim>\<open>/dev/null\<close>, its own log,
  and its side of the socket pair of every edge that names it, in edge order, with the peer's name in
  the matching variable; and \<^verbatim>\<open>nw-spawn\<close> itself keeps no wire and no log. The census and the leak
  check never fire.
\<close>

theorem nw_spawn_boots:
  assumes "spawn_args args = Inr (path, report_fd, logw)"
    and "env ''NW_SUP'' = Some s" "s \<noteq> []"
    and "spawn_recheck (disk path) (length logw) = Inr blob"
    and "spawn_ready limit logw (length (nw_units blob)) (nw_edges blob) t"
    and "proc \<noteq> ProcNoStream"
  shows "nw_spawn proc limit args env disk pids t = Inr
    \<lparr>sp_houses = map (house_outcome (limit - (card (dom t) + 2 * length (nw_edges blob))) env
        (nw_units blob) (nw_binds blob) (nw_edges blob)) [0..<length (nw_units blob)],
     sp_report = report_of (map pids [0..<length (nw_units blob)]),
     sp_fds = fold fd_close logw t\<rparr>"
proof -
  from assms(4) have b: "nw_check blob (of_nat (length blob)) = Some NW_OK" "length blob \<le> unat NW_BLOB_MAX"
    by (auto simp: spawn_recheck_def die_if_def Let_def not_less split: option.splits if_splits)
  have "length blob < 2 ^ 32"
    using b(2) unat_bounds(3) [of NW_BLOB_MAX] by simp
  then have "length blob = unat (of_nat (length blob) :: u32)" by (simp add: unat_of_nat)
  from nw_check_decides [OF this] b(1)
  have "plan_wf (nw_units blob) (nw_binds blob) (nw_edges blob)"
    by (simp add: decides_def sealed_wf_def)
  from nw_spawn_ok [where disk = disk and path = path and env = env, OF assms(1-4) this assms(5,6)] show ?thesis .
qed

definition demo_table :: "kfile fdtab" where
  "demo_table = (\<lambda>fd. if fd < 4 then Some \<lparr>d_file = FOther fd, d_cloexec = False\<rparr>
     else if fd < 6 then Some \<lparr>d_file = FLog (fd - 4), d_cloexec = False\<rparr> else None)"

theorem nw_spawn_boots_witness:
  "\<exists>out h. nw_spawn ProcListed 256 [''/p'', ''3'', ''2'', ''4'', ''5''] [''NW_SUP'' \<mapsto> ''/sup'']
      [''/p'' \<mapsto> seal demo_units demo_binds demo_edges] (\<lambda>i. of_nat (100 + i)) demo_table = Inr out
    \<and> sp_houses out ! 1 = Inr h \<and> ho_fds h = kit FNull (FLog 1) [FSock 0 0]
    \<and> ho_env h ''NW_WIRE_3'' = Some ''web''"
proof -
  let ?m = "seal demo_units demo_binds demo_edges"
  have t: "nw_units ?m = demo_units" "nw_binds ?m = demo_binds" "nw_edges ?m = demo_edges"
    using seal_tables [OF demo_fits] by simp_all
  have len: "length ?m = 734"
    unfolding length_seal [OF demo_fits] by (simp add: struct_sizes demo_units_def demo_binds_def demo_edges_def)
  have a: "spawn_args [''/p'', ''3'', ''2'', ''4'', ''5''] = Inr (''/p'', atoi ''3'', [4, 5])"
  proof -
    have "''2'' = dec 2" "''4'' = dec 4" "''5'' = dec 5" by code_simp+
    then have "sint (atoi ''2'') = 2" "sint (atoi ''4'') = 4" "sint (atoi ''5'') = 5"
      by (simp_all add: atoi_dec)
    then show ?thesis by (simp add: spawn_args_def Let_def die_if_def nw_limits)
  qed
  have re: "spawn_recheck ([''/p'' \<mapsto> ?m] ''/p'') (length [4, 5::nat]) = Inr ?m"
  proof -
    have "length (nw_units ?m) = 2" unfolding t by (simp add: demo_units_def)
    moreover have "?m \<noteq> []" using len by auto
    ultimately show ?thesis
      using seal_accepted [OF demo_fits demo_wf] len
      by (simp add: spawn_recheck_def die_if_def Let_def NW_BLOB_BUF_def NW_BLOB_MAX_val
          del: length_nw_units)
  qed
  have dom: "dom demo_table = {..<6}" by (auto simp: demo_table_def split: if_splits)
  have "\<exists>lg. demo_table ([4, 5] ! i) = Some lg \<and> d_file lg = FLog i" if "i < 2" for i
    using that by (auto simp: demo_table_def less_2_cases_iff)
  moreover have "stdio demo_table" by (simp add: stdio_def demo_table_def)
  moreover have "length demo_edges = 1" by (simp add: demo_edges_def)
  ultimately have r: "spawn_ready 256 [4, 5] (length (nw_units ?m)) (nw_edges ?m) demo_table"
    unfolding spawn_ready_def below_def t
    by (simp add: dom demo_units_def NW_FD_SWEEP_def nw_limits)
  have "nw_spawn ProcListed 256 [''/p'', ''3'', ''2'', ''4'', ''5''] [''NW_SUP'' \<mapsto> ''/sup'']
      [''/p'' \<mapsto> ?m] (\<lambda>i. of_nat (100 + i)) demo_table = Inr
    \<lparr>sp_houses = map (house_outcome (256 - (card (dom demo_table) + 2 * length (nw_edges ?m)))
        [''NW_SUP'' \<mapsto> ''/sup''] (nw_units ?m) (nw_binds ?m) (nw_edges ?m)) [0..<length (nw_units ?m)],
     sp_report = report_of (map (\<lambda>i. of_nat (100 + i)) [0..<length (nw_units ?m)]),
     sp_fds = fold fd_close [4, 5] demo_table\<rparr>"
    by (rule nw_spawn_boots [where disk = "[''/p'' \<mapsto> ?m]" and path = "''/p''" and s = "''/sup''",
        OF a _ _ re r]) simp_all
  note out = this [unfolded t]
  have l: "length demo_units = 2" by (simp add: demo_units_def)
  have h: "edges_of demo_edges 1 = [0]" "side (demo_edges ! 0) 1 = 0" "peer (demo_edges ! 0) 1 = 0"
    by (simp_all add: edges_of_def demo_edges_def touches_def side_def peer_def)
  have n: "cstr (u_name (demo_units ! 0)) = ''web''" by code_simp
  have "wire_vars [''web''] = [(''NW_WIRE_3'', ''web'')]" by code_simp
  moreover have "''NW_WIRE_3'' \<notin> fst ` set (unit_vars u)" for u by (simp add: unit_vars_def)
  ultimately have "spawn_env e u [''web''] ps ''NW_WIRE_3'' = Some ''web''" for e u ps
    by (simp add: env_var setenv_all_other setenv_all_Cons setenv_all_Nil)
  moreover have "card (dom demo_table) = 6" "length demo_edges = 1" unfolding dom by (simp_all add: demo_edges_def)
  ultimately show ?thesis
    using out h n unfolding l by (simp add: house_spec_def house_outcome_def)
qed

end
