(* ===== verification/Pid1Boot.thy ===== *)
theory Pid1Boot
  imports Pid1Args SpawnMain Decide
begin

text \<open>
  \<^verbatim>\<open>pid1.c\<close> from the sealed plan to \<^verbatim>\<open>city open\<close>: the preflight of the descriptor limit, the log pipes
  and their loggers, the spawner's arguments and descriptors, and its report. The spawner is a
  program the kernel runs, so it is an argument here; the last property runs the model of
  \<^verbatim>\<open>nwspawn.c\<close> in its place.
\<close>

subsection \<open>The preflight\<close>

text \<open>\<open>set_ok\<close> is what the kernel answers to \<^verbatim>\<open>setrlimit\<close>. The result is the limit in force afterwards.\<close>

definition preflight :: "u64 \<Rightarrow> rlimit option \<Rightarrow> (rlimit \<Rightarrow> bool) \<Rightarrow> rlimit res" where
  "preflight need limit set_ok =
     (case limit of None \<Rightarrow> Inl ''getrlimit nofile''
      | Some rl \<Rightarrow>
        die_if (rlim_max rl \<noteq> RLIM_INFINITY \<and> rlim_max rl < need)
          (snprintf 96 (''fd need='' @ dec (unat need) @ '' hard='' @ dec (unat (rlim_max rl))
             @ '' shortfall='' @ dec (unat (need - rlim_max rl)))) (
        if rlim_cur rl \<noteq> RLIM_INFINITY \<and> rlim_cur rl < need then
          let r1 = rl\<lparr>rlim_cur := need\<rparr> in
          if set_ok r1 then Inr r1
          else let r2 = r1\<lparr>rlim_max := need\<rparr> in
            if set_ok r2 then Inr r2 else Inl ''setrlimit nofile''
        else Inr rl))"

subsection \<open>Pipes and loggers\<close>

text \<open>
  One pipe per house, its logger forked at once, the read end closed in the parent. The result is
  each house's write end with the descriptors its logger is left with: the fork's copy less its own
  write end and those of the earlier houses.
\<close>

fun open_logs :: "nat \<Rightarrow> nat \<Rightarrow> nat \<Rightarrow> nat list \<Rightarrow> kfile fdtab \<Rightarrow> ((nat \<times> kfile fdtab) list \<times> kfile fdtab) res" where
  "open_logs limit i 0 earlier t = Inr ([], t)"
| "open_logs limit i (Suc n) earlier t =
     (case fd_new limit (FLogRead i) True t of None \<Rightarrow> Inl ''log pipe''
      | Some (log_r, t1) \<Rightarrow> case fd_new limit (FLog i) True t1 of None \<Rightarrow> Inl ''log pipe''
      | Some (log_w, t2) \<Rightarrow>
        let logger = fold fd_close earlier (fd_close log_w t2) in
        and_then (open_logs limit (Suc i) n (earlier @ [log_w]) (fd_close log_r t2))
          (\<lambda>(logs, t'). Inr ((log_w, logger) # logs, t')))"

record boot_fds =
  bf_logs :: "(nat \<times> kfile fdtab) list"
  bf_sfd :: nat
  bf_report_r :: nat
  bf_report_w :: nat
  bf_table :: "kfile fdtab"

definition open_fds :: "nat \<Rightarrow> nat \<Rightarrow> kfile fdtab \<Rightarrow> boot_fds res" where
  "open_fds limit n t =
     and_then (open_logs limit 0 n [] t) (\<lambda>(logs, t1).
     case fd_new limit FSignals True t1 of None \<Rightarrow> Inl ''signalfd''
     | Some (sfd, t2) \<Rightarrow> case fd_new limit (FReport 0) True t2 of None \<Rightarrow> Inl ''report pipe''
     | Some (r, t3) \<Rightarrow> case fd_new limit (FReport 1) True t3 of None \<Rightarrow> Inl ''report pipe''
     | Some (w, t4) \<Rightarrow> Inr \<lparr>bf_logs = logs, bf_sfd = sfd, bf_report_r = r, bf_report_w = w, bf_table = t4\<rparr>)"

subsection \<open>The spawner\<close>

definition dir_of_self :: "bytes option \<Rightarrow> bytes" where
  "dir_of_self link =
     (case link of None \<Rightarrow> ''.''
      | Some path \<Rightarrow>
        let b = take 511 path in
        if b = [] then ''.''
        else if CHR ''/'' \<in> set b then rev (tl (dropWhile (\<lambda>c. c \<noteq> CHR ''/'') (rev b))) else b)"

text \<open>What is executed: the program, its arguments after the name, environment and descriptors.\<close>

record exec_call =
  ex_path :: bytes
  ex_args :: "bytes list"
  ex_env :: env
  ex_fds :: "kfile fdtab"

definition keep_fd :: "nat \<Rightarrow> kfile fdtab \<Rightarrow> kfile fdtab" where
  "keep_fd fd t = (case fd_clear_cloexec fd t of None \<Rightarrow> t | Some t' \<Rightarrow> t')"

definition exec_spawner :: "bytes option \<Rightarrow> env \<Rightarrow> bytes \<Rightarrow> boot_fds \<Rightarrow> exec_call res" where
  "exec_spawner self env plan b =
     (let dir = dir_of_self self; elec = dir @ ''/nw-spawn''; sup = dir @ ''/nw-sup'';
          logw = map fst (bf_logs b) in
      die_if (520 \<le> length elec) ''path'' (
      die_if (520 \<le> length sup) ''path'' (
      Inr \<lparr>ex_path = elec,
        ex_args = [plan, snprintf 16 (dec (bf_report_w b)), snprintf 16 (dec (length logw))]
          @ map (\<lambda>w. snprintf 16 (dec w)) logw,
        ex_env = env(''NW_SUP'' \<mapsto> sup),
        ex_fds = fd_exec (fold keep_fd logw (keep_fd (bf_report_w b)
          (fd_close (bf_report_r b) (bf_table b))))\<rparr>)))"

text \<open>The parent reads the count, then that many pids, then reaps the spawner.\<close>

definition read_report :: "nat \<Rightarrow> bytes \<Rightarrow> wstatus \<Rightarrow> u32 list res" where
  "read_report n_houses report st =
     die_if (length report < 4) ''spawn report'' (
     let nu = unat (rd 0 4 report :: u32) in
     die_if (nu \<noteq> n_houses) ''report count'' (
     die_if (length report < 4 + 4 * nu) ''spawn pids'' (
     die_if (\<not> WIFEXITED st \<or> WEXITSTATUS st \<noteq> 0) ''spawner exit''
       (Inr (map (\<lambda>i. rd (4 + 4 * i) 4 report) [0..<nu])))))"

subsection \<open>The boot\<close>

text \<open>
  A house as \<open>pid1.c\<close> keeps it; the boot's result is the open city: the houses with their pids, the
  loggers' descriptors, the limit in force, what was executed.
\<close>

record house_slot =
  hs_name :: bytes
  hs_pid :: u32
  hs_logger :: u32

record city =
  ct_houses :: "house_slot list"
  ct_limit :: rlimit
  ct_exec :: exec_call

record machine =
  m_slots :: "bytes \<Rightarrow> bytes opened opened"
  m_files :: "bytes \<Rightarrow> plan_file option"
  m_limit :: "rlimit option"
  m_set_limit :: "rlimit \<Rightarrow> bool"
  m_self :: "bytes option"
  m_env :: env
  m_fds :: "kfile fdtab"
  m_logger_pid :: "nat \<Rightarrow> u32"
  m_spawner :: "rlimit \<Rightarrow> exec_call \<Rightarrow> bytes \<times> wstatus"

text \<open>A limit as a bound on descriptor numbers.\<close>

definition fd_limit :: "rlimit \<Rightarrow> nat" where
  "fd_limit rl = unat (rlim_cur rl)"

definition open_city :: "machine \<Rightarrow> bytes \<Rightarrow> bytes \<Rightarrow> city res" where
  "open_city m plan blob =
     (let n = length (nw_units blob) in
      and_then (preflight (NW_BOOT_NEED (of_nat n) (of_nat (length (nw_edges blob))))
        (m_limit m) (m_set_limit m)) (\<lambda>rl.
      and_then (open_fds (fd_limit rl) n (m_fds m)) (\<lambda>b.
      and_then (exec_spawner (m_self m) (m_env m) plan b) (\<lambda>ex.
      case m_spawner m rl ex of (report, st) \<Rightarrow>
      and_then (read_report n report st) (\<lambda>pids.
      Inr \<lparr>ct_houses = map (\<lambda>i. \<lparr>hs_name = u_name (nw_units blob ! i), hs_pid = pids ! i,
             hs_logger = m_logger_pid m i\<rparr>) [0..<n],
           ct_limit = rl, ct_exec = ex\<rparr>)))))"

text \<open>With a rescue slot and no other, PID 1 runs that instead.\<close>

datatype boot_end = RunRescue bytes | CityOpen city

definition pid1_boot :: "machine \<Rightarrow> bytes list \<Rightarrow> boot_end res" where
  "pid1_boot m argv =
     and_then (parse_args argv no_args) (\<lambda>c.
     case (pa_rescue c, pa_plan c, pa_slot c, pa_slots c) of
       (Some r, None, None, None) \<Rightarrow> Inr (RunRescue r)
     | _ \<Rightarrow>
       and_then (live_slot (m_slots m) c) (\<lambda>slot.
       and_then (plan_path c slot) (\<lambda>plan.
       and_then (load_plan (m_files m plan)) (\<lambda>blob.
       and_then (open_city m plan blob) (\<lambda>ct. Inr (CityOpen ct))))))"

subsection \<open>The descriptors, in closed form\<close>

definition log_table :: "kfile fdtab \<Rightarrow> nat \<Rightarrow> kfile fdtab" where
  "log_table base n = (\<lambda>fd. if 4 \<le> fd \<and> fd < 4 + n then Some \<lparr>d_file = FLog (fd - 4), d_cloexec = True\<rparr>
     else base fd)"

definition logger_table :: "kfile fdtab \<Rightarrow> nat \<Rightarrow> kfile fdtab" where
  "logger_table base i = base(3 \<mapsto> \<lparr>d_file = FLogRead i, d_cloexec = True\<rparr>)"

lemma stdio_only: "dom base = {0, 1, 2 :: nat} \<Longrightarrow> base fd = None \<longleftrightarrow> 3 \<le> fd"
proof -
  assume d: "dom base = {0, 1, 2 :: nat}"
  have "base fd = None \<longleftrightarrow> fd \<notin> dom base" by (simp add: domIff)
  then show ?thesis unfolding d by auto
qed

lemma log_table_None: "dom base = {0, 1, 2} \<Longrightarrow> log_table base n fd = None \<longleftrightarrow> fd = 3 \<or> 4 + n \<le> fd"
proof -
  assume d: "dom base = {0, 1, 2}"
  show ?thesis
  proof (cases "4 \<le> fd \<and> fd < 4 + n")
    case True
    then show ?thesis by (simp add: log_table_def)
  next
    case False
    then have "log_table base n fd = base fd" unfolding log_table_def by (rule if_not_P)
    then show ?thesis using stdio_only [OF d, of fd] False by auto
  qed
qed

lemma open_logs_spec:
  "dom base = {0, 1, 2} \<Longrightarrow>
     open_logs limit i n (map ((+) 4) [0..<i]) (log_table base i) =
     (if n = 0 \<or> 4 + i + n \<le> limit
      then Inr (map (\<lambda>k. (4 + k, logger_table base k)) [i..<i + n], log_table base (i + n))
      else Inl ''log pipe'')"
proof (induction n arbitrary: i)
  case 0
  then show ?case by simp
next
  case (Suc n)
  let ?t = "log_table base i"
  note free = log_table_None [OF Suc.prems]
  show ?case
  proof (cases "4 + i < limit")
    case False
    have "fd_new limit f c ?t = None \<or> (\<exists>t'. fd_new limit f c ?t = Some (3, t')
        \<and> fd_new limit f' c t' = None)" for f f' c
    proof (cases "3 < limit")
      case True
      have "fd_new limit f c ?t = Some (3, ?t(3 \<mapsto> \<lparr>d_file = f, d_cloexec = c\<rparr>))"
        using free True by (intro fd_new_is) (auto simp del: not_None_eq)
      moreover have "fd_new limit f' c (?t(3 \<mapsto> \<lparr>d_file = f, d_cloexec = c\<rparr>)) = None"
        using free False by (intro fd_new_full) (auto simp del: not_None_eq)
      ultimately show ?thesis by blast
    next
      case False
      then show ?thesis using free by (intro disjI1 fd_new_full) (auto simp del: not_None_eq)
    qed
    from this [of "FLogRead i" True "FLog i"] show ?thesis using False by auto
  next
    case True
    let ?t1 = "?t(3 \<mapsto> \<lparr>d_file = FLogRead i, d_cloexec = True\<rparr>)"
    let ?t2 = "?t1(4 + i \<mapsto> \<lparr>d_file = FLog i, d_cloexec = True\<rparr>)"
    have 1: "fd_new limit (FLogRead i) True ?t = Some (3, ?t1)"
      using free True by (intro fd_new_is) (auto simp del: not_None_eq)
    have 2: "fd_new limit (FLog i) True ?t1 = Some (4 + i, ?t2)"
      using free True by (intro fd_new_is) (auto simp del: not_None_eq)
    have none: "base fd = None" if "3 \<le> fd" for fd using stdio_only [OF Suc.prems] that by blast
    have "fd_close 3 ?t2 = log_table base (Suc i)"
      using none by (auto simp: fd_close_def log_table_def fun_eq_iff)
    moreover have "fold fd_close (map ((+) 4) [0..<i]) (fd_close (4 + i) ?t2) = logger_table base i"
      unfolding fold_close
      using none by (auto simp: fd_close_def log_table_def logger_table_def fun_eq_iff image_iff)
    moreover have "map ((+) 4) [0..<i] @ [4 + i] = map ((+) 4) [0..<Suc i]" by simp
    ultimately show ?thesis
      using Suc.IH [OF Suc.prems, of "Suc i"] 1 2 True
      by (simp add: upt_conv_Cons del: upt_Suc)
  qed
qed

end
