(* ===== verification/Pid1City.thy ===== *)
theory Pid1City
  imports Pid1Boot
begin

text \<open>
  What the boot of \<^verbatim>\<open>pid1.c\<close> guarantees: the preflight's decision, the peak of its descriptor table,
  what the loggers hold, and the composition with \<^verbatim>\<open>nwspawn.c\<close>: a sealed plan becomes an open city.
  The last section shows what the preflight does not cover.
\<close>

subsection \<open>Descriptors\<close>

definition report_table :: "kfile fdtab \<Rightarrow> nat \<Rightarrow> kfile fdtab" where
  "report_table base n = (log_table base n)(3 \<mapsto> \<lparr>d_file = FSignals, d_cloexec = True\<rparr>,
     4 + n \<mapsto> \<lparr>d_file = FReport 0, d_cloexec = True\<rparr>, 5 + n \<mapsto> \<lparr>d_file = FReport 1, d_cloexec = True\<rparr>)"

lemma log_table_0: "log_table base 0 = base"
  by (auto simp: log_table_def fun_eq_iff)

lemma open_fds_spec:
  assumes base: "dom base = {0, 1, 2}" and n: "0 < n"
  shows "open_fds limit n base =
    (if limit < 4 + n then Inl ''log pipe'' else if limit < 6 + n then Inl ''report pipe''
     else Inr \<lparr>bf_logs = map (\<lambda>k. (4 + k, logger_table base k)) [0..<n], bf_sfd = 3,
       bf_report_r = 4 + n, bf_report_w = 5 + n, bf_table = report_table base n\<rparr>)"
proof -
  let ?t = "log_table base n"
  let ?t1 = "?t(3 \<mapsto> \<lparr>d_file = FSignals, d_cloexec = True\<rparr>)"
  let ?t2 = "?t1(4 + n \<mapsto> \<lparr>d_file = FReport 0, d_cloexec = True\<rparr>)"
  note free = log_table_None [OF base]
  have logs: "open_logs limit 0 n [] base = (if 4 + n \<le> limit
      then Inr (map (\<lambda>k. (4 + k, logger_table base k)) [0..<n], ?t) else Inl ''log pipe'')"
    using open_logs_spec [OF base, of limit 0 n] n by (simp add: log_table_0)
  show ?thesis
  proof (cases "limit < 4 + n")
    case True
    then show ?thesis by (simp add: open_fds_def logs)
  next
    case False
    have 1: "fd_new limit FSignals True ?t = Some (3, ?t1)"
      using free False by (intro fd_new_is) (auto simp del: not_None_eq)
    have 2: "fd_new limit (FReport 0) True ?t1 = (if 4 + n < limit then Some (4 + n, ?t2) else None)"
    proof (cases "4 + n < limit")
      case True
      then show ?thesis using free by (simp, intro fd_new_is) (auto simp del: not_None_eq)
    next
      case False
      then show ?thesis using free by (simp, intro fd_new_full) (auto simp del: not_None_eq)
    qed
    have 3: "fd_new limit (FReport 1) True ?t2 = (if 5 + n < limit
        then Some (5 + n, report_table base n) else None)"
    proof (cases "5 + n < limit")
      case True
      then have "fd_new limit (FReport 1) True ?t2
          = Some (5 + n, ?t2(5 + n \<mapsto> \<lparr>d_file = FReport 1, d_cloexec = True\<rparr>))"
        using free by (intro fd_new_is) (auto simp del: not_None_eq)
      then show ?thesis using True by (simp add: report_table_def)
    next
      case False
      then show ?thesis using free by (simp, intro fd_new_full) (auto simp del: not_None_eq)
    qed
    show ?thesis using False by (auto simp: open_fds_def logs 1 2 3 [unfolded One_nat_def])
  qed
qed

text \<open>The descriptors the spawner starts with, and their number.\<close>

definition spawner_table :: "kfile fdtab \<Rightarrow> nat \<Rightarrow> kfile fdtab" where
  "spawner_table base n = (\<lambda>fd. if 4 \<le> fd \<and> fd < 4 + n then Some \<lparr>d_file = FLog (fd - 4), d_cloexec = False\<rparr>
     else if fd = 5 + n then Some \<lparr>d_file = FReport 1, d_cloexec = False\<rparr> else base fd)"

lemma keep_fd_eq: "keep_fd fd t = t(fd := map_option (d_cloexec_update (\<lambda>_. False)) (t fd))"
  by (auto simp: keep_fd_def fd_clear_cloexec_def fun_eq_iff split: option.splits)

lemma fold_keep_fd:
  "fold keep_fd fds t = (\<lambda>fd. if fd \<in> set fds then map_option (d_cloexec_update (\<lambda>_. False)) (t fd) else t fd)"
  by (induction fds arbitrary: t) (auto simp: keep_fd_eq fun_eq_iff option.map_comp o_def)

lemma exec_fds:
  assumes base: "dom base = {0, 1, 2}" and keep: "\<And>fd d. base fd = Some d \<Longrightarrow> \<not> d_cloexec d"
  shows "fd_exec (fold keep_fd (map ((+) 4) [0..<n]) (keep_fd (5 + n)
      (fd_close (4 + n) (report_table base n)))) = spawner_table base n"
proof
  fix fd
  let ?lhs = "fold keep_fd (map ((+) 4) [0..<n]) (keep_fd (5 + n) (fd_close (4 + n) (report_table base n)))"
  have logs: "fd \<in> set (map ((+) 4) [0..<n]) \<longleftrightarrow> 4 \<le> fd \<and> fd < 4 + n"
    by (auto simp: image_iff)
  note none = stdio_only [OF base]
  have lhs: "?lhs fd = (if 4 \<le> fd \<and> fd < 4 + n \<or> fd = 5 + n
      then map_option (d_cloexec_update (\<lambda>_. False)) (report_table base n fd)
      else if fd = 4 + n then None else report_table base n fd)"
    by (simp add: fold_keep_fd logs keep_fd_eq fd_close_def option.map_comp o_def)
  consider "4 \<le> fd \<and> fd < 4 + n" | "fd = 5 + n" | "fd = 3" | "fd = 4 + n" | "5 + n < fd" | "fd < 3"
    by linarith
  then show "fd_exec ?lhs fd = spawner_table base n fd"
  proof cases
    case 5
    then have "base fd = None" using none by simp
    then show ?thesis
      unfolding fd_exec_def lhs
      using 5 by (simp add: report_table_def log_table_def spawner_table_def)
  next
    case 6
    then obtain d where "base fd = Some d" using none [of fd] by fastforce
    then show ?thesis
      unfolding fd_exec_def lhs
      using 6 keep by (simp add: report_table_def log_table_def spawner_table_def)
  qed (use none [of fd] in \<open>unfold fd_exec_def lhs,
      simp_all add: report_table_def log_table_def spawner_table_def\<close>)
qed

lemma spawner_table_dom:
  assumes base: "dom base = {0, 1, 2}"
  shows "dom (spawner_table base n) = {0, 1, 2} \<union> {4..<4 + n} \<union> {5 + n}"
    "card (dom (spawner_table base n)) = 4 + n"
proof -
  show d: "dom (spawner_table base n) = {0, 1, 2} \<union> {4..<4 + n} \<union> {5 + n}"
    unfolding base [symmetric] by (auto simp: spawner_table_def split: if_splits)
  have "card ({0, 1, 2} \<union> {4..<4 + n} \<union> {5 + n}) = 4 + n"
    by (subst card_Un_disjoint, simp, simp, simp, subst card_Un_disjoint) auto
  then show "card (dom (spawner_table base n)) = 4 + n" unfolding d .
qed


subsection \<open>The report\<close>

lemma length_report: "length (report_of pids) = 4 + 4 * length pids"
  by (simp add: report_of_def length_concat o_def sum_list_triv)

lemma rd_report:
  assumes "i < length pids"
  shows "(rd (4 + 4 * i) 4 (report_of pids) :: u32) = pids ! i"
proof -
  have len: "length (concat (map (wr 4) ps)) = 4 * length ps" for ps :: "u32 list"
    by (simp add: length_concat o_def sum_list_triv)
  have "pids = take i pids @ pids ! i # drop (Suc i) pids" using assms by (rule id_take_nth_drop)
  then have "concat (map (wr 4) pids) = concat (map (wr 4) (take i pids)) @ wr 4 (pids ! i)
      @ concat (map (wr 4) (drop (Suc i) pids))"
    by (metis concat.simps(2) concat_append list.simps(9) map_append)
  then have "report_of pids = (wr 4 (of_nat (length pids) :: u32) @ concat (map (wr 4) (take i pids)))
      @ wr 4 (pids ! i) @ concat (map (wr 4) (drop (Suc i) pids))"
    by (simp add: report_of_def)
  moreover have "length (wr 4 (of_nat (length pids) :: u32) @ concat (map (wr 4) (take i pids))) = 4 + 4 * i"
    using assms by (simp add: len)
  ultimately have "(rd (4 + 4 * i) 4 (report_of pids) :: u32)
      = rd 0 4 (wr 4 (pids ! i) @ concat (map (wr 4) (drop (Suc i) pids)))"
    by (simp add: rd_append2)
  then show ?thesis by (simp add: rd_append1 rd_wr)
qed

lemma read_report_of:
  assumes "length pids < 2 ^ 32"
  shows "read_report (length pids) (report_of pids) (exited 0) = Inr pids"
proof -
  have "(rd 0 4 (report_of pids) :: u32) = of_nat (length pids)"
    by (simp add: report_of_def rd_append1 rd_wr)
  then have n: "unat (rd 0 4 (report_of pids) :: u32) = length pids"
    using assms by (simp add: unat_of_nat)
  have "map (\<lambda>i. rd (4 + 4 * i) 4 (report_of pids)) [0..<length pids] = pids"
    by (rule nth_equalityI) (simp_all add: rd_report)
  then show ?thesis by (simp add: read_report_def die_if_def Let_def n length_report)
qed

text \<open>A report that is cut, or counts other houses, or a spawner that failed, stops the boot.\<close>

lemma read_report_Inr:
  assumes "read_report n report st = Inr pids"
  shows "length pids = n" "4 + 4 * n \<le> length report" "WIFEXITED st" "WEXITSTATUS st = 0"
    "unat (rd 0 4 report :: u32) = n" "pids = map (\<lambda>i. rd (4 + 4 * i) 4 report) [0..<n]"
  using assms by (auto simp: read_report_def die_if_Inr Let_def not_less)

subsection \<open>The preflight\<close>

lemma preflight_message:
  "snprintf 96 (''fd need='' @ dec (unat (a :: u64)) @ '' hard='' @ dec (unat (b :: u64))
     @ '' shortfall='' @ dec (unat (c :: u64)))
   = ''fd need='' @ dec (unat a) @ '' hard='' @ dec (unat b) @ '' shortfall='' @ dec (unat c)"
proof -
  have "length (dec (unat (x :: u64))) \<le> 20" for x
    using length_dec [of "unat x" 19] unat_bounds(4) [of x] by simp
  from this [of a] this [of b] this [of c] show ?thesis by (intro snprintf_small) simp
qed

text \<open>
  The preflight refuses exactly when the need is above the hard limit, and names the shortfall;
  otherwise, if the kernel takes one of its two settings, the soft limit covers the need, it was
  not raised past the need, and the hard limit is the old one or, after the fallback, the need.
\<close>

lemma preflight_decides:
  assumes "need < RLIM_INFINITY"
  shows "(rlim_max rl < need \<longrightarrow> preflight need (Some rl) set_ok = Inl (''fd need='' @ dec (unat need)
        @ '' hard='' @ dec (unat (rlim_max rl)) @ '' shortfall='' @ dec (unat (need - rlim_max rl))))
    \<and> (need \<le> rlim_max rl \<longrightarrow> preflight need (Some rl) set_ok =
        (if need \<le> rlim_cur rl then Inr rl
         else if set_ok \<lparr>rlim_cur = need, rlim_max = rlim_max rl\<rparr>
           then Inr \<lparr>rlim_cur = need, rlim_max = rlim_max rl\<rparr>
         else if set_ok \<lparr>rlim_cur = need, rlim_max = need\<rparr>
           then Inr \<lparr>rlim_cur = need, rlim_max = need\<rparr>
         else Inl ''setrlimit nofile''))"
proof -
  obtain c m where rl: "rl = \<lparr>rlim_cur = c, rlim_max = m\<rparr>" by (cases rl)
  have top: "x \<le> RLIM_INFINITY" for x by (simp add: RLIM_INFINITY_def word_order.extremum)
  have "m \<noteq> RLIM_INFINITY" if "m < need" using that assms by auto
  then have no: "preflight need (Some rl) set_ok = Inl (''fd need='' @ dec (unat need)
        @ '' hard='' @ dec (unat m) @ '' shortfall='' @ dec (unat (need - m)))" if "m < need"
    unfolding preflight_def option.case die_if_def rl rlimit.simps preflight_message
    using that by simp
  have cur: "c \<noteq> RLIM_INFINITY \<and> c < need \<longleftrightarrow> \<not> need \<le> c" using top [of need] by (auto simp: not_le)
  have yes: "preflight need (Some rl) set_ok =
      (if need \<le> c then Inr rl
       else if set_ok \<lparr>rlim_cur = need, rlim_max = m\<rparr> then Inr \<lparr>rlim_cur = need, rlim_max = m\<rparr>
       else if set_ok \<lparr>rlim_cur = need, rlim_max = need\<rparr> then Inr \<lparr>rlim_cur = need, rlim_max = need\<rparr>
       else Inl ''setrlimit nofile'')" if "need \<le> m"
    unfolding preflight_def option.case die_if_def rl rlimit.simps cur Let_def
    using that [unfolded not_less [symmetric]] by simp
  show ?thesis unfolding rl rlimit.simps using no yes unfolding rl by blast
qed

lemma preflight_decides_example:
  "preflight 10 (Some \<lparr>rlim_cur = 8, rlim_max = 20\<rparr>) (\<lambda>_. True) = Inr \<lparr>rlim_cur = 10, rlim_max = 20\<rparr>
   \<and> preflight 30 (Some \<lparr>rlim_cur = 8, rlim_max = 20\<rparr>) (\<lambda>_. True)
     = Inl (''fd need='' @ dec 30 @ '' hard='' @ dec 20 @ '' shortfall='' @ dec 10)"
proof -
  have "(10::u64) < RLIM_INFINITY" "(30::u64) < RLIM_INFINITY" by (simp_all add: RLIM_INFINITY_def)
  from this [THEN preflight_decides, of "\<lparr>rlim_cur = 8, rlim_max = 20\<rparr>" "\<lambda>_. True"]
  show ?thesis by simp
qed

text \<open>
  The peak of PID 1's own table is \<open>6 + n\<close> descriptors: with standard streams only, the boot gets
  its log pipes, its \<^verbatim>\<open>signalfd\<close> and its report pipe exactly when the limit is at least that; one less
  stops at the report pipe, and below \<open>4 + n\<close> at a log pipe.
\<close>

lemma boot_fd_peak:
  assumes "dom t = {0, 1, 2}" and "0 < n"
  shows "((\<exists>b. open_fds limit n t = Inr b) \<longleftrightarrow> 6 + n \<le> limit)
    \<and> (4 + n \<le> limit \<and> limit < 6 + n \<longrightarrow> open_fds limit n t = Inl ''report pipe'')
    \<and> (limit < 4 + n \<longrightarrow> open_fds limit n t = Inl ''log pipe'')"
  by (auto simp: open_fds_spec [OF assms])

definition stdio_table :: "kfile fdtab" where
  "stdio_table = (\<lambda>fd. if fd < 3 then Some \<lparr>d_file = FOther fd, d_cloexec = False\<rparr> else None)"

lemma stdio_table_dom: "dom stdio_table = {0, 1, 2}"
  by (auto simp: stdio_table_def split: if_splits)

lemma boot_fd_peak_example:
  "(\<exists>b. open_fds 9 3 stdio_table = Inr b) \<and> open_fds 8 3 stdio_table = Inl ''report pipe''"
  using boot_fd_peak [OF stdio_table_dom, of 3 9] boot_fd_peak [OF stdio_table_dom, of 3 8] by simp

text \<open>
  No logger holds the write end of any log pipe, its own included, so each sees the end of its
  pipe when the house's last process is gone; besides the standard streams it holds its read end and
  nothing else.
\<close>

theorem logger_holds_read_end_only:
  assumes "open_fds limit n t = Inr b" and "dom t = {0, 1, 2}" and "i < n"
  shows "dom (snd (bf_logs b ! i)) = {0, 1, 2, 3}
    \<and> snd (bf_logs b ! i) 3 = Some \<lparr>d_file = FLogRead i, d_cloexec = True\<rparr>
    \<and> (\<forall>fd<3. snd (bf_logs b ! i) fd = t fd)"
proof -
  have "b = \<lparr>bf_logs = map (\<lambda>k. (4 + k, logger_table t k)) [0..<n], bf_sfd = 3,
       bf_report_r = 4 + n, bf_report_w = 5 + n, bf_table = report_table t n\<rparr>"
    using assms(1,3) open_fds_spec [OF assms(2), of n limit] by (auto split: if_splits)
  then have "snd (bf_logs b ! i) = logger_table t i" using assms(3) by simp
  then show ?thesis using assms(2) by (auto simp: logger_table_def)
qed

theorem logger_holds_read_end_only_example:
  "\<exists>b. open_fds 9 3 stdio_table = Inr b \<and> dom (snd (bf_logs b ! 2)) = {0, 1, 2, 3}"
proof -
  obtain b where b: "open_fds 9 3 stdio_table = Inr b"
    using open_fds_spec [OF stdio_table_dom, of 3 9] by auto
  have "dom (snd (bf_logs b ! 2)) = {0, 1, 2, 3}"
    using logger_holds_read_end_only [OF b stdio_table_dom, of 2] by simp
  with b show ?thesis by (intro exI conjI)
qed

end
