(* ===== verification/CityBoot.thy ===== *)
theory CityBoot
  imports Pid1City
begin

text \<open>
  \<^verbatim>\<open>pid1.c\<close> and \<^verbatim>\<open>nwspawn.c\<close> together. PID 1's boot runs the model of the spawner on exactly what it
  executes: arguments, environment, descriptors, limit. The result is the open city; the same
  equation also says which houses of it never started, which the preflight was to rule out.
\<close>

definition run_spawner ::
  "proc_dir \<Rightarrow> (bytes \<Rightarrow> bytes option) \<Rightarrow> (nat \<Rightarrow> u32) \<Rightarrow> rlimit \<Rightarrow> exec_call \<Rightarrow> bytes \<times> wstatus" where
  "run_spawner proc disk pids rl ex =
     (case nw_spawn proc (fd_limit rl) (ex_args ex) (ex_env ex) disk pids (ex_fds ex) of
        Inl _ \<Rightarrow> ([], exited 71)
      | Inr out \<Rightarrow> (sp_report out, exited 0))"

subsection \<open>What PID 1 executes is what the spawner expects\<close>

lemma snprintf16_dec: "k < 10 ^ 9 \<Longrightarrow> snprintf 16 (dec k) = dec k"
  using length_dec [of k 8] by (intro snprintf_small) simp

lemma spawn_args_boot:
  assumes "1 \<le> n" "n \<le> NW_MAX_UNITS"
  shows "spawn_args ([plan, snprintf 16 (dec (5 + n)), snprintf 16 (dec n)]
      @ map (\<lambda>w. snprintf 16 (dec w)) (map ((+) 4) [0..<n]))
    = Inr (plan, atoi (dec (5 + n)), map ((+) 4) [0..<n])"
proof -
  have n: "n \<le> 64" using assms(2) by (simp add: nw_limits)
  have logs: "map (\<lambda>w. snprintf 16 (dec w)) (map ((+) 4) [0..<n]) = map (\<lambda>k. dec (4 + k)) [0..<n]"
    using n by (simp add: snprintf16_dec)
  have at: "sint (atoi (dec (4 + k))) = int (4 + k)" if "k < n" for k
    using that n by (intro sint_atoi_small) simp
  have 1: "snprintf 16 (dec (5 + n)) = dec (5 + n)" "snprintf 16 (dec n) = dec n"
    using n by (intro snprintf16_dec; simp)+
  have 2: "sint (atoi (dec n)) = int n" using n by (intro sint_atoi_small) simp
  have 3: "\<not> list_ex (\<lambda>l. sint (atoi l) < 0) (map (\<lambda>k. dec (4 + k)) [0..<n])"
    using at by (simp add: list_ex_iff)
  have 4: "map (\<lambda>l. nat (sint (atoi l))) (map (\<lambda>k. dec (4 + k)) [0..<n]) = map ((+) 4) [0..<n]"
    using at by (auto simp: nat_add_distrib)
  show ?thesis
    unfolding logs 1 spawn_args_def append.simps list.case Let_def 2 4 die_if_def
    using assms n 3 by (simp add: nw_limits)
qed

lemma spawner_ready:
  assumes base: "dom base = {0, 1, 2}" and room: "6 + n + 2 * length es \<le> limit" "limit \<le> NW_FD_SWEEP"
  shows "spawn_ready limit (map ((+) 4) [0..<n]) n es (spawner_table base n)"
proof -
  note d = spawner_table_dom [OF base, of n]
  have "finite (dom (spawner_table base n))" unfolding d(1) by simp
  moreover have "below limit (spawner_table base n)"
    unfolding below_def d(1) using room(1) by auto
  moreover have "stdio (spawner_table base n)"
    using d(1) unfolding stdio_def by (metis UnI1 domIff insertCI)
  moreover have "\<exists>lg. spawner_table base n (map ((+) 4) [0..<n] ! i) = Some lg \<and> d_file lg = FLog i"
    if "i < n" for i
    using that by (simp add: spawner_table_def)
  ultimately show ?thesis using room unfolding spawn_ready_def d(2) by simp
qed

lemma spawn_recheck_accepted:
  assumes "nw_check blob (of_nat (length blob)) = Some NW_OK" "blob \<noteq> []" "length blob \<le> 35608"
    and "disk = Some blob" "n = length (nw_units blob)"
  shows "spawn_recheck disk n = Inr blob"
  using assms by (simp add: spawn_recheck_def die_if_def Let_def NW_BLOB_BUF_def NW_BLOB_MAX_val
      del: length_nw_units)

lemma accepted_counts:
  assumes "nw_check blob (of_nat (length blob)) = Some NW_OK" "length blob \<le> 35608"
  shows "1 \<le> length (nw_units blob)" "length (nw_units blob) \<le> NW_MAX_UNITS"
    "length (nw_edges blob) \<le> NW_MAX_EDGES"
proof -
  have "length blob = unat (of_nat (length blob) :: u32)" using assms(2) by (simp add: unat_of_nat)
  from nw_check_decides [OF this] assms(1) have "header_wf blob"
    by (simp add: decides_def sealed_wf_def)
  then show "1 \<le> length (nw_units blob)" "length (nw_units blob) \<le> NW_MAX_UNITS"
    "length (nw_edges blob) \<le> NW_MAX_EDGES"
    by (simp_all add: header_wf_def Let_def)
qed

text \<open>The need in the preflight is the macro's value, and an accepted limit covers it.\<close>

lemma boot_need_nat:
  assumes "n \<le> 64" "e \<le> 128"
  shows "unat (NW_BOOT_NEED (of_nat n) (of_nat e)) = 8 + n + 2 * e"
proof -
  have "NW_BOOT_NEED (of_nat n) (of_nat e) = of_nat (8 + n + 2 * e)"
    by (simp add: NW_BOOT_NEED_def nw_limits)
  moreover have "8 + n + 2 * e < 2 ^ 64" using assms by simp
  ultimately show ?thesis by (simp only: unat_of_nat) simp
qed

lemma preflight_covers:
  assumes "preflight need (Some rl) set_ok = Inr rl'"
  shows "need \<le> rlim_cur rl'"
proof -
  have top: "x \<le> RLIM_INFINITY" for x by (simp add: RLIM_INFINITY_def word_order.extremum)
  show ?thesis
    using assms top [of need] unfolding preflight_def option.case die_if_Inr Let_def
    by (auto split: if_splits simp: not_less)
qed

subsection \<open>The city opens\<close>

text \<open>
  The machine PID 1 boots on: standard streams only and none of them close-on-exec, a directory of
  its own that fits its buffer, the plan on disk, and \<^verbatim>\<open>nw-spawn\<close> as the program it executes.
\<close>

definition boots_on :: "machine \<Rightarrow> proc_dir \<Rightarrow> (nat \<Rightarrow> u32) \<Rightarrow> bytes \<Rightarrow> bytes \<Rightarrow> bool" where
  "boots_on m proc pids plan blob \<longleftrightarrow> dom (m_fds m) = {0, 1, 2}
     \<and> (\<forall>fd\<in>{0, 1, 2}. \<not> d_cloexec (the (m_fds m fd)))
     \<and> length (dir_of_self (m_self m)) < 500 \<and> proc \<noteq> ProcNoStream
     \<and> m_files m plan = Some \<lparr>pf_size = Some (int (length blob)), pf_bytes = blob\<rparr>
     \<and> m_spawner m = run_spawner proc [plan \<mapsto> blob] pids"

definition sup_env :: "machine \<Rightarrow> env" where
  "sup_env m = (m_env m)(''NW_SUP'' \<mapsto> dir_of_self (m_self m) @ ''/nw-sup'')"

lemma open_city_ok:
  assumes on: "boots_on m proc pids plan blob"
    and load: "load_plan (m_files m plan) = Inr blob"
    and pre: "preflight (NW_BOOT_NEED (of_nat (length (nw_units blob))) (of_nat (length (nw_edges blob))))
        (m_limit m) (m_set_limit m) = Inr rl"
    and lim: "fd_limit rl \<le> NW_FD_SWEEP"
  defines "n \<equiv> length (nw_units blob)"
  shows "\<exists>ex out. open_city m plan blob = Inr
      \<lparr>ct_houses = map (\<lambda>i. \<lparr>hs_name = u_name (nw_units blob ! i), hs_pid = pids i,
         hs_logger = m_logger_pid m i\<rparr>) [0..<n], ct_limit = rl, ct_exec = ex\<rparr>
    \<and> nw_spawn proc (fd_limit rl) (ex_args ex) (ex_env ex) [plan \<mapsto> blob] pids (ex_fds ex) = Inr out
    \<and> sp_houses out = map (house_outcome (fd_limit rl - (4 + n + 2 * length (nw_edges blob))) (sup_env m)
        (nw_units blob) (nw_binds blob) (nw_edges blob)) [0..<n]"
proof -
  have B: "dom (m_fds m) = {0, 1, 2}" "\<And>fd d. m_fds m fd = Some d \<Longrightarrow> \<not> d_cloexec d"
    "length (dir_of_self (m_self m)) < 500" "proc \<noteq> ProcNoStream"
    "m_files m plan = Some \<lparr>pf_size = Some (int (length blob)), pf_bytes = blob\<rparr>"
    "m_spawner m = run_spawner proc [plan \<mapsto> blob] pids"
  proof -
    show d: "dom (m_fds m) = {0, 1, 2}" using on unfolding boots_on_def by blast
    fix fd x assume "m_fds m fd = Some x"
    moreover from this have "fd \<in> {0, 1, 2}" unfolding d [symmetric] by (rule domI)
    ultimately show "\<not> d_cloexec x" using on unfolding boots_on_def by fastforce
  qed (use on in \<open>unfold boots_on_def, blast+\<close>)
  note L = load_plan_exact(2-4) [OF load [unfolded B(5)]]
  note C = accepted_counts [OF L(3,2), folded n_def]
  let ?e = "length (nw_edges blob)" and ?L = "fd_limit rl" and ?w = "map ((+) 4) [0..<n]"
  from pre obtain rl0 where "m_limit m = Some rl0" by (auto simp: preflight_def split: option.splits)
  from preflight_covers [OF pre [unfolded this]]
  have need: "8 + n + 2 * ?e \<le> ?L"
    using boot_need_nat [of n ?e] C by (simp add: fd_limit_def n_def word_le_nat_alt nw_limits
        del: length_nw_units length_nw_edges)
  let ?b = "\<lparr>bf_logs = map (\<lambda>k. (4 + k, logger_table (m_fds m) k)) [0..<n], bf_sfd = 3,
       bf_report_r = 4 + n, bf_report_w = 5 + n, bf_table = report_table (m_fds m) n\<rparr>"
  let ?t = "spawner_table (m_fds m) n"
  let ?a = "[plan, snprintf 16 (dec (5 + n)), snprintf 16 (dec n)] @ map (\<lambda>w. snprintf 16 (dec w)) ?w"
  let ?ex = "\<lparr>ex_path = dir_of_self (m_self m) @ ''/nw-spawn'', ex_args = ?a, ex_env = sup_env m, ex_fds = ?t\<rparr>"
  have fds: "open_fds ?L n (m_fds m) = Inr ?b"
    using open_fds_spec [OF B(1), of n ?L] C(1) need by simp
  have logs: "map fst (map (\<lambda>k. (4 + k, logger_table (m_fds m) k)) [0..<n]) = ?w" by simp
  have sweep: "fd_exec (fold keep_fd ?w (keep_fd (5 + n) (fd_close (4 + n) (report_table (m_fds m) n)))) = ?t"
    using exec_fds [OF B(1)] B(2) by blast
  have ex: "exec_spawner (m_self m) (m_env m) plan ?b = Inr ?ex"
    unfolding exec_spawner_def Let_def boot_fds.simps logs sweep die_if_def
    using B(3) by (simp add: sup_env_def)
  have "nw_spawn proc ?L ?a (sup_env m) [plan \<mapsto> blob] pids ?t = Inr
    \<lparr>sp_houses = map (house_outcome (?L - (card (dom ?t) + 2 * ?e)) (sup_env m)
        (nw_units blob) (nw_binds blob) (nw_edges blob)) [0..<n],
     sp_report = report_of (map pids [0..<n]), sp_fds = fold fd_close ?w ?t\<rparr>"
    unfolding n_def
  proof (rule nw_spawn_boots [where path = plan and s = "dir_of_self (m_self m) @ ''/nw-sup''", OF spawn_args_boot])
    show "spawn_recheck ([plan \<mapsto> blob] plan) (length (map ((+) 4) [0..<length (nw_units blob)])) = Inr blob"
      by (rule spawn_recheck_accepted [OF L(3,1,2)]) simp_all
    show "spawn_ready ?L (map ((+) 4) [0..<length (nw_units blob)]) (length (nw_units blob)) (nw_edges blob)
        (spawner_table (m_fds m) (length (nw_units blob)))"
      using need unfolding n_def by (intro spawner_ready [OF B(1)] lim) simp
  qed (use B(4) C in \<open>simp_all add: sup_env_def n_def del: length_nw_units\<close>)
  then obtain out where out: "nw_spawn proc ?L ?a (sup_env m) [plan \<mapsto> blob] pids ?t = Inr out"
    "sp_houses out = map (house_outcome (?L - (4 + n + 2 * ?e)) (sup_env m)
        (nw_units blob) (nw_binds blob) (nw_edges blob)) [0..<n]"
    "sp_report out = report_of (map pids [0..<n])"
    unfolding spawner_table_dom(2) [OF B(1)] by (metis (no_types) spawned.select_convs(1,2))
  have "m_spawner m rl ?ex = (report_of (map pids [0..<n]), exited 0)"
    unfolding B(6) run_spawner_def exec_call.simps out(1) sum.case out(3) by (rule refl)
  moreover have "read_report n (report_of (map pids [0..<n])) (exited 0) = Inr (map pids [0..<n])"
    using read_report_of [of "map pids [0..<n]"] C(2) by (simp add: nw_limits)
  ultimately have "open_city m plan blob = Inr
      \<lparr>ct_houses = map (\<lambda>i. \<lparr>hs_name = u_name (nw_units blob ! i), hs_pid = pids i,
         hs_logger = m_logger_pid m i\<rparr>) [0..<n], ct_limit = rl, ct_exec = ?ex\<rparr>"
    unfolding open_city_def Let_def pre and_then.simps fds [unfolded n_def] ex [unfolded n_def]
    by (simp add: n_def)
  with out show ?thesis by (intro exI [of _ ?ex] exI [of _ out]) simp
qed

lemma pid1_boot_opens:
  assumes "parse_args argv no_args = Inr c" "pa_rescue c = None"
    "live_slot (m_slots m) c = Inr slot" "plan_path c slot = Inr plan"
    "load_plan (m_files m plan) = Inr blob"
  shows "pid1_boot m argv = and_then (open_city m plan blob) (\<lambda>ct. Inr (CityOpen ct))"
  using assms by (simp add: pid1_boot_def)


text \<open>A machine with a sealed plan in a slot, for the witnesses.\<close>

definition demo_machine :: "bytes \<Rightarrow> rlimit \<Rightarrow> machine" where
  "demo_machine blob rl = \<lparr>m_slots = (\<lambda>_. Opened (Opened ''A\<newline>'')),
     m_files = [''/slots/A/plan.blob'' \<mapsto> \<lparr>pf_size = Some (int (length blob)), pf_bytes = blob\<rparr>],
     m_limit = Some rl, m_set_limit = (\<lambda>_. True), m_self = Some ''/sbin/nw-root'', m_env = Map.empty,
     m_fds = stdio_table, m_logger_pid = (\<lambda>i. of_nat (50 + i)),
     m_spawner = run_spawner ProcListed [''/slots/A/plan.blob'' \<mapsto> blob] (\<lambda>i. of_nat (100 + i))\<rparr>"

lemma demo_machine_boots:
  "boots_on (demo_machine blob rl) ProcListed (\<lambda>i. of_nat (100 + i)) ''/slots/A/plan.blob'' blob"
proof -
  have "dir_of_self (Some ''/sbin/nw-root'') = ''/sbin''" by code_simp
  then show ?thesis
    using stdio_table_dom by (simp add: boots_on_def demo_machine_def stdio_table_def)
qed

lemma demo_machine_args:
  "parse_args [''--slots'', ''/slots''] no_args = Inr (no_args\<lparr>pa_slots := Some ''/slots''\<rparr>)"
  "live_slot (m_slots (demo_machine blob rl)) (no_args\<lparr>pa_slots := Some ''/slots''\<rparr>) = Inr (Some ''/slots/A'')"
  "plan_path (no_args\<lparr>pa_slots := Some ''/slots''\<rparr>) (Some ''/slots/A'') = Inr ''/slots/A/plan.blob''"
proof -
  have "slot_from_current (Opened (Opened ''A\<newline>'')) ''/slots'' 384 = (0, Some ''/slots/A'')" by code_simp
  then show "live_slot (m_slots (demo_machine blob rl)) (no_args\<lparr>pa_slots := Some ''/slots''\<rparr>) = Inr (Some ''/slots/A'')"
    by (simp add: live_slot_def demo_machine_def no_args_def die_if_def)
qed (simp_all add: parse_args.simps(2) no_args_def plan_path_def die_if_def)

lemma demo_machine_load:
  assumes "plan_fits us bs es" "plan_wf us bs es" "length (seal us bs es) \<le> 35608" "seal us bs es \<noteq> []"
  shows "load_plan (m_files (demo_machine (seal us bs es) rl) ''/slots/A/plan.blob'') = Inr (seal us bs es)"
  using seal_accepted [OF assms(1,2)] assms(3,4) by (simp add: demo_machine_def load_plan_eq die_if_def)

lemma demo_seal_size:
  assumes "plan_fits us bs es" "length us \<le> 4" "length bs \<le> 1" "length es \<le> 3"
  shows "length (seal us bs es) \<le> 35608 \<and> seal us bs es \<noteq> []"
proof -
  have "length (seal us bs es) \<le> 35608 \<and> 0 < length (seal us bs es)"
    unfolding length_seal [OF assms(1)] struct_sizes using assms(2-4) by simp
  then show ?thesis by auto
qed

text \<open>The demo plan, sealed, on a machine with room.\<close>

definition demo_rl :: rlimit where
  "demo_rl = \<lparr>rlim_cur = 1024, rlim_max = 4096\<rparr>"

definition demo_blob :: bytes where
  "demo_blob = seal demo_units demo_binds demo_edges"

lemma demo_tables: "nw_units demo_blob = demo_units" "nw_binds demo_blob = demo_binds" "nw_edges demo_blob = demo_edges"
  unfolding demo_blob_def using seal_tables [OF demo_fits] by simp_all

lemma demo_load: "load_plan (m_files (demo_machine demo_blob rl) ''/slots/A/plan.blob'') = Inr demo_blob"
proof -
  have l: "length demo_units = 2" "length demo_binds = 1" "length demo_edges = 1"
    by (simp_all add: demo_units_def demo_binds_def demo_edges_def)
  show ?thesis
    unfolding demo_blob_def using demo_seal_size [OF demo_fits] l
    by (intro demo_machine_load demo_fits demo_wf) simp_all
qed

lemma demo_preflight:
  "preflight (NW_BOOT_NEED (of_nat (length (nw_units demo_blob))) (of_nat (length (nw_edges demo_blob))))
     (m_limit (demo_machine demo_blob demo_rl)) (m_set_limit (demo_machine demo_blob demo_rl)) = Inr demo_rl"
proof -
  have "length demo_units = 2" "length demo_edges = 1" by (simp_all add: demo_units_def demo_edges_def)
  then show ?thesis
    unfolding demo_tables
    by (simp add: preflight_def demo_machine_def demo_rl_def NW_BOOT_NEED_def nw_limits die_if_def)
qed

lemma demo_limit: "fd_limit demo_rl = 1024" "fd_limit demo_rl \<le> NW_FD_SWEEP"
  by (simp_all add: fd_limit_def demo_rl_def NW_FD_SWEEP_def nw_limits)

lemma demo_no_rescue: "pa_rescue (no_args\<lparr>pa_slots := Some ''/slots''\<rparr>) = None"
  by (simp add: no_args_def)

lemma demo_boots_open: "\<exists>ct. pid1_boot (demo_machine demo_blob demo_rl) [''--slots'', ''/slots''] = Inr (CityOpen ct)"
  using open_city_ok [OF demo_machine_boots demo_load demo_preflight demo_limit(2)]
  unfolding pid1_boot_opens [OF demo_machine_args(1) demo_no_rescue demo_machine_args(2,3) demo_load]
  by fastforce


subsection \<open>A house the preflight starves\<close>

text \<open>
  C31. The preflight counts one descriptor per house and two per edge, but \<open>pack_kit\<close> duplicates every
  wire of its house before it closes anything. When the soft limit has to be raised, it is raised to
  exactly the need, and then a unit with three or more wires has no room for its scratch: the preflight
  accepts, the city opens and reports the unit's pid, and its house died in \<^verbatim>\<open>pack kit\<close>.
\<close>

theorem accepted_house_starves:
  assumes "parse_args argv no_args = Inr c" "pa_rescue c = None"
    and "live_slot (m_slots m) c = Inr slot" "plan_path c slot = Inr plan"
    and "load_plan (m_files m plan) = Inr blob" "boots_on m proc pids plan blob"
    and "need = NW_BOOT_NEED (of_nat (length (nw_units blob))) (of_nat (length (nw_edges blob)))"
    and "m_limit m = Some rl" "rlim_cur rl < need" "need \<le> rlim_max rl"
    and "m_set_limit m \<lparr>rlim_cur = need, rlim_max = rlim_max rl\<rparr>"
    and "i < length (nw_units blob)" "3 \<le> length (edges_of (nw_edges blob) i)"
  shows "\<exists>ct out. pid1_boot m argv = Inr (CityOpen ct) \<and> hs_pid (ct_houses ct ! i) = pids i
    \<and> nw_spawn proc (unat need) (ex_args (ct_exec ct)) (ex_env (ct_exec ct)) [plan \<mapsto> blob] pids
        (ex_fds (ct_exec ct)) = Inr out
    \<and> sp_houses out ! i = Inl ''pack kit''"
proof -
  let ?n = "length (nw_units blob)" and ?e = "length (nw_edges blob)"
  let ?rl = "\<lparr>rlim_cur = need, rlim_max = rlim_max rl\<rparr>"
  have pf: "m_files m plan = Some \<lparr>pf_size = Some (int (length blob)), pf_bytes = blob\<rparr>"
    using assms(6) by (simp add: boots_on_def)
  note L = load_plan_exact(2-4) [OF assms(5) [unfolded pf]]
  note C = accepted_counts [OF L(3,2)]
  have need: "unat need = 8 + ?n + 2 * ?e"
    unfolding assms(7) using C by (intro boot_need_nat) (simp_all add: nw_limits)
  have lim: "fd_limit ?rl = 8 + ?n + 2 * ?e" by (simp add: fd_limit_def need)
  have top: "x \<le> RLIM_INFINITY" for x by (simp add: RLIM_INFINITY_def word_order.extremum)
  have "rlim_cur rl \<noteq> RLIM_INFINITY" using top [of need] assms(9) by auto
  then have pre: "preflight (NW_BOOT_NEED (of_nat ?n) (of_nat ?e)) (m_limit m) (m_set_limit m) = Inr ?rl"
    unfolding assms(7) [symmetric] preflight_def assms(8) option.case die_if_def Let_def
    using assms(9-11) by (cases rl) auto
  have sweep: "fd_limit ?rl \<le> NW_FD_SWEEP"
    unfolding lim using C(2,3) by (simp add: nw_limits NW_FD_SWEEP_def del: length_nw_units length_nw_edges)
  from open_city_ok [OF assms(6,5) pre sweep] obtain ex out where o: "open_city m plan blob = Inr
      \<lparr>ct_houses = map (\<lambda>i. \<lparr>hs_name = u_name (nw_units blob ! i), hs_pid = pids i,
         hs_logger = m_logger_pid m i\<rparr>) [0..<?n], ct_limit = ?rl, ct_exec = ex\<rparr>"
    "nw_spawn proc (fd_limit ?rl) (ex_args ex) (ex_env ex) [plan \<mapsto> blob] pids (ex_fds ex) = Inr out"
    "sp_houses out = map (house_outcome (fd_limit ?rl - (4 + ?n + 2 * ?e)) (sup_env m)
        (nw_units blob) (nw_binds blob) (nw_edges blob)) [0..<?n]"
    by blast
  have boot: "pid1_boot m argv = Inr (CityOpen \<lparr>ct_houses = map (\<lambda>i. \<lparr>hs_name = u_name (nw_units blob ! i),
      hs_pid = pids i, hs_logger = m_logger_pid m i\<rparr>) [0..<?n], ct_limit = ?rl, ct_exec = ex\<rparr>)"
    unfolding pid1_boot_opens [OF assms(1-5)] o(1) and_then.simps ..
  have "sp_houses out ! i = Inl ''pack kit''"
    unfolding o(3) lim using assms(12,13)
    by (simp add: house_outcome_def del: length_nw_units length_nw_edges)
  moreover have "fd_limit ?rl = unat need" by (simp add: fd_limit_def)
  ultimately show ?thesis using o(2) assms(12)
    unfolding boot by (auto simp del: length_nw_units length_nw_edges)
qed

definition star_units :: "nw_unit list" where
  "star_units = map (\<lambda>c. demo_plain_unit\<lparr>u_name := pad 32 [c]\<rparr>) ''abcd''"

definition star_edges :: "nw_edge list" where
  "star_edges = [\<lparr>e_a = 0, e_b = 1\<rparr>, \<lparr>e_a = 0, e_b = 2\<rparr>, \<lparr>e_a = 0, e_b = 3\<rparr>]"

lemma star_fits: "plan_fits star_units [] star_edges"
  by code_simp

lemma star_wf: "plan_wf star_units [] star_edges"
  by code_simp

theorem accepted_house_starves_witness:
  "\<exists>ct out. pid1_boot (demo_machine (seal star_units [] star_edges) \<lparr>rlim_cur = 16, rlim_max = 64\<rparr>)
      [''--slots'', ''/slots''] = Inr (CityOpen ct) \<and> hs_pid (ct_houses ct ! 0) = 100
    \<and> nw_spawn ProcListed 18 (ex_args (ct_exec ct)) (ex_env (ct_exec ct))
        [''/slots/A/plan.blob'' \<mapsto> seal star_units [] star_edges] (\<lambda>i. of_nat (100 + i))
        (ex_fds (ct_exec ct)) = Inr out
    \<and> sp_houses out ! 0 = Inl ''pack kit''"
proof -
  let ?b = "seal star_units [] star_edges" and ?rl = "\<lparr>rlim_cur = 16, rlim_max = 64\<rparr>"
  let ?m = "demo_machine ?b ?rl"
  have t: "nw_units ?b = star_units" "nw_edges ?b = star_edges"
    using seal_tables [OF star_fits] by simp_all
  have l: "length star_units = 4" "length star_edges = 3" by (simp_all add: star_units_def star_edges_def)
  have load: "load_plan (m_files ?m ''/slots/A/plan.blob'') = Inr ?b"
    using demo_seal_size [OF star_fits] l by (intro demo_machine_load star_fits star_wf) simp_all
  have need: "18 = NW_BOOT_NEED (of_nat (length (nw_units ?b))) (of_nat (length (nw_edges ?b)))"
    unfolding t l by (simp add: NW_BOOT_NEED_def nw_limits)
  have none: "pa_rescue (no_args\<lparr>pa_slots := Some ''/slots''\<rparr>) = None" by (simp add: no_args_def)
  have "length (edges_of star_edges 0) = 3" by code_simp
  then show ?thesis
    using accepted_house_starves [OF demo_machine_args(1) none demo_machine_args(2,3) load
        demo_machine_boots need, where i = 0 and rl = ?rl]
    by (simp add: t l demo_machine_def del: length_nw_units length_nw_edges)
qed

end
