(* ===== verification/Pid1Run.thy ===== *)
theory Pid1Run
  imports Pid1City
begin

text \<open>
  \<^verbatim>\<open>pid1.c\<close> once the city is open: reaping, the poll loop, the shutdown with its two bounded waits, and
  the ways the program can end. A run of a loop is a list of ticks, one per iteration: what the clock
  said and what the kernel answered in it.
\<close>

subsection \<open>Reaping\<close>

datatype signal = SigTerm | SigKill

text \<open>What PID 1 does that others can see.\<close>

datatype p1_act = Say bytes bytes | Kill u32 signal | WaitFor u32 | Sync

record p1 =
  p1_houses :: "house_slot list"
  p1_spawner :: u32
  p1_orphans :: u32
  p1_reaped :: u32
  p1_acts :: "p1_act list"

definition act :: "p1_act \<Rightarrow> p1 \<Rightarrow> p1" where
  "act a s = s\<lparr>p1_acts := p1_acts s @ [a]\<rparr>"

definition exit_line :: "house_slot \<Rightarrow> wstatus \<Rightarrow> bytes" where
  "exit_line h st = snprintf (NW_NAME_LEN + 48) (take (NW_NAME_LEN - 1) (cstr (hs_name h)) @ '' status='' @ dec st)"

definition reap_slot :: "u32 \<Rightarrow> house_slot \<Rightarrow> house_slot" where
  "reap_slot p h = h\<lparr>hs_pid := (if hs_pid h = p then 0 else hs_pid h),
     hs_logger := (if hs_logger h = p then 0 else hs_logger h)\<rparr>"

definition reap_one :: "u32 \<times> wstatus \<Rightarrow> p1 \<Rightarrow> p1" where
  "reap_one = (\<lambda>(p, st) s.
     let hit = filter (\<lambda>h. hs_pid h = p) (p1_houses s);
         known = (hit \<noteq> [] \<or> (\<exists>h\<in>set (p1_houses s). hs_logger h = p))
     in s\<lparr>p1_houses := map (reap_slot p) (p1_houses s),
          p1_reaped := p1_reaped s + of_nat (length hit),
          p1_orphans := (if known then p1_orphans s else p1_orphans s + 1),
          p1_acts := p1_acts s @ map (\<lambda>h. Say ''house exit'' (exit_line h st)) hit
            @ (if known then [] else [Say ''orphan'' (snprintf 32 (''pid='' @ dec_int (sint p)))])\<rparr>)"

text \<open>\<open>zs\<close> is what \<^verbatim>\<open>waitpid(-1, \<dots>, WNOHANG)\<close> gives before it has no more.\<close>

definition reap_all :: "(u32 \<times> wstatus) list \<Rightarrow> p1 \<Rightarrow> p1" where
  "reap_all zs s = fold reap_one zs s"

subsection \<open>Ends of the program\<close>

datatype p1_end = Exited nat | PoweredOff | Hung

record kernel_end =
  ke_pid1 :: bool
  ke_reboot :: bool

definition halt_now :: "kernel_end \<Rightarrow> bytes \<Rightarrow> p1 \<Rightarrow> p1_end \<times> p1" where
  "halt_now k why s =
     (let s1 = act (Say ''HALT:'' why) s in
      if \<not> ke_pid1 k then (Exited 70, s1)
      else if ke_reboot k then (PoweredOff, act Sync s1)
      else (Hung, act (Say ''HALT:'' ''reboot failed'') (act Sync s1)))"

subsection \<open>The shutdown\<close>

definition NW_GRACE_MS :: int where "NW_GRACE_MS = 400"

definition pid_live :: "u32 \<Rightarrow> bool" where
  "pid_live p \<longleftrightarrow> 0 < sint p"

type_synonym tick = "int \<times> (u32 \<times> wstatus) list"

text \<open>
  One of the two waits. \<open>None\<close>: the ticks ran out with the loop still going.
\<close>

fun grace_wait :: "(house_slot \<Rightarrow> u32) \<Rightarrow> int \<Rightarrow> tick list \<Rightarrow> p1 \<Rightarrow> (tick list \<times> p1) option" where
  "grace_wait who t0 [] s = None"
| "grace_wait who t0 ((now, zs) # ticks) s =
     (if now - t0 < NW_GRACE_MS then
        let s' = reap_all zs s in
        if \<not> (\<exists>h\<in>set (p1_houses s'). pid_live (who h)) then Some (ticks, s')
        else grace_wait who t0 ticks s'
      else Some (ticks, s))"

definition kill_live :: "(house_slot \<Rightarrow> u32) \<Rightarrow> signal \<Rightarrow> house_slot list \<Rightarrow> p1 \<Rightarrow> p1" where
  "kill_live who sg hs s =
     s\<lparr>p1_acts := p1_acts s @ map (\<lambda>h. Kill (who h) sg) (filter (\<lambda>h. pid_live (who h)) hs)\<rparr>"

record shutdown_io =
  sd_t0 :: int
  sd_ticks :: "tick list"
  sd_t1 :: int
  sd_ticks1 :: "tick list"
  sd_last :: "(u32 \<times> wstatus) list"

definition kill_spawner :: "p1 \<Rightarrow> p1" where
  "kill_spawner s =
     (if pid_live (p1_spawner s)
      then (act (WaitFor (p1_spawner s)) (act (Kill (p1_spawner s) SigKill) s))\<lparr>p1_spawner := 0\<rparr>
      else s)"

definition closed_line :: "p1 \<Rightarrow> bytes" where
  "closed_line s = snprintf 80 (''houses_reaped='' @ dec_int (sint (p1_reaped s)) @ '' orphans=''
     @ dec_int (sint (p1_orphans s)))"

text \<open>Power off, as PID 1 only, after a \<^verbatim>\<open>sync\<close>.\<close>

definition shutdown_end :: "kernel_end \<Rightarrow> p1 \<Rightarrow> p1_end \<times> p1" where
  "shutdown_end k s =
     (if \<not> ke_pid1 k then halt_now k ''reboot: not PID 1'' s
      else if ke_reboot k then (PoweredOff, act Sync s)
      else halt_now k ''reboot failed'' (act Sync s))"

definition shutdown_city :: "kernel_end \<Rightarrow> shutdown_io \<Rightarrow> p1 \<Rightarrow> (p1_end \<times> p1) option" where
  "shutdown_city k io s =
     (let s1 = act (Say ''shutdown'' ''TERM houses'') s;
          s2 = kill_live hs_pid SigTerm (rev (p1_houses s1)) s1
      in case grace_wait hs_pid (sd_t0 io) (sd_ticks io) s2 of None \<Rightarrow> None
      | Some (_, s3) \<Rightarrow>
        let s4 = kill_spawner (kill_live hs_pid SigKill (p1_houses s3) s3) in
        case grace_wait hs_logger (sd_t1 io) (sd_ticks1 io) s4 of None \<Rightarrow> None
        | Some (_, s5) \<Rightarrow>
          let s6 = reap_all (sd_last io) (kill_live hs_logger SigKill (p1_houses s5) s5)
          in Some (shutdown_end k (act (Say ''closed'' (closed_line s6)) s6)))"

subsection \<open>The poll loop\<close>

text \<open>
  What a poll gave: a signal that \<^verbatim>\<open>read\<close> took from the descriptor, a short read, which the loop
  ignores, or nothing. The tick's processes are what \<^verbatim>\<open>reap_all\<close> finds, if the branch reaps.
\<close>

datatype tick_event = Signal nat | ShortRead | NoEvent

definition SIGCHLD :: nat where "SIGCHLD = 17"

type_synonym run_tick = "int \<times> tick_event \<times> (u32 \<times> wstatus) list"

definition poll_wait :: "int \<Rightarrow> int \<Rightarrow> int" where
  "poll_wait t_end now = (let left = t_end - now; w = (if left > 1000000 then 1000000 else left) in
     if w < 1 then 1 else w)"

fun run_city :: "bool \<Rightarrow> int \<Rightarrow> run_tick list \<Rightarrow> p1 \<Rightarrow> (int list \<times> p1) option" where
  "run_city hold t_end [] s = None"
| "run_city hold t_end ((now, ev, zs) # ticks) s =
     (if hold \<and> t_end - now \<le> 0 then Some ([], s)
      else let w = (if hold then poll_wait t_end now else - 1) in
        case ev of
          Signal sg \<Rightarrow>
            let s' = (if sg = SIGCHLD then reap_all zs s else s) in
            if sg = SIGTERM \<or> sg = SIGINT then Some ([w], s')
            else map_option (\<lambda>(ws, r). (w # ws, r)) (run_city hold t_end ticks s')
        | ShortRead \<Rightarrow> map_option (\<lambda>(ws, r). (w # ws, r)) (run_city hold t_end ticks s)
        | NoEvent \<Rightarrow> map_option (\<lambda>(ws, r). (w # ws, r)) (run_city hold t_end ticks (reap_all zs s)))"

subsection \<open>The whole program\<close>

definition run_rescue :: "kernel_end \<Rightarrow> bool \<Rightarrow> wstatus \<Rightarrow> bytes \<Rightarrow> p1 \<Rightarrow> p1_end \<times> p1" where
  "run_rescue k fork_ok st slot s =
     (let s1 = act (Say ''rescue slot'' (snprintf 512 (slot @ ''/nw-rescue''))) s in
      if \<not> fork_ok then halt_now k ''rescue fork'' s1
      else (Exited (if WIFEXITED st then WEXITSTATUS st else 3), s1))"

record p1_world =
  w_machine :: machine
  w_kernel :: kernel_end
  w_rescue_fork :: bool
  w_rescue_status :: wstatus
  w_opened :: int
  w_ticks :: "run_tick list"
  w_shutdown :: shutdown_io

definition p1_start :: "house_slot list \<Rightarrow> p1" where
  "p1_start hs = \<lparr>p1_houses = hs, p1_spawner = 0, p1_orphans = 0, p1_reaped = 0, p1_acts = []\<rparr>"

definition pid1_main :: "p1_world \<Rightarrow> bytes list \<Rightarrow> (p1_end \<times> p1) option" where
  "pid1_main w argv =
     (case pid1_boot (w_machine w) argv of
        Inl why \<Rightarrow> Some (halt_now (w_kernel w) why (p1_start []))
      | Inr (RunRescue slot) \<Rightarrow>
          Some (run_rescue (w_kernel w) (w_rescue_fork w) (w_rescue_status w) slot (p1_start []))
      | Inr (CityOpen ct) \<Rightarrow>
          let hold_ms = (case parse_args argv no_args of Inr c \<Rightarrow> pa_hold c | Inl _ \<Rightarrow> 0) in
          case run_city (0 < hold_ms) (w_opened w + hold_ms) (w_ticks w) (p1_start (ct_houses ct)) of
            None \<Rightarrow> None
          | Some (_, s) \<Rightarrow> shutdown_city (w_kernel w) (w_shutdown w) s)"

subsection \<open>Reaping in closed form\<close>

definition reap_slots :: "u32 set \<Rightarrow> house_slot \<Rightarrow> house_slot" where
  "reap_slots P h = h\<lparr>hs_pid := (if hs_pid h \<in> P then 0 else hs_pid h),
     hs_logger := (if hs_logger h \<in> P then 0 else hs_logger h)\<rparr>"

lemma reap_slots_sel [simp]:
  "hs_pid (reap_slots P h) = (if hs_pid h \<in> P then 0 else hs_pid h)"
  "hs_logger (reap_slots P h) = (if hs_logger h \<in> P then 0 else hs_logger h)"
  by (simp_all add: reap_slots_def)

lemma reap_all_Cons: "reap_all (z # zs) s = reap_all zs (reap_one z s)"
  by (simp add: reap_all_def)

lemma reap_all_append: "reap_all (xs @ ys) s = reap_all ys (reap_all xs s)"
  by (simp add: reap_all_def)

lemma reap_one_sel:
  "p1_houses (reap_one z s) = map (reap_slots {fst z}) (p1_houses s)"
  "p1_spawner (reap_one z s) = p1_spawner s"
  by (auto simp: reap_one_def Let_def reap_slot_def reap_slots_def split: prod.splits)

lemma reap_slots_comp: "reap_slots Q (reap_slots P h) = reap_slots (P \<union> Q) h"
  by (simp add: reap_slots_def)

lemma reap_all_sel:
  "p1_houses (reap_all zs s) = map (reap_slots (fst ` set zs)) (p1_houses s)
   \<and> p1_spawner (reap_all zs s) = p1_spawner s"
proof (induction zs arbitrary: s)
  case Nil
  show ?case by (simp add: reap_all_def reap_slots_def map_idI)
next
  case (Cons z zs)
  then show ?case by (simp add: reap_all_Cons reap_one_sel reap_slots_comp)
qed

text \<open>Reaping signals nobody.\<close>

definition says :: "p1_act list \<Rightarrow> bool" where
  "says as \<longleftrightarrow> (\<forall>a\<in>set as. \<exists>x y. a = Say x y)"

lemma reap_all_acts: "\<exists>as. says as \<and> p1_acts (reap_all zs s) = p1_acts s @ as"
proof (induction zs arbitrary: s)
  case Nil
  show ?case by (auto simp: reap_all_def says_def)
next
  case (Cons z zs)
  obtain as where as: "says as" "p1_acts (reap_all zs (reap_one z s)) = p1_acts (reap_one z s) @ as"
    using Cons by blast
  have "\<exists>bs. says bs \<and> p1_acts (reap_one z s) = p1_acts s @ bs"
    by (cases z) (auto simp: reap_one_def Let_def says_def)
  then obtain bs where "says bs" "p1_acts (reap_one z s) = p1_acts s @ bs" by blast
  with as show ?case by (intro exI [of _ "bs @ as"]) (auto simp: reap_all_Cons says_def)
qed

lemma reap_all_counts:
  "distinct (map fst zs) \<Longrightarrow> 0 \<notin> fst ` set zs \<Longrightarrow>
     p1_reaped (reap_all zs s) = p1_reaped s
       + of_nat (length (filter (\<lambda>h. hs_pid h \<in> fst ` set zs) (p1_houses s)))
     \<and> p1_orphans (reap_all zs s) = p1_orphans s
       + of_nat (length (filter (\<lambda>z. fst z \<notin> hs_pid ` set (p1_houses s) \<union> hs_logger ` set (p1_houses s)) zs))"
proof (induction zs arbitrary: s)
  case Nil
  show ?case by (simp add: reap_all_def)
next
  case (Cons z zs)
  let ?hs = "p1_houses s" and ?s = "reap_one z s"
  let ?own = "\<lambda>hs. hs_pid ` set hs \<union> hs_logger ` set hs"
  have IH: "p1_reaped (reap_all zs ?s) = p1_reaped ?s
        + of_nat (length (filter (\<lambda>h. hs_pid h \<in> fst ` set zs) (p1_houses ?s)))"
    "p1_orphans (reap_all zs ?s) = p1_orphans ?s
        + of_nat (length (filter (\<lambda>z. fst z \<notin> ?own (p1_houses ?s)) zs))"
    using Cons by auto
  have z: "fst z \<noteq> 0" "fst z \<notin> fst ` set zs" "0 \<notin> fst ` set zs" using Cons.prems by auto
  have len: "length (filter (\<lambda>h. hs_pid h \<in> fst ` set (z # zs)) hs)
      = length (filter (\<lambda>h. hs_pid h = fst z) hs)
        + length (filter (\<lambda>h. hs_pid h \<in> fst ` set zs) (map (reap_slots {fst z}) hs))" for hs
    using z by (induction hs) auto
  have r: "p1_reaped ?s = p1_reaped s + of_nat (length (filter (\<lambda>h. hs_pid h = fst z) ?hs))"
    by (cases z) (simp add: reap_one_def Let_def)
  have "fst x \<in> ?own (p1_houses ?s) \<longleftrightarrow> fst x \<in> ?own ?hs" if "x \<in> set zs" for x
  proof -
    have "fst x \<in> fst ` set zs" using that by blast
    then have "fst x \<noteq> fst z" "fst x \<noteq> 0" using z by metis+
    then show ?thesis by (auto simp: reap_one_sel image_iff split: if_splits)
  qed
  then have o: "filter (\<lambda>z. fst z \<notin> ?own (p1_houses ?s)) zs = filter (\<lambda>z. fst z \<notin> ?own ?hs) zs"
    by (intro filter_cong) auto
  have o1: "p1_orphans ?s = p1_orphans s + (if fst z \<in> ?own ?hs then 0 else 1)"
    by (cases z) (auto simp: reap_one_def Let_def filter_empty_conv)
  show ?case
    unfolding reap_all_Cons IH r o1 o unfolding reap_one_sel(1) len by simp
qed

text \<open>The children PID 1 knows: the houses' supervisors and their loggers.\<close>

definition own_pids :: "house_slot list \<Rightarrow> u32 list" where
  "own_pids hs = filter (\<lambda>p. p \<noteq> 0) (map hs_pid hs @ map hs_logger hs)"


text \<open>Two houses and their loggers; a death of the first house, of an orphan, of the second logger.\<close>

definition demo_city :: "house_slot list" where
  "demo_city = [\<lparr>hs_name = ''web'', hs_pid = 21, hs_logger = 11\<rparr>, \<lparr>hs_name = ''db'', hs_pid = 22, hs_logger = 12\<rparr>]"


text \<open>
  The line of an open city. The limit is asked for again and may be unknown; no field is cut.
\<close>

definition open_line :: "nat \<Rightarrow> bytes option \<Rightarrow> u64 \<Rightarrow> rlimit option \<Rightarrow> bytes" where
  "open_line n slot need rl2 =
     snprintf 224 (''houses='' @ dec n @ '' slot='' @ take 63 (case slot of None \<Rightarrow> ''-'' | Some s \<Rightarrow> s)
       @ '' bootneed='' @ dec (unat need)
       @ (case rl2 of None \<Rightarrow> []
          | Some rl \<Rightarrow> '' nofile_soft='' @ dec (unat (rlim_cur rl)) @ '' nofile_hard='' @ dec (unat (rlim_max rl))))"

lemma open_line_whole:
  assumes "n \<le> NW_MAX_UNITS"
  shows "open_line n slot need rl2 =
    ''houses='' @ dec n @ '' slot='' @ take 63 (case slot of None \<Rightarrow> ''-'' | Some s \<Rightarrow> s)
      @ '' bootneed='' @ dec (unat need)
      @ (case rl2 of None \<Rightarrow> []
         | Some rl \<Rightarrow> '' nofile_soft='' @ dec (unat (rlim_cur rl)) @ '' nofile_hard='' @ dec (unat (rlim_max rl)))"
proof -
  have d: "length (dec (unat q)) \<le> 20" for q :: u64
    using length_dec [of "unat q" 19] unat_bounds(4) [of q] by simp
  have "length (dec n) \<le> 2" using length_dec [of n 1] assms by (simp add: NW_MAX_UNITS_def)
  moreover have "length (take 63 (case slot of None \<Rightarrow> ''-'' | Some s \<Rightarrow> s)) \<le> 63" by simp
  ultimately show ?thesis
    unfolding open_line_def using d [of need] d [of "rlim_cur (the rl2)"] d [of "rlim_max (the rl2)"]
    by (intro snprintf_small) (cases rl2; simp del: length_take)
qed

end
