(* ===== verification/Pid1End.thy ===== *)
theory Pid1End
  imports Pid1Run CityBoot
begin

text \<open>
  How \<^verbatim>\<open>pid1.c\<close> ends: the poll loop goes on exactly until it is told to stop, the shutdown is bounded and
  leaves nobody running, and PID 1 itself never exits.
\<close>

subsection \<open>The two waits\<close>

text \<open>A clock that each 20 ms poll moves on by at least that.\<close>

fun clock_ok :: "int \<Rightarrow> tick list \<Rightarrow> bool" where
  "clock_ok t [] \<longleftrightarrow> True"
| "clock_ok t ((now, zs) # ticks) \<longleftrightarrow> t \<le> now \<and> clock_ok (now + 20) ticks"

lemma grace_wait_ends:
  "clock_ok t ticks \<Longrightarrow> t0 + 400 \<le> t + 20 * int (length ticks) - 20 \<Longrightarrow>
     ticks \<noteq> [] \<Longrightarrow> grace_wait who t0 ticks s \<noteq> None"
proof (induction ticks arbitrary: t s)
  case Nil
  then show ?case by simp
next
  case (Cons tk ticks)
  obtain now zs where tk: "tk = (now, zs)" by (cases tk)
  show ?case
  proof (cases "now - t0 < NW_GRACE_MS")
    case False
    then show ?thesis by (simp add: tk)
  next
    case True
    with Cons.prems have "ticks \<noteq> []" by (cases ticks) (simp_all add: tk NW_GRACE_MS_def)
    with Cons.prems Cons.IH [of "now + 20" "reap_all zs s"] show ?thesis by (simp add: tk Let_def)
  qed
qed

text \<open>A wait reaps some of the processes its ticks hold, and does nothing else.\<close>

lemma grace_wait_reaps:
  "grace_wait who t0 ticks s = Some (r, s') \<Longrightarrow>
     \<exists>zs. s' = reap_all zs s \<and> set zs \<subseteq> \<Union> (set ` snd ` set ticks)"
proof (induction ticks arbitrary: s)
  case Nil
  then show ?case by simp
next
  case (Cons tk ticks)
  obtain now zs where tk: "tk = (now, zs)" by (cases tk)
  show ?case
  proof (cases "now - t0 < NW_GRACE_MS \<and> (\<exists>h\<in>set (p1_houses (reap_all zs s)). pid_live (who h))")
    case True
    then have "grace_wait who t0 ticks (reap_all zs s) = Some (r, s')"
      using Cons.prems by (auto simp: tk Let_def split: if_splits)
    from Cons.IH [OF this] obtain ys where "s' = reap_all ys (reap_all zs s)"
      "set ys \<subseteq> \<Union> (set ` snd ` set ticks)" by blast
    then show ?thesis by (intro exI [of _ "zs @ ys"]) (auto simp: tk reap_all_append)
  next
    case False
    then have "s' = s \<or> s' = reap_all zs s" using Cons.prems by (auto simp: tk Let_def split: if_splits)
    moreover have "s = reap_all [] s" by (simp add: reap_all_def)
    moreover have "set zs \<subseteq> \<Union> (set ` snd ` set (tk # ticks))" by (auto simp: tk)
    ultimately show ?thesis by (metis empty_subsetI list.set(1))
  qed
qed

lemma grace_wait_total:
  "clock_ok t0 ticks \<Longrightarrow> 21 \<le> length ticks \<Longrightarrow> grace_wait who t0 ticks s \<noteq> None"
  by (rule grace_wait_ends) auto

subsection \<open>The shutdown, step by step\<close>

lemma act_sel [simp]:
  "p1_acts (act a s) = p1_acts s @ [a]" "p1_houses (act a s) = p1_houses s"
  "p1_spawner (act a s) = p1_spawner s"
  by (simp_all add: act_def)

lemma kill_live_sel [simp]:
  "p1_acts (kill_live who sg hs s) = p1_acts s @ map (\<lambda>h. Kill (who h) sg) (filter (\<lambda>h. pid_live (who h)) hs)"
  "p1_houses (kill_live who sg hs s) = p1_houses s" "p1_spawner (kill_live who sg hs s) = p1_spawner s"
  by (simp_all add: kill_live_def)

lemma kill_spawner_sel [simp]:
  "p1_acts (kill_spawner s) = p1_acts s
     @ (if pid_live (p1_spawner s) then [Kill (p1_spawner s) SigKill, WaitFor (p1_spawner s)] else [])"
  "p1_houses (kill_spawner s) = p1_houses s"
  by (simp_all add: kill_spawner_def)

lemma pid_live_0 [simp]: "\<not> pid_live 0"
  by (simp add: pid_live_def)

definition quiet :: "p1_act list \<Rightarrow> bool" where
  "quiet as \<longleftrightarrow> (\<forall>p sg. Kill p sg \<notin> set as)"

lemma says_quiet: "says as \<Longrightarrow> quiet as"
  by (auto simp: says_def quiet_def)

lemma halt_now_acts:
  "\<exists>as. quiet as \<and> p1_acts (snd (halt_now k why s)) = p1_acts s @ as \<and> (ke_pid1 k \<longrightarrow> (\<forall>n. fst (halt_now k why s) \<noteq> Exited n))"
  by (auto simp: halt_now_def Let_def quiet_def)

lemma shutdown_end_acts:
  "\<exists>as. quiet as \<and> p1_acts (snd (shutdown_end k s)) = p1_acts s @ as \<and> (ke_pid1 k \<longrightarrow> (\<forall>n. fst (shutdown_end k s) \<noteq> Exited n))"
  by (auto simp: shutdown_end_def halt_now_def Let_def quiet_def)

lemma shutdown_acts:
  assumes "shutdown_city k io s = Some (e, s')"
  obtains P Q as bs cs where
    "P \<subseteq> fst ` \<Union> (set ` snd ` set (sd_ticks io))" "Q \<subseteq> fst ` \<Union> (set ` snd ` set (sd_ticks1 io))"
    "quiet as" "quiet bs" "quiet cs" "ke_pid1 k \<longrightarrow> (\<forall>n. e \<noteq> Exited n)"
    "p1_acts s' = p1_acts s @ [Say ''shutdown'' ''TERM houses'']
       @ map (\<lambda>h. Kill (hs_pid h) SigTerm) (filter (\<lambda>h. pid_live (hs_pid h)) (rev (p1_houses s))) @ as
       @ map (\<lambda>h. Kill (hs_pid h) SigKill) (filter (\<lambda>h. pid_live (hs_pid h)) (map (reap_slots P) (p1_houses s)))
       @ (if pid_live (p1_spawner s) then [Kill (p1_spawner s) SigKill, WaitFor (p1_spawner s)] else []) @ bs
       @ map (\<lambda>h. Kill (hs_logger h) SigKill)
           (filter (\<lambda>h. pid_live (hs_logger h)) (map (reap_slots (P \<union> Q)) (p1_houses s))) @ cs"
proof -
  define s2 where "s2 = kill_live hs_pid SigTerm (rev (p1_houses s)) (act (Say ''shutdown'' ''TERM houses'') s)"
  obtain r3 s3 where g3: "grace_wait hs_pid (sd_t0 io) (sd_ticks io) s2 = Some (r3, s3)"
    using assms by (auto simp: shutdown_city_def Let_def s2_def split: option.splits)
  define s4 where "s4 = kill_spawner (kill_live hs_pid SigKill (p1_houses s3) s3)"
  obtain r5 s5 where g5: "grace_wait hs_logger (sd_t1 io) (sd_ticks1 io) s4 = Some (r5, s5)"
    using assms g3 by (auto simp: shutdown_city_def Let_def s2_def s4_def split: option.splits)
  define s6 where "s6 = reap_all (sd_last io) (kill_live hs_logger SigKill (p1_houses s5) s5)"
  define s7 where "s7 = act (Say ''closed'' (closed_line s6)) s6"
  have e: "shutdown_end k s7 = (e, s')"
    using assms g3 g5 by (simp add: shutdown_city_def Let_def s2_def s4_def s6_def s7_def)
  from grace_wait_reaps [OF g3] obtain z3 where z3: "s3 = reap_all z3 s2"
    "set z3 \<subseteq> \<Union> (set ` snd ` set (sd_ticks io))" by blast
  from grace_wait_reaps [OF g5] obtain z5 where z5: "s5 = reap_all z5 s4"
    "set z5 \<subseteq> \<Union> (set ` snd ` set (sd_ticks1 io))" by blast
  obtain as where as: "says as" "p1_acts s3 = p1_acts s2 @ as" unfolding z3 using reap_all_acts by blast
  obtain bs where bs: "says bs" "p1_acts s5 = p1_acts s4 @ bs" unfolding z5 using reap_all_acts by blast
  obtain cs where cs: "says cs" "p1_acts s6 = p1_acts (kill_live hs_logger SigKill (p1_houses s5) s5) @ cs"
    unfolding s6_def using reap_all_acts by blast
  obtain ds where ds: "quiet ds" "p1_acts s' = p1_acts s7 @ ds" "ke_pid1 k \<longrightarrow> (\<forall>n. e \<noteq> Exited n)"
    using shutdown_end_acts [of k s7] unfolding e by auto
  let ?P = "fst ` set z3" and ?Q = "fst ` set z5"
  have h3: "p1_houses s3 = map (reap_slots ?P) (p1_houses s)" "p1_spawner s3 = p1_spawner s"
    using reap_all_sel [of z3 s2] by (simp_all add: z3 s2_def)
  then have h5: "p1_houses s5 = map (reap_slots (?P \<union> ?Q)) (p1_houses s)"
    using reap_all_sel [of z5 s4] by (simp add: z5 s4_def reap_slots_comp comp_def)
  show thesis
  proof (rule that [of ?P ?Q as bs "cs @ Say ''closed'' (closed_line s6) # ds"])
    show "?P \<subseteq> fst ` \<Union> (set ` snd ` set (sd_ticks io))" using z3(2) by (rule image_mono)
    show "?Q \<subseteq> fst ` \<Union> (set ` snd ` set (sd_ticks1 io))" using z5(2) by (rule image_mono)
    show "quiet as" "quiet bs" using as bs says_quiet by blast+
    show "quiet (cs @ Say ''closed'' (closed_line s6) # ds)"
      using says_quiet [OF cs(1)] ds(1) by (simp add: quiet_def)
    show "ke_pid1 k \<longrightarrow> (\<forall>n. e \<noteq> Exited n)" by (rule ds(3))
    show "p1_acts s' = p1_acts s @ [Say ''shutdown'' ''TERM houses'']
       @ map (\<lambda>h. Kill (hs_pid h) SigTerm) (filter (\<lambda>h. pid_live (hs_pid h)) (rev (p1_houses s))) @ as
       @ map (\<lambda>h. Kill (hs_pid h) SigKill) (filter (\<lambda>h. pid_live (hs_pid h)) (map (reap_slots ?P) (p1_houses s)))
       @ (if pid_live (p1_spawner s) then [Kill (p1_spawner s) SigKill, WaitFor (p1_spawner s)] else []) @ bs
       @ map (\<lambda>h. Kill (hs_logger h) SigKill)
           (filter (\<lambda>h. pid_live (hs_logger h)) (map (reap_slots (?P \<union> ?Q)) (p1_houses s)))
       @ cs @ Say ''closed'' (closed_line s6) # ds"
      using ds(2) cs(2) bs(2) as(2) h3 h5 by (simp add: s7_def s4_def s2_def)
  qed
qed

lemma shutdown_total:
  assumes "clock_ok (sd_t0 io) (sd_ticks io)" "21 \<le> length (sd_ticks io)"
    and "clock_ok (sd_t1 io) (sd_ticks1 io)" "21 \<le> length (sd_ticks1 io)"
  shows "shutdown_city k io s \<noteq> None"
proof -
  have total: "grace_wait who (sd_t0 io) (sd_ticks io) x = None \<longleftrightarrow> False"
    "grace_wait who (sd_t1 io) (sd_ticks1 io) x = None \<longleftrightarrow> False" for who x
    using grace_wait_total [OF assms(1,2), of who x] grace_wait_total [OF assms(3,4), of who x] by blast+
  show ?thesis
    by (simp add: shutdown_city_def Let_def total split: option.split prod.split del: not_None_eq)
qed

subsection \<open>Properties\<close>

text \<open>
  C21. The shutdown is bounded and thorough: with a clock that each poll moves on by 20 ms, both waits end
  within 21 rounds. Every house that was running is asked to stop, and is reaped in the first wait or
  killed after it; every logger is reaped in one of the waits or killed at the end. Nobody else is
  signalled, in particular never process 0 or a negative number.
\<close>

theorem shutdown_bounded:
  assumes "clock_ok (sd_t0 io) (sd_ticks io)" "21 \<le> length (sd_ticks io)"
    and "clock_ok (sd_t1 io) (sd_ticks1 io)" "21 \<le> length (sd_ticks1 io)"
  shows "\<exists>e s'. shutdown_city k io s = Some (e, s')
    \<and> (\<forall>h\<in>set (p1_houses s). pid_live (hs_pid h) \<longrightarrow>
         Kill (hs_pid h) SigTerm \<in> set (p1_acts s')
         \<and> (Kill (hs_pid h) SigKill \<in> set (p1_acts s')
            \<or> hs_pid h \<in> fst ` \<Union> (set ` snd ` set (sd_ticks io))))
    \<and> (\<forall>h\<in>set (p1_houses s). pid_live (hs_logger h) \<longrightarrow>
         Kill (hs_logger h) SigKill \<in> set (p1_acts s')
         \<or> hs_logger h \<in> fst ` \<Union> (set ` snd ` set (sd_ticks io @ sd_ticks1 io)))
    \<and> (\<forall>p sg. Kill p sg \<in> set (p1_acts s') - set (p1_acts s) \<longrightarrow>
         0 < sint p \<and> (p \<in> set (own_pids (p1_houses s)) \<or> p = p1_spawner s))"
proof -
  have "shutdown_city k io s \<noteq> None" by (rule shutdown_total [OF assms])
  then obtain e s' where run: "shutdown_city k io s = Some (e, s')" by auto
  obtain P Q as bs cs where
    PQ: "P \<subseteq> fst ` \<Union> (set ` snd ` set (sd_ticks io))" "Q \<subseteq> fst ` \<Union> (set ` snd ` set (sd_ticks1 io))"
    and quiet: "quiet as" "quiet bs" "quiet cs"
    and acts: "p1_acts s' = p1_acts s @ [Say ''shutdown'' ''TERM houses'']
       @ map (\<lambda>h. Kill (hs_pid h) SigTerm) (filter (\<lambda>h. pid_live (hs_pid h)) (rev (p1_houses s))) @ as
       @ map (\<lambda>h. Kill (hs_pid h) SigKill) (filter (\<lambda>h. pid_live (hs_pid h)) (map (reap_slots P) (p1_houses s)))
       @ (if pid_live (p1_spawner s) then [Kill (p1_spawner s) SigKill, WaitFor (p1_spawner s)] else []) @ bs
       @ map (\<lambda>h. Kill (hs_logger h) SigKill)
           (filter (\<lambda>h. pid_live (hs_logger h)) (map (reap_slots (P \<union> Q)) (p1_houses s))) @ cs"
    using shutdown_acts [OF run] by metis
  have "P \<union> Q \<subseteq> fst ` \<Union> (set ` snd ` set (sd_ticks io @ sd_ticks1 io))"
    using PQ by (simp add: image_Un) blast
  note T = subsetD [OF PQ(1)] subsetD [OF this]
  have f1: "Kill (hs_pid h) SigTerm \<in> set (p1_acts s')" "Kill (hs_pid h) SigKill \<in> set (p1_acts s') \<or> hs_pid h \<in> P"
    if "h \<in> set (p1_houses s)" "pid_live (hs_pid h)" for h
    using that by (auto simp: acts image_iff)
  have f2: "Kill (hs_logger h) SigKill \<in> set (p1_acts s') \<or> hs_logger h \<in> P \<union> Q"
    if "h \<in> set (p1_houses s)" "pid_live (hs_logger h)" for h
    using that by (auto simp: acts image_iff)
  have f3: "pid_live p \<and> (p \<in> set (own_pids (p1_houses s)) \<or> p = p1_spawner s)"
    if "Kill p sg \<in> set (p1_acts s')" "Kill p sg \<notin> set (p1_acts s)" for p sg
    using that quiet by (auto simp: acts own_pids_def quiet_def split: if_splits)
  show ?thesis
  proof (intro exI [of _ e] exI [of _ s'] conjI run ballI allI impI)
    fix h
    assume h: "h \<in> set (p1_houses s)"
    show "Kill (hs_pid h) SigTerm \<in> set (p1_acts s')" if "pid_live (hs_pid h)" by (rule f1(1) [OF h that])
    show "Kill (hs_pid h) SigKill \<in> set (p1_acts s') \<or> hs_pid h \<in> fst ` \<Union> (set ` snd ` set (sd_ticks io))"
      if "pid_live (hs_pid h)" using f1(2) [OF h that] T(1) by blast
    show "Kill (hs_logger h) SigKill \<in> set (p1_acts s')
        \<or> hs_logger h \<in> fst ` \<Union> (set ` snd ` set (sd_ticks io @ sd_ticks1 io))"
      if "pid_live (hs_logger h)" using f2 [OF h that] T(2) by blast
  next
    fix p sg
    assume "Kill p sg \<in> set (p1_acts s') - set (p1_acts s)"
    then have "Kill p sg \<in> set (p1_acts s')" "Kill p sg \<notin> set (p1_acts s)" by simp_all
    from f3 [OF this] show "0 < sint p" "p \<in> set (own_pids (p1_houses s)) \<or> p = p1_spawner s"
      by (simp_all add: pid_live_def)
  qed
qed

text \<open>A house that ignores \<^verbatim>\<open>SIGTERM\<close>, a house and both loggers that go at once.\<close>

definition demo_shutdown :: shutdown_io where
  "demo_shutdown = \<lparr>sd_t0 = 0, sd_ticks = (0, [(22, 0)]) # map (\<lambda>k. (20 * int k, [])) [1..<30],
     sd_t1 = 600, sd_ticks1 = (600, [(21, 9), (11, 0), (12, 0)]) # map (\<lambda>k. (600 + 20 * int k, [])) [1..<30], sd_last = []\<rparr>"

theorem shutdown_bounded_witness:
  "\<exists>e s'. shutdown_city \<lparr>ke_pid1 = True, ke_reboot = True\<rparr> demo_shutdown (p1_start demo_city) = Some (e, s')
    \<and> Kill 21 SigTerm \<in> set (p1_acts s') \<and> Kill 21 SigKill \<in> set (p1_acts s')"
proof -
  have c: "clock_ok 0 (sd_ticks demo_shutdown)" "clock_ok 600 (sd_ticks1 demo_shutdown)" by code_simp+
  have "\<exists>e s'. shutdown_city \<lparr>ke_pid1 = True, ke_reboot = True\<rparr> demo_shutdown (p1_start demo_city) = Some (e, s')
    \<and> (\<forall>h\<in>set demo_city. pid_live (hs_pid h) \<longrightarrow> Kill (hs_pid h) SigTerm \<in> set (p1_acts s')
         \<and> (Kill (hs_pid h) SigKill \<in> set (p1_acts s') \<or> hs_pid h \<in> fst ` \<Union> (set ` snd ` set (sd_ticks demo_shutdown))))"
    using shutdown_bounded [of demo_shutdown "\<lparr>ke_pid1 = True, ke_reboot = True\<rparr>" "p1_start demo_city"] c
    by (fastforce simp: demo_shutdown_def p1_start_def)
  moreover have "(21 :: u32) \<notin> fst ` \<Union> (set ` snd ` set (sd_ticks demo_shutdown))"
    by (auto simp: demo_shutdown_def)
  ultimately show ?thesis by (fastforce simp: demo_city_def pid_live_def)
qed


text \<open>The rescue branch, whose program is killed by a signal.\<close>

definition rescue_world :: p1_world where
  "rescue_world = \<lparr>w_machine = \<lparr>m_slots = (\<lambda>_. Enoent), m_files = (\<lambda>_. None), m_limit = None,
       m_set_limit = (\<lambda>_. False), m_self = None, m_env = Map.empty, m_fds = Map.empty,
       m_logger_pid = (\<lambda>_. 0), m_spawner = (\<lambda>_ _. ([], 0))\<rparr>,
     w_kernel = \<lparr>ke_pid1 = True, ke_reboot = True\<rparr>, w_rescue_fork = True, w_rescue_status = 9,
     w_opened = 0, w_ticks = [], w_shutdown = demo_shutdown\<rparr>"


subsection \<open>The poll loop\<close>

definition stop_tick :: "bool \<Rightarrow> int \<Rightarrow> run_tick \<Rightarrow> bool" where
  "stop_tick hold t_end = (\<lambda>(now, ev, _). hold \<and> t_end \<le> now \<or> ev = Signal SIGTERM \<or> ev = Signal SIGINT)"

lemma signal_numbers: "SIGTERM \<noteq> SIGCHLD" "SIGINT \<noteq> SIGCHLD"
  by (simp_all add: SIGTERM_def SIGINT_def SIGCHLD_def)

lemma run_city_step:
  "run_city hold t_end ((now, ev, zs) # ticks) s =
     (if hold \<and> t_end - now \<le> 0 then Some ([], s)
      else let w = (if hold then poll_wait t_end now else - 1);
          s' = (if ev = Signal SIGCHLD \<or> ev = NoEvent then reap_all zs s else s)
        in if ev = Signal SIGTERM \<or> ev = Signal SIGINT then Some ([w], s')
           else map_option (\<lambda>(ws, r). (w # ws, r)) (run_city hold t_end ticks s'))"
  using signal_numbers by (auto simp: Let_def split: tick_event.splits)

lemma run_city_None: "run_city hold t_end ticks s = None \<longleftrightarrow> \<not> (\<exists>tk\<in>set ticks. stop_tick hold t_end tk)"
proof (induction ticks arbitrary: s)
  case Nil
  then show ?case by simp
next
  case (Cons tk ticks)
  obtain now ev zs where tk: "tk = (now, ev, zs)" by (cases tk)
  show ?case
    unfolding tk run_city_step Let_def using Cons by (simp add: stop_tick_def)
qed

lemma run_city_waits:
  "run_city hold t_end ticks s = Some (ws, s') \<Longrightarrow>
     \<forall>w\<in>set ws. if hold then 1 \<le> w \<and> w \<le> 1000000 else w = - 1"
proof (induction ticks arbitrary: s ws)
  case Nil
  then show ?case by simp
next
  case (Cons tk ticks)
  obtain now ev zs where tk: "tk = (now, ev, zs)" by (cases tk)
  have w: "if hold then 1 \<le> w \<and> w \<le> 1000000 else w = - 1" if "w = (if hold then poll_wait t_end now else - 1)" for w
    using that by (simp add: poll_wait_def Let_def)
  show ?case
    using Cons.prems Cons.IH w unfolding tk run_city_step Let_def
    by (auto split: if_splits)
qed


definition demo_world :: p1_world where
  "demo_world = \<lparr>w_machine = demo_machine demo_blob demo_rl, w_kernel = \<lparr>ke_pid1 = True, ke_reboot = True\<rparr>,
     w_rescue_fork = True, w_rescue_status = 0, w_opened = 0,
     w_ticks = [(3, NoEvent, []), (9, Signal SIGCHLD, [(100, 0)]), (12, Signal SIGTERM, [])],
     w_shutdown = demo_shutdown\<rparr>"


end
