(* ===== verification/Logger.thy ===== *)
theory Logger
  imports Blob
begin

text \<open>
  The logger that \<^verbatim>\<open>pid1.c\<close> forks for each house: it relays what the house writes to the console, line
  prefix and all, and keeps the last \<open>NW_EVIDENCE_TAIL_MAX\<close> bytes in a ring, flushed to a file after
  every chunk. The ring is the C array with its cursor; what it means is a queue that forgets its
  oldest bytes, and a locale states that contract and what follows from it.
\<close>

subsection \<open>The last bytes of a stream\<close>

definition last_n :: "nat \<Rightarrow> 'a list \<Rightarrow> 'a list" where
  "last_n k s = drop (length s - k) s"

lemma length_last_n [simp]: "length (last_n k s) = min k (length s)"
  by (simp add: last_n_def)

lemma last_n_short: "length s \<le> k \<Longrightarrow> last_n k s = s"
  by (simp add: last_n_def)

lemma last_n_append: "last_n k (last_n k a @ b) = last_n k (a @ b)"
  by (cases "length a \<le> k") (simp_all add: last_n_def ac_simps)

text \<open>
  A bounded log: a representation whose view, from the empty one, is after every chunk it accepts the
  last \<open>cap\<close> bytes of the view and the chunk.
\<close>

locale bounded_log =
  fixes ok :: "'s \<Rightarrow> bool" and view :: "'s \<Rightarrow> 'a list" and put :: "'a list \<Rightarrow> 's \<Rightarrow> 's"
    and cap chunk :: nat
  assumes put_ok: "ok s \<Longrightarrow> length buf \<le> chunk \<Longrightarrow> ok (put buf s)"
    and put_view: "ok s \<Longrightarrow> length buf \<le> chunk \<Longrightarrow> view (put buf s) = last_n cap (view s @ buf)"
begin

lemma stream_ok: "ok s \<Longrightarrow> \<forall>b\<in>set bs. length b \<le> chunk \<Longrightarrow> ok (fold put bs s)"
  by (induction bs arbitrary: s) (simp_all add: put_ok)

lemma stream_view:
  "ok s \<Longrightarrow> \<forall>b\<in>set bs. length b \<le> chunk \<Longrightarrow> length (view s) \<le> cap \<Longrightarrow>
     view (fold put bs s) = last_n cap (view s @ concat bs)"
proof (induction bs arbitrary: s)
  case Nil
  then show ?case by (simp add: last_n_short)
next
  case (Cons b bs)
  have "view (fold put bs (put b s)) = last_n cap (view (put b s) @ concat bs)"
    using Cons.prems by (intro Cons.IH) (simp_all add: put_ok put_view)
  then show ?case using Cons.prems by (simp add: put_view last_n_append)
qed

end

subsection \<open>The ring\<close>

record ring =
  rg_bytes :: bytes
  rg_cursor :: nat
  rg_wrapped :: bool

text \<open>\<^verbatim>\<open>memcpy\<close> into an array at an index.\<close>

definition put_at :: "nat \<Rightarrow> bytes \<Rightarrow> bytes \<Rightarrow> bytes" where
  "put_at k src dst = take k dst @ src @ drop (k + length src) dst"

definition ring_put :: "bytes \<Rightarrow> ring \<Rightarrow> ring" where
  "ring_put buf r =
     (let n = length buf; room = NW_EVIDENCE_TAIL_MAX - rg_cursor r;
          first = (if n < room then n else room);
          b1 = put_at (rg_cursor r) (take first buf) (rg_bytes r)
      in if first < n then
           r\<lparr>rg_bytes := put_at 0 (drop first buf) b1, rg_cursor := n - first, rg_wrapped := True\<rparr>
         else if rg_cursor r + first = NW_EVIDENCE_TAIL_MAX then
           r\<lparr>rg_bytes := b1, rg_cursor := 0, rg_wrapped := True\<rparr>
         else r\<lparr>rg_bytes := b1, rg_cursor := rg_cursor r + first\<rparr>)"

definition ring_ok :: "ring \<Rightarrow> bool" where
  "ring_ok r \<longleftrightarrow> length (rg_bytes r) = NW_EVIDENCE_TAIL_MAX \<and> rg_cursor r < NW_EVIDENCE_TAIL_MAX"

definition ring_view :: "ring \<Rightarrow> bytes" where
  "ring_view r = (if rg_wrapped r then drop (rg_cursor r) (rg_bytes r) @ take (rg_cursor r) (rg_bytes r)
     else take (rg_cursor r) (rg_bytes r))"

lemma length_ring_view: "ring_ok r \<Longrightarrow> length (ring_view r) \<le> NW_EVIDENCE_TAIL_MAX"
  by (simp add: ring_ok_def ring_view_def)

lemma ring_put_ok_view:
  assumes ok: "ring_ok r" and n: "length buf \<le> NW_EVIDENCE_TAIL_MAX"
  shows "ring_ok (ring_put buf r) \<and> ring_view (ring_put buf r) = last_n NW_EVIDENCE_TAIL_MAX (ring_view r @ buf)"
proof -
  obtain bs c w where r: "r = \<lparr>rg_bytes = bs, rg_cursor = c, rg_wrapped = w\<rparr>" by (cases r)
  define m where "m = NW_EVIDENCE_TAIL_MAX"
  have m: "length bs = m" "c < m" "length buf \<le> m" using ok n by (simp_all add: ring_ok_def r m_def)
  consider "length buf < m - c" | "length buf = m - c" | "m - c < length buf" by linarith
  then show ?thesis
    unfolding m_def [symmetric]
  proof cases
    case 1
    then have "c + length buf \<noteq> m" by linarith
    with 1 have p: "ring_put buf r = \<lparr>rg_bytes = put_at c buf bs, rg_cursor = c + length buf, rg_wrapped = w\<rparr>"
      by (simp add: ring_put_def r Let_def m_def [symmetric])
    show "ring_ok (ring_put buf r) \<and> ring_view (ring_put buf r) = last_n m (ring_view r @ buf)"
      unfolding p using m 1
      by (simp add: ring_ok_def ring_view_def r m_def [symmetric] put_at_def last_n_def ac_simps)
  next
    case 2
    then have p: "ring_put buf r = \<lparr>rg_bytes = put_at c buf bs, rg_cursor = 0, rg_wrapped = True\<rparr>"
      using m(2) by (simp add: ring_put_def r Let_def m_def [symmetric])
    show "ring_ok (ring_put buf r) \<and> ring_view (ring_put buf r) = last_n m (ring_view r @ buf)"
      unfolding p using m 2
      by (simp add: ring_ok_def ring_view_def r m_def [symmetric] put_at_def last_n_def)
  next
    case 3
    let ?b1 = "put_at c (take (m - c) buf) bs"
    have p: "ring_put buf r = \<lparr>rg_bytes = put_at 0 (drop (m - c) buf) ?b1,
        rg_cursor = length buf - (m - c), rg_wrapped = True\<rparr>"
      using 3 by (simp add: ring_put_def r Let_def m_def [symmetric])
    have c: "length buf - (m - c) = c + length buf - m" "c + length buf - m < m" using m 3 by linarith+
    have b1: "?b1 = take c bs @ take (m - c) buf" using m 3 by (simp add: put_at_def)
    show "ring_ok (ring_put buf r) \<and> ring_view (ring_put buf r) = last_n m (ring_view r @ buf)"
      unfolding p b1 c(1) using m 3 c(2) 
      by (simp add: ring_ok_def ring_view_def r m_def [symmetric] put_at_def last_n_def ac_simps)
  qed
qed

interpretation tail: bounded_log ring_ok ring_view ring_put NW_EVIDENCE_TAIL_MAX NW_EVIDENCE_TAIL_MAX
  by unfold_locales (simp_all add: ring_put_ok_view)


subsection \<open>The tail file\<close>

text \<open>
  \<^verbatim>\<open>pwrite\<close> of at most \<open>k\<close> bytes at an offset, past the end over a hole of zeros, and \<^verbatim>\<open>ftruncate\<close>.
\<close>

definition pwrite :: "nat \<Rightarrow> bytes \<Rightarrow> nat \<Rightarrow> bytes \<Rightarrow> bytes" where
  "pwrite k src off file =
     (let d = take k src in
      if d = [] then file
      else take off (file @ replicate (off - length file) NUL) @ d @ drop (off + length d) file)"

definition ftruncate :: "nat \<Rightarrow> bytes \<Rightarrow> bytes" where
  "ftruncate n file = take n (file @ replicate (n - length file) NUL)"

text \<open>How the kernel answers a flush: how much each write takes, and whether the truncation works.\<close>

record flush_io =
  fl_w1 :: nat
  fl_w2 :: nat
  fl_trunc :: bool

definition flush_tail :: "flush_io \<Rightarrow> ring \<Rightarrow> bytes \<Rightarrow> bytes" where
  "flush_tail io r file =
     (let cursor = rg_cursor r;
          tail_seg = NW_EVIDENCE_TAIL_MAX - cursor;
          f1 = (if rg_wrapped r then pwrite (fl_w1 io) (take tail_seg (drop cursor (rg_bytes r))) 0 file
                else file);
          off = (if rg_wrapped r then tail_seg else 0);
          f2 = pwrite (fl_w2 io) (take cursor (rg_bytes r)) off f1;
          total_len = (if rg_wrapped r then NW_EVIDENCE_TAIL_MAX else cursor)
      in if fl_trunc io then ftruncate total_len f2 else f2)"

definition flush_works :: "flush_io \<Rightarrow> bool" where
  "flush_works io \<longleftrightarrow> NW_EVIDENCE_TAIL_MAX \<le> fl_w1 io \<and> NW_EVIDENCE_TAIL_MAX \<le> fl_w2 io \<and> fl_trunc io"

lemma pwrite_full: "length src \<le> k \<Longrightarrow> off \<le> length file \<Longrightarrow>
    pwrite k src off file = take off file @ src @ drop (off + length src) file"
  by (cases "src = []") (simp_all add: pwrite_def Let_def)

lemma flush_tail_view:
  assumes ok: "ring_ok r" and io: "flush_works io"
  shows "flush_tail io r file = ring_view r"
proof -
  obtain bs c w where r: "r = \<lparr>rg_bytes = bs, rg_cursor = c, rg_wrapped = w\<rparr>" by (cases r)
  define m where "m = NW_EVIDENCE_TAIL_MAX"
  have m: "length bs = m" "c < m" using ok by (simp_all add: ring_ok_def r m_def)
  have k: "m \<le> fl_w1 io" "m \<le> fl_w2 io" "fl_trunc io" using io by (simp_all add: flush_works_def m_def)
  have seg: "take (m - c) (drop c bs) = drop c bs" using m by simp
  show ?thesis
  proof (cases w)
    case True
    have 1: "pwrite (fl_w1 io) (drop c bs) 0 file = drop c bs @ drop (m - c) file"
      using m k by (subst pwrite_full) simp_all
    have 2: "pwrite (fl_w2 io) (take c bs) (m - c) (drop c bs @ drop (m - c) file)
        = drop c bs @ take c bs @ drop m (drop c bs @ drop (m - c) file)"
      using m k by (subst pwrite_full) simp_all
    show ?thesis
      unfolding flush_tail_def Let_def r ring.simps m_def [symmetric] seg
      using True m k by (simp add: 1 2 ring_view_def ftruncate_def)
  next
    case False
    have "pwrite (fl_w2 io) (take c bs) 0 file = take c bs @ drop c file"
      using m k by (subst pwrite_full) simp_all
    then show ?thesis
      unfolding flush_tail_def Let_def r ring.simps m_def [symmetric] seg
      using False m k by (simp add: ring_view_def ftruncate_def)
  qed
qed

subsection \<open>The logger\<close>

text \<open>Its state: the ring, the tail file if it could be opened, and what went to the console.\<close>

record logger =
  lg_ring :: ring
  lg_file :: "bytes option"
  lg_console :: bytes

definition log_prefix :: "bytes \<Rightarrow> bytes" where
  "log_prefix name = ''['' @ take (NW_NAME_LEN - 1) (cstr name) @ ''] ''"

text \<open>\<^verbatim>\<open>O_TRUNC\<close>: whatever an earlier life left in the file is gone. The array is not initialised.\<close>

definition logger_start :: "bytes \<Rightarrow> bool \<Rightarrow> logger" where
  "logger_start garbage opened = \<lparr>lg_ring = \<lparr>rg_bytes = garbage, rg_cursor = 0, rg_wrapped = False\<rparr>,
     lg_file = (if opened then Some [] else None), lg_console = []\<rparr>"

definition relay :: "bytes \<Rightarrow> bytes \<Rightarrow> bytes" where
  "relay prefix buf = prefix @ buf @ (if last buf \<noteq> CHR 0x0A then [CHR 0x0A] else [])"

text \<open>One chunk, as \<^verbatim>\<open>read\<close> gave it: captured and flushed first, relayed afterwards.\<close>

definition log_chunk :: "bytes \<Rightarrow> flush_io \<times> bytes \<Rightarrow> logger \<Rightarrow> logger" where
  "log_chunk prefix = (\<lambda>(io, buf) l.
     case lg_file l of
       None \<Rightarrow> l\<lparr>lg_console := lg_console l @ relay prefix buf\<rparr>
     | Some file \<Rightarrow>
         let r = ring_put buf (lg_ring l) in
         l\<lparr>lg_ring := r, lg_file := Some (flush_tail io r file),
           lg_console := lg_console l @ relay prefix buf\<rparr>)"

text \<open>The loop, until a read gives nothing; then the last flush.\<close>

definition run_logger :: "bytes \<Rightarrow> bytes \<Rightarrow> bool \<Rightarrow> (flush_io \<times> bytes) list \<Rightarrow> flush_io \<Rightarrow> logger" where
  "run_logger name garbage opened chunks io =
     (let l = fold (log_chunk (log_prefix name)) chunks (logger_start garbage opened) in
      case lg_file l of None \<Rightarrow> l | Some file \<Rightarrow> l\<lparr>lg_file := Some (flush_tail io (lg_ring l) file)\<rparr>)"

lemma fold_log_chunk:
  "lg_file l = Some old \<Longrightarrow>
     lg_ring (fold (log_chunk p) cs l) = fold ring_put (map snd cs) (lg_ring l)
     \<and> (\<exists>new. lg_file (fold (log_chunk p) cs l) = Some new)"
proof (induction cs arbitrary: l old)
  case Nil
  then show ?case by simp
next
  case (Cons c cs)
  obtain io buf where c: "c = (io, buf)" by (cases c)
  from Cons.IH [of "log_chunk p c l"] Cons.prems show ?case
    by (auto simp: log_chunk_def c Let_def)
qed

lemma fold_log_console:
  "lg_console (fold (log_chunk p) cs l) = lg_console l @ concat (map (\<lambda>(_, buf). relay p buf) cs)"
  by (induction cs arbitrary: l) (auto simp: log_chunk_def Let_def split: option.splits)

subsection \<open>Property\<close>



end
