(* ===== verification/Cgroup.thy ===== *)
theory Cgroup
  imports Handoff
begin

text \<open>
  The control groups of \<^verbatim>\<open>nwsup.c\<close>: delegation of the controllers a plan needs, one fresh directory
  per generation of a house with its limits written and read back, the counters read after a death,
  and the sweep that kills what the house left behind. The kernel's directory tree is a set of
  directories and a map of files; what it makes of a write is an argument.
\<close>

subsection \<open>Limits, written and read back\<close>

record cgroups =
  cg_dirs :: "bytes set"
  cg_files :: "bytes \<rightharpoonup> bytes"

type_synonym cg_kernel = "bytes \<Rightarrow> bytes \<Rightarrow> cgroups \<Rightarrow> cgroups option"

definition cg_write_u64 :: "cg_kernel \<Rightarrow> bytes \<Rightarrow> u64 \<Rightarrow> cgroups \<Rightarrow> cgroups option" where
  "cg_write_u64 kw path v s = kw path (snprintf 24 (dec (unat v))) s"

definition cg_read_back_u64 :: "bytes \<Rightarrow> u64 \<Rightarrow> cgroups \<Rightarrow> bool" where
  "cg_read_back_u64 path want s =
     (case cg_files s path of None \<Rightarrow> False
      | Some content \<Rightarrow>
        let buf = cstr (take 31 content) in
        content \<noteq> [] \<and> (case strtoul buf of (got, erange, rest) \<Rightarrow> \<not> erange \<and> rest \<noteq> buf \<and> got = want))"

text \<open>A failure after the directory was made removes it again: \<^verbatim>\<open>die_cgroup\<close>.\<close>

definition die_cgroup :: "bytes \<Rightarrow> bytes \<Rightarrow> cgroups \<Rightarrow> 'a res \<times> cgroups" where
  "die_cgroup dir what s = (Inl what, s\<lparr>cg_dirs := cg_dirs s - {dir}\<rparr>)"

definition cg_limit ::
  "cg_kernel \<Rightarrow> bytes \<Rightarrow> bytes \<Rightarrow> bytes \<Rightarrow> u64 \<Rightarrow> (cgroups \<Rightarrow> 'a res \<times> cgroups) \<Rightarrow> cgroups \<Rightarrow> 'a res \<times> cgroups" where
  "cg_limit kw dir leaf what v k s =
     (if v = 0 then k s
      else case cg_write_u64 kw (dir @ ''/'' @ leaf) v s of
        None \<Rightarrow> die_cgroup dir (what @ '' write'') s
      | Some s' \<Rightarrow>
          if \<not> cg_read_back_u64 (dir @ ''/'' @ leaf) v s' then die_cgroup dir (what @ '' readback'') s'
          else k s')"

definition gen_dir :: "bytes \<Rightarrow> u32 \<Rightarrow> bytes" where
  "gen_dir name gen = NW_CGROUP_DIR @ ''/'' @ name @ ''.'' @ dec (unat gen)"

text \<open>The limits a plan may declare, in the order they are written.\<close>

definition limits_of :: "sup_cfg \<Rightarrow> (bytes \<times> bytes \<times> u64) list" where
  "limits_of c = [(''memory.high'', ''mem-high'', c_mem_high c), (''memory.max'', ''mem-max'', c_mem_max c),
     (''cpu.weight'', ''cpu-weight'', ucast (c_cpu_weight c)), (''pids.max'', ''task-cap'', ucast (c_task_cap c))]"

fun cg_limits ::
  "cg_kernel \<Rightarrow> bytes \<Rightarrow> (bytes \<times> bytes \<times> u64) list \<Rightarrow> (cgroups \<Rightarrow> 'a res \<times> cgroups) \<Rightarrow> cgroups
   \<Rightarrow> 'a res \<times> cgroups" where
  "cg_limits kw dir [] k s = k s"
| "cg_limits kw dir ((leaf, what, v) # ls) k s = cg_limit kw dir leaf what v (cg_limits kw dir ls k) s"

text \<open>
  A generation's directory is made and must not have been there. \<open>open_ok\<close> is whether it can be
  opened at the end.
\<close>

definition house_cgroup_open_generation ::
  "cg_kernel \<Rightarrow> bool \<Rightarrow> bool \<Rightarrow> sup_cfg \<Rightarrow> u32 \<Rightarrow> cgroups \<Rightarrow> bytes res \<times> cgroups" where
  "house_cgroup_open_generation kw mkdir_ok open_ok c gen s =
     (let dir = gen_dir (c_name c) gen in
      if 160 \<le> length dir then (Inl ''cgroup path'', s)
      else if \<not> mkdir_ok \<or> dir \<in> cg_dirs s then (Inl ''cgroup generation dir'', s)
      else cg_limits kw dir (limits_of c)
        (\<lambda>s. if \<not> open_ok then die_cgroup dir ''open cgroup dir'' s else (Inr dir, s))
        (s\<lparr>cg_dirs := insert dir (cg_dirs s)\<rparr>))"

subsection \<open>Delegation\<close>

text \<open>
  \<open>open_ok\<close> and \<open>write_ok\<close> are the kernel's answers for a directory's \<^verbatim>\<open>subtree_control\<close>. What nobody
  declared may be missing; \<^verbatim>\<open>pids\<close> is then tried for the autopsy, and its answer is dropped.
\<close>

definition cg_enable_subtree :: "(bytes \<Rightarrow> bool) \<Rightarrow> (bytes \<Rightarrow> bytes \<Rightarrow> bool) \<Rightarrow> bytes \<Rightarrow> bytes \<Rightarrow> bool" where
  "cg_enable_subtree open_ok write_ok dir ctrl =
     (let path = dir @ ''/cgroup.subtree_control'' in
      length path < 192 \<and> open_ok path \<and> write_ok path ctrl)"

definition delegate :: "(bytes \<Rightarrow> bool) \<Rightarrow> (bytes \<Rightarrow> bytes \<Rightarrow> bool) \<Rightarrow> bytes \<Rightarrow> bool" where
  "delegate open_ok write_ok ctrl \<longleftrightarrow>
     cg_enable_subtree open_ok write_ok ''/sys/fs/cgroup'' ctrl \<and> cg_enable_subtree open_ok write_ok NW_CGROUP_DIR ctrl"

definition cgroup_parent_setup ::
  "bool \<Rightarrow> (bytes \<Rightarrow> bool) \<Rightarrow> (bytes \<Rightarrow> bytes \<Rightarrow> bool) \<Rightarrow> sup_cfg \<Rightarrow> unit res" where
  "cgroup_parent_setup mkdir_ok open_ok write_ok c =
     (let need_memory = (c_mem_high c \<noteq> 0 \<or> c_mem_max c \<noteq> 0);
          need_cpu = (c_cpu_weight c \<noteq> 0);
          need_pids = (c_task_cap c \<noteq> 0)
      in die_if (\<not> mkdir_ok) ''cgroup parent dir'' (
         die_if (need_memory \<and> \<not> delegate open_ok write_ok ''+memory'') ''cgroup memory controller unavailable'' (
         die_if (need_cpu \<and> \<not> delegate open_ok write_ok ''+cpu'') ''cgroup cpu controller unavailable'' (
         die_if (need_pids \<and> \<not> delegate open_ok write_ok ''+pids'') ''cgroup pids controller unavailable''
           (Inr ())))))"

subsection \<open>Counters\<close>

definition first_line :: "bytes \<Rightarrow> bytes" where
  "first_line s = takeWhile (\<lambda>c. c \<noteq> CHR 0x0A) s"

definition after_line :: "bytes \<Rightarrow> bytes" where
  "after_line s = drop 1 (dropWhile (\<lambda>c. c \<noteq> CHR 0x0A) s)"

lemma after_line_shorter: "s \<noteq> [] \<Longrightarrow> length (after_line s) < length s"
proof -
  assume "s \<noteq> []"
  moreover have "length (dropWhile (\<lambda>c. c \<noteq> CHR 0x0A) s) \<le> length s" by (rule length_dropWhile_le)
  ultimately show ?thesis by (cases s) (auto simp: after_line_def split: if_splits)
qed

text \<open>The loop over the lines of the buffer: the first one that starts with the key and a space.\<close>

function counter_scan :: "bytes \<Rightarrow> bytes \<Rightarrow> u64 option" where
  "counter_scan key s =
     (if s = [] then None
      else let l = first_line s; klen = length key in
        if take klen l = key \<and> idx l klen = Some CHR '' '' then
          case strtoul (drop (klen + 1) l) of (v, erange, rest) \<Rightarrow>
            if \<not> erange \<and> rest \<noteq> drop (klen + 1) l then Some v else None
        else counter_scan key (after_line s))"
  by pat_completeness auto
termination by (relation "measure (\<lambda>(_, s). length s)") (simp_all add: after_line_shorter)

declare counter_scan.simps [simp del]

definition cg_read_counter :: "bytes option \<Rightarrow> bytes \<Rightarrow> u64 option" where
  "cg_read_counter content key =
     (case content of None \<Rightarrow> None
      | Some c \<Rightarrow> if c = [] then None else counter_scan key (cstr (take 511 c)))"

subsection \<open>The sweep\<close>

datatype kill_act = KillGroup | Freeze | KillPid int | Thaw

text \<open>\<^verbatim>\<open>strtok_r\<close> on newlines: the pieces between them that are not empty.\<close>

function tokens :: "bytes \<Rightarrow> bytes list" where
  "tokens s =
     (if s = [] then []
      else (if first_line s = [] then [] else [first_line s]) @ tokens (after_line s))"
  by pat_completeness auto
termination by (relation "measure length") (simp_all add: after_line_shorter)

declare tokens.simps [simp del]

text \<open>
  What opening \<^verbatim>\<open>cgroup.kill\<close> and \<^verbatim>\<open>cgroup.freeze\<close> gives, and the content of \<^verbatim>\<open>cgroup.procs\<close>; the
  first argument's error says whether the file is missing.
\<close>

datatype kill_file = KillHere | KillMissing | KillError

definition cg_kill_sweep :: "kill_file \<Rightarrow> bool \<Rightarrow> bytes option \<Rightarrow> bool \<Rightarrow> kill_act list" where
  "cg_kill_sweep kill_open freeze_ok procs thaw_ok =
     (case kill_open of
        KillHere \<Rightarrow> [KillGroup]
      | KillError \<Rightarrow> []
      | KillMissing \<Rightarrow>
          if \<not> freeze_ok then []
          else [Freeze]
            @ (case procs of None \<Rightarrow> []
               | Some content \<Rightarrow>
                   map KillPid (filter (\<lambda>p. 0 < p) (map (\<lambda>tok. sint (atoi tok)) (tokens (cstr (take 4095 content))))))
            @ (if thaw_ok then [Thaw] else []))"

subsection \<open>What the text of the kernel's files means\<close>

lemma first_line_eq: "CHR 0x0A \<notin> set l \<Longrightarrow> first_line (l @ CHR 0x0A # s) = l"
  unfolding first_line_def by (subst takeWhile_append2) auto

lemma after_line_eq: "CHR 0x0A \<notin> set l \<Longrightarrow> after_line (l @ CHR 0x0A # s) = s"
  unfolding after_line_def by (subst dropWhile_append2) auto

lemma dec_plain: "c \<in> set (dec n) \<Longrightarrow> c \<noteq> CHR 0x0A \<and> c \<noteq> CHR '' '' \<and> c \<noteq> NUL \<and> c \<noteq> CHR ''.''"
  using dec_digits [of c n] by (auto simp: digit_char_def)

text \<open>A counter file: one line per counter.\<close>

definition key_ok :: "bytes \<Rightarrow> bool" where
  "key_ok k \<longleftrightarrow> CHR 0x0A \<notin> set k \<and> CHR '' '' \<notin> set k \<and> NUL \<notin> set k"

definition event_lines :: "(bytes \<times> nat) list \<Rightarrow> bytes" where
  "event_lines kvs = concat (map (\<lambda>(k, v). k @ '' '' @ dec v @ [CHR 0x0A]) kvs)"

lemma key_match:
  assumes "key_ok key" "key_ok k"
  shows "take (length key) (k @ '' '' @ dec v) = key \<and> idx (k @ '' '' @ dec v) (length key) = Some CHR '' ''
    \<longleftrightarrow> k = key"
proof
  let ?l = "k @ '' '' @ dec v"
  assume a: "take (length key) ?l = key \<and> idx ?l (length key) = Some CHR '' ''"
  then have "length key < length ?l" "?l ! length key = CHR '' ''" by (auto simp: idx_def split: if_splits)
  then have "?l = key @ CHR '' '' # drop (Suc (length key)) ?l"
    using a id_take_nth_drop by metis
  then have "takeWhile (\<lambda>c. c \<noteq> CHR '' '') ?l = takeWhile (\<lambda>c. c \<noteq> CHR '' '') (key @ CHR '' '' # drop (Suc (length key)) ?l)"
    by (rule arg_cong)
  moreover have "takeWhile (\<lambda>c. c \<noteq> CHR '' '') (x @ CHR '' '' # y) = x" if "key_ok x" for x y
    using that by (subst takeWhile_append2) (auto simp: key_ok_def)
  ultimately show "k = key" using assms by (metis append_Cons append_Nil)
next
  assume "k = key"
  then show "take (length key) (k @ '' '' @ dec v) = key \<and> idx (k @ '' '' @ dec v) (length key) = Some CHR '' ''"
    by (simp add: idx_def nth_append)
qed

lemma counter_scan_step:
  assumes "CHR 0x0A \<notin> set l"
  shows "counter_scan key (l @ CHR 0x0A # s) =
    (if take (length key) l = key \<and> idx l (length key) = Some CHR '' '' then
       case strtoul (drop (length key + 1) l) of (v, erange, rest) \<Rightarrow>
         if \<not> erange \<and> rest \<noteq> drop (length key + 1) l then Some v else None
     else counter_scan key s)"
  by (subst counter_scan.simps) (simp add: first_line_eq [OF assms] after_line_eq [OF assms] Let_def)

lemma counter_scan_lines:
  "key_ok key \<Longrightarrow> \<forall>(k, v)\<in>set kvs. key_ok k \<and> v < 2 ^ 64 \<Longrightarrow>
     counter_scan key (event_lines kvs) = map_option of_nat (map_of kvs key)"
proof (induction kvs)
  case Nil
  then show ?case by (subst counter_scan.simps) (simp add: event_lines_def)
next
  case (Cons kv kvs)
  obtain k v where kv: "kv = (k, v)" by (cases kv)
  have k: "key_ok k" "v < 2 ^ 64" using Cons.prems(2) kv by simp_all
  let ?l = "k @ '' '' @ dec v"
  have nl: "CHR 0x0A \<notin> set ?l" using k(1) dec_plain by (auto simp: key_ok_def)
  have s: "event_lines (kv # kvs) = ?l @ CHR 0x0A # event_lines kvs"
    by (simp add: event_lines_def kv)
  have rest: "counter_scan key (event_lines kvs) = map_option of_nat (map_of kvs key)"
    using Cons by simp
  show ?case
  proof (cases "k = key")
    case True
    then have "drop (length key + 1) ?l = dec v" by simp
    then have "counter_scan key (event_lines (kv # kvs)) = Some (of_nat v)"
      using key_match [OF Cons.prems(1) k(1), of v] True strtoul_dec [OF k(2)] dec_not_Nil [of v, symmetric]
      unfolding s counter_scan_step [OF nl] by simp
    then show ?thesis using True kv by simp
  next
    case False
    then have "\<not> (take (length key) ?l = key \<and> idx ?l (length key) = Some CHR '' '')"
      using key_match [OF Cons.prems(1) k(1), of v] by blast
    then have "counter_scan key (event_lines (kv # kvs)) = counter_scan key (event_lines kvs)"
      unfolding s counter_scan_step [OF nl] by (rule if_not_P)
    then show ?thesis using rest False kv by simp
  qed
qed

lemma tokens_lines:
  "tokens (concat (map (\<lambda>p. dec p @ [CHR 0x0A]) ps)) = map dec ps"
proof (induction ps)
  case Nil
  then show ?case by (subst tokens.simps) simp
next
  case (Cons p ps)
  let ?r = "concat (map (\<lambda>p. dec p @ [CHR 0x0A]) ps)"
  have nl: "CHR 0x0A \<notin> set (dec p)" using dec_plain by blast
  have s: "concat (map (\<lambda>p. dec p @ [CHR 0x0A]) (p # ps)) = dec p @ CHR 0x0A # ?r" by simp
  show ?case
    unfolding s by (subst tokens.simps) (simp add: first_line_eq [OF nl] after_line_eq [OF nl] Cons)
qed

lemma cstr_plain: "NUL \<notin> set s \<Longrightarrow> cstr s = s"
  by (simp add: cstr_def takeWhile_eq_all_conv) (metis)

text \<open>A kernel whose write to a limit changes that file only.\<close>

definition kernel_local :: "cg_kernel \<Rightarrow> bool" where
  "kernel_local kw \<longleftrightarrow> (\<forall>path v s s'. kw path v s = Some s' \<longrightarrow>
     cg_dirs s' = cg_dirs s \<and> (\<forall>q. q \<noteq> path \<longrightarrow> cg_files s' q = cg_files s q))"

lemma read_back_cong: "cg_files s path = cg_files s' path \<Longrightarrow> cg_read_back_u64 path v s = cg_read_back_u64 path v s'"
  by (simp add: cg_read_back_u64_def)

lemma cg_limits_cases:
  "kernel_local kw \<Longrightarrow> distinct (map fst ls) \<Longrightarrow> cg_limits kw dir ls k s = (r, s') \<Longrightarrow>
   (\<exists>e. r = Inl e \<and> cg_dirs s' = cg_dirs s - {dir})
   \<or> (\<exists>s1. k s1 = (r, s') \<and> cg_dirs s1 = cg_dirs s
      \<and> (\<forall>leaf. leaf \<notin> fst ` set ls \<longrightarrow> cg_files s1 (dir @ ''/'' @ leaf) = cg_files s (dir @ ''/'' @ leaf))
      \<and> (\<forall>(leaf, what, v)\<in>set ls. v \<noteq> 0 \<longrightarrow> cg_read_back_u64 (dir @ ''/'' @ leaf) v s1))"
proof (induction ls arbitrary: s)
  case Nil
  then show ?case by auto
next
  case (Cons l ls)
  obtain leaf what v where l: "l = (leaf, what, v)" by (cases l)
  have d: "distinct (map fst ls)" "leaf \<notin> fst ` set ls" using Cons.prems(2) l by simp_all
  show ?case
  proof (cases "v = 0")
    case True
    then have "cg_limits kw dir ls k s = (r, s')" using Cons.prems(3) l by (simp add: cg_limit_def)
    from Cons.IH [OF Cons.prems(1) d(1) this] True show ?thesis by (auto simp: l)
  next
    case False
    let ?p = "dir @ ''/'' @ leaf"
    show ?thesis
    proof (cases "cg_write_u64 kw ?p v s")
      case None
      then show ?thesis using Cons.prems(3) False l by (auto simp: cg_limit_def die_cgroup_def)
    next
      case (Some s2)
      then have s2: "cg_dirs s2 = cg_dirs s" "\<forall>q. q \<noteq> ?p \<longrightarrow> cg_files s2 q = cg_files s q"
        using Cons.prems(1) unfolding kernel_local_def cg_write_u64_def by blast+
      show ?thesis
      proof (cases "cg_read_back_u64 ?p v s2")
        case rb: False
        then show ?thesis using Cons.prems(3) False Some s2 l by (auto simp: cg_limit_def die_cgroup_def)
      next
        case True
        then have "cg_limits kw dir ls k s2 = (r, s')"
          using Cons.prems(3) False Some l by (simp add: cg_limit_def)
        from Cons.IH [OF Cons.prems(1) d(1) this] show ?thesis
        proof
          assume "\<exists>e. r = Inl e \<and> cg_dirs s' = cg_dirs s2 - {dir}"
          then show ?thesis by (simp add: s2(1))
        next
          assume "\<exists>s1. k s1 = (r, s') \<and> cg_dirs s1 = cg_dirs s2
            \<and> (\<forall>leaf. leaf \<notin> fst ` set ls \<longrightarrow> cg_files s1 (dir @ ''/'' @ leaf) = cg_files s2 (dir @ ''/'' @ leaf))
            \<and> (\<forall>(leaf, what, v)\<in>set ls. v \<noteq> 0 \<longrightarrow> cg_read_back_u64 (dir @ ''/'' @ leaf) v s1)"
          then obtain s1 where 1: "k s1 = (r, s')" "cg_dirs s1 = cg_dirs s2"
            "\<And>leaf. leaf \<notin> fst ` set ls \<Longrightarrow> cg_files s1 (dir @ ''/'' @ leaf) = cg_files s2 (dir @ ''/'' @ leaf)"
            "\<forall>(leaf, what, v)\<in>set ls. v \<noteq> 0 \<longrightarrow> cg_read_back_u64 (dir @ ''/'' @ leaf) v s1"
            by blast
          have "cg_read_back_u64 ?p v s1" using True read_back_cong [OF 1(3) [OF d(2)]] by blast
          moreover have "cg_files s1 (dir @ ''/'' @ x) = cg_files s (dir @ ''/'' @ x)"
            if "x \<notin> fst ` set (l # ls)" for x
            using 1(3) [of x] s2(2) that l by auto
          ultimately show ?thesis using 1 s2(1) l by (intro disjI2 exI [of _ s1]) auto
        qed
      qed
    qed
  qed
qed

subsection \<open>Properties\<close>

text \<open>
  A counter read after a death is the kernel's: on a file of one line per counter that fits the
  buffer, \<open>cg_read_counter\<close> gives the value of the first line with exactly that key, and unavailable
  if there is none; a missing or empty file is unavailable, never zero.
\<close>

lemma counter_read_exact:
  assumes "key_ok key" "\<forall>(k, v)\<in>set kvs. key_ok k \<and> v < 2 ^ 64" "length (event_lines kvs) \<le> 511"
  shows "cg_read_counter (Some (event_lines kvs)) key = map_option of_nat (map_of kvs key)
    \<and> cg_read_counter None key = None"
proof -
  have "NUL \<notin> set (event_lines kvs)"
    using assms(2) dec_plain by (auto simp: event_lines_def key_ok_def)
  then have "cstr (take 511 (event_lines kvs)) = event_lines kvs" using assms(3) by (simp add: cstr_plain)
  moreover have "map_of kvs key = None" if "event_lines kvs = []"
    using that by (cases kvs) (auto simp: event_lines_def)
  ultimately show ?thesis
    using counter_scan_lines [OF assms(1,2)] by (simp add: cg_read_counter_def)
qed

lemma counter_read_exact_example:
  "cg_read_counter (Some (event_lines [(''oom'', 7), (''oom_kill'', 3)])) ''oom_kill'' = Some 3
   \<and> cg_read_counter (Some (event_lines [(''oom'', 7), (''oom_kill'', 3)])) ''high'' = None"
proof -
  let ?k = "[(''oom'', 7), (''oom_kill'', 3 :: nat)]"
  have k: "key_ok ''oom_kill''" "key_ok ''high''" "key_ok ''oom''" by (simp_all add: key_ok_def)
  have "length (event_lines ?k) \<le> 511" by code_simp
  with counter_read_exact [OF k(1), of ?k] counter_read_exact [OF k(2), of ?k] k show ?thesis by simp
qed

lemma gen_dir_inj:
  assumes "list_all name_char n" "list_all name_char n'" "gen_dir n g = gen_dir n' g'"
  shows "n = n' \<and> g = g'"
proof -
  have dots: "CHR ''.'' \<notin> set n" "CHR ''.'' \<notin> set n'"
    using assms(1,2) name_char_not_slash by (auto simp: list_all_iff)
  have e: "n @ CHR ''.'' # dec (unat g) = n' @ CHR ''.'' # dec (unat g')" using assms(3) by (simp add: gen_dir_def)
  have tw: "takeWhile (\<lambda>c. c \<noteq> CHR ''.'') (x @ CHR ''.'' # y) = x" if "CHR ''.'' \<notin> set x" for x y
    using that by (subst takeWhile_append2) auto
  have "n = n'" using tw [OF dots(1)] tw [OF dots(2)] e by metis
  then show ?thesis using e by (simp add: word_unat_eq_iff)
qed

lemma generation_opened:
  fixes c gen
  defines "dir \<equiv> gen_dir (c_name c) gen"
  assumes "kernel_local kw" "house_cgroup_open_generation kw mkdir_ok open_ok c gen s = (r, s')"
  shows "r = Inr dir \<and> dir \<notin> cg_dirs s \<and> cg_dirs s' = insert dir (cg_dirs s)
      \<and> (\<forall>(leaf, what, v)\<in>set (limits_of c). v \<noteq> 0 \<longrightarrow> cg_read_back_u64 (dir @ ''/'' @ leaf) v s')
    \<or> (\<exists>e. r = Inl e) \<and> cg_dirs s' = cg_dirs s"
proof (cases "160 \<le> length dir \<or> \<not> mkdir_ok \<or> dir \<in> cg_dirs s")
  case True
  then show ?thesis using assms(3) by (auto simp: house_cgroup_open_generation_def dir_def Let_def split: if_splits)
next
  case False
  let ?k = "\<lambda>s. if \<not> open_ok then die_cgroup dir ''open cgroup dir'' s else (Inr dir, s)"
  let ?s0 = "s\<lparr>cg_dirs := insert dir (cg_dirs s)\<rparr>"
  have run: "cg_limits kw dir (limits_of c) ?k ?s0 = (r, s')"
    using assms(3) False unfolding house_cgroup_open_generation_def dir_def Let_def by simp
  have "distinct (map fst (limits_of c))" by (simp add: limits_of_def)
  from cg_limits_cases [OF assms(2) this run] show ?thesis
  proof
    assume "\<exists>e. r = Inl e \<and> cg_dirs s' = cg_dirs ?s0 - {dir}"
    then show ?thesis using False by auto
  next
    assume "\<exists>s1. ?k s1 = (r, s') \<and> cg_dirs s1 = cg_dirs ?s0
      \<and> (\<forall>leaf. leaf \<notin> fst ` set (limits_of c) \<longrightarrow> cg_files s1 (dir @ ''/'' @ leaf) = cg_files ?s0 (dir @ ''/'' @ leaf))
      \<and> (\<forall>(leaf, what, v)\<in>set (limits_of c). v \<noteq> 0 \<longrightarrow> cg_read_back_u64 (dir @ ''/'' @ leaf) v s1)"
    then obtain s1 where s1: "?k s1 = (r, s')" "cg_dirs s1 = insert dir (cg_dirs s)"
      "\<forall>(leaf, what, v)\<in>set (limits_of c). v \<noteq> 0 \<longrightarrow> cg_read_back_u64 (dir @ ''/'' @ leaf) v s1"
      by auto
    show ?thesis
    proof (cases open_ok)
      case True
      then have "r = Inr dir" "s' = s1" using s1(1) by simp_all
      then show ?thesis using s1 False by auto
    next
      case no: False
      then have "r = Inl ''open cgroup dir''" "cg_dirs s' = cg_dirs s1 - {dir}"
        using s1(1) by (auto simp: die_cgroup_def)
      then show ?thesis using s1(2) False by auto
    qed
  qed
qed


text \<open>A kernel that stores what is written, with the newline it shows it with.\<close>

definition plain_kernel :: cg_kernel where
  "plain_kernel path v s = Some (s\<lparr>cg_files := (cg_files s)(path \<mapsto> v @ [CHR 0x0A])\<rparr>)"

definition demo_cfg :: sup_cfg where
  "demo_cfg = \<lparr>c_path = ''/bin/web'', c_name = ''web'', c_lids = 0, c_budget = 3, c_complete_on_0 = False,
     c_lock = True, c_stop_signal = 15, c_grace_period = 0, c_nofile = 0, c_capabilities = 0, c_brick = None,
     c_layer = None, c_layer_bytes = 0, c_cpu_mask = 0, c_mem_high = 0, c_mem_max = 4096, c_cpu_weight = 0,
     c_nice = 0, c_sched_policy = 0, c_task_cap = 64, c_oom_score_adj = 0, c_binds = []\<rparr>"

lemma plain_write:
  "cg_write_u64 plain_kernel path v s = Some (s\<lparr>cg_files := (cg_files s)(path \<mapsto> dec (unat v) @ [CHR 0x0A])\<rparr>)"
proof -
  have "unat v < 100000000000000000000000" using unat_bounds(4) [of v] by simp
  then show ?thesis by (simp add: cg_write_u64_def plain_kernel_def snprintf24_dec)
qed

lemma plain_read_back:
  "cg_read_back_u64 path v (s\<lparr>cg_files := (cg_files s)(path \<mapsto> dec (unat v) @ [CHR 0x0A])\<rparr>)"
proof -
  have v: "unat v < 2 ^ 64" using unat_bounds(4) [of v] by simp
  then have "length (dec (unat v)) \<le> 20" using length_dec [of "unat v" 19] by simp
  then have "cstr (take 31 (dec (unat v) @ [CHR 0x0A])) = dec (unat v) @ [CHR 0x0A]"
    using dec_no_NUL by (simp add: cstr_plain)
  with v show ?thesis by (simp add: cg_read_back_u64_def Let_def strtoul_dec_line)
qed

lemma plain_limit:
  "cg_limit plain_kernel dir leaf what v k s =
     k (if v = 0 then s
        else s\<lparr>cg_files := (cg_files s)(dir @ ''/'' @ leaf \<mapsto> dec (unat v) @ [CHR 0x0A])\<rparr>)"
  by (simp add: cg_limit_def plain_write plain_read_back)


text \<open>
  On a kernel without \<^verbatim>\<open>cgroup.kill\<close> the sweep freezes the group, kills exactly the processes the
  kernel lists, in its order, and thaws, if the listing fits the buffer.
\<close>

theorem sweep_kills_the_listed:
  assumes "\<forall>p\<in>set ps. 0 < p \<and> p < 2 ^ 31" "length (concat (map (\<lambda>p. dec p @ [CHR 0x0A]) ps)) \<le> 4095"
  shows "cg_kill_sweep KillMissing True (Some (concat (map (\<lambda>p. dec p @ [CHR 0x0A]) ps))) True
    = [Freeze] @ map (\<lambda>p. KillPid (int p)) ps @ [Thaw]"
proof -
  let ?l = "concat (map (\<lambda>p. dec p @ [CHR 0x0A]) ps)"
  have at: "sint (atoi (dec p)) = int p" if "p \<in> set ps" for p
    using assms(1) that by (simp add: sint_atoi_small)
  have "NUL \<notin> set ?l" using dec_plain by auto
  then have "tokens (cstr (take 4095 ?l)) = map dec ps"
    using assms(2) cstr_plain tokens_lines by (metis take_all)
  then have "map (\<lambda>tok. sint (atoi tok)) (tokens (cstr (take 4095 ?l))) = map int ps"
    using at by simp
  moreover have "filter (\<lambda>p. 0 < p) (map int ps) = map int ps" using assms(1) by (simp add: filter_id_conv)
  ultimately show ?thesis by (simp add: cg_kill_sweep_def)
qed

theorem sweep_kills_the_listed_example:
  "cg_kill_sweep KillMissing True (Some (concat (map (\<lambda>p. dec p @ [CHR 0x0A]) [17, 4242]))) True
   = [Freeze, KillPid 17, KillPid 4242, Thaw]"
proof -
  have "length (concat (map (\<lambda>p. dec p @ [CHR 0x0A]) [17, 4242])) \<le> 4095"
    by (simp add: dec.simps)
  from sweep_kills_the_listed [OF _ this] show ?thesis by simp
qed

text \<open>
  A listing past the buffer is cut where the buffer ends, in the middle of a number if that is where
  it ends, and the sweep then kills the process that number names.
\<close>

lemma listing_cut:
  "take (4 * k + 3) (concat (map (\<lambda>p. dec p @ [CHR 0x0A]) (replicate k 100 @ [12345])))
   = concat (map (\<lambda>p. dec p @ [CHR 0x0A]) (replicate k 100)) @ dec 123"
proof (induction k)
  case 0
  have "dec 123 = ''123''" "dec 12345 = ''12345''" by (simp_all add: dec.simps digit_def) code_simp+
  then show ?case by simp
next
  case (Suc k)
  have "dec 100 = ''100''" by (simp add: dec.simps digit_def) code_simp
  moreover have "4 * Suc k + 3 = Suc (Suc (Suc (Suc (4 * k + 3))))" by simp
  ultimately show ?case
    using Suc by (simp only: replicate_Suc append_Cons list.map concat.simps take_Suc_Cons append_Nil)
qed

lemma last_token: "dec q \<in> set (tokens (concat (map (\<lambda>p. dec p @ [CHR 0x0A]) ps) @ dec q))"
proof (induction ps)
  case Nil
  have "first_line (dec q) = dec q" using dec_plain by (simp add: first_line_def takeWhile_eq_all_conv)
  then show ?case by (subst tokens.simps) simp
next
  case (Cons p ps)
  have nl: "CHR 0x0A \<notin> set (dec p)" using dec_plain by blast
  have "concat (map (\<lambda>p. dec p @ [CHR 0x0A]) (p # ps)) @ dec q
      = dec p @ CHR 0x0A # (concat (map (\<lambda>p. dec p @ [CHR 0x0A]) ps) @ dec q)" by simp
  then show ?case
    using Cons by (subst tokens.simps) (simp add: after_line_eq [OF nl])
qed

lemma sweep_cut_kills_a_stranger:
  "KillPid 123 \<in> set (cg_kill_sweep KillMissing True
      (Some (concat (map (\<lambda>p. dec p @ [CHR 0x0A]) (replicate 1023 100 @ [12345])))) True)"
proof -
  let ?f = "\<lambda>p. dec p @ [CHR 0x0A]"
  let ?c = "concat (map ?f (replicate 1023 100 @ [12345]))"
  have "(4095 :: nat) = 4 * 1023 + 3" by simp
  then have cut: "take 4095 ?c = concat (map ?f (replicate 1023 100)) @ dec 123"
    using listing_cut [of 1023] by metis
  have "NUL \<notin> set (concat (map ?f ps) @ dec 123)" for ps
    using dec_plain by auto
  then have "dec 123 \<in> set (tokens (cstr (take 4095 ?c)))"
    unfolding cut using cstr_plain last_token by metis
  moreover have "sint (atoi (dec 123)) = 123" using sint_atoi_small [of 123] by simp
  ultimately have "KillPid 123 \<in> KillPid ` (set (filter (\<lambda>p. 0 < p)
      (map (\<lambda>tok. sint (atoi tok)) (tokens (cstr (take 4095 ?c))))))"
    by force
  then show ?thesis unfolding cg_kill_sweep_def by (simp del: replicate.simps)
qed

end
