(* ===== verification/Supervisor.thy ===== *)
theory Supervisor
  imports Handoff Decide Systems
begin

text \<open>
  The supervisor \<^verbatim>\<open>nwsup.c\<close> as a state machine: the main loop from the first control group to the last
  decision, \<^verbatim>\<open>wait_house\<close> in each of its tiers, the control socket, and the signal handler that can run
  between any two steps. A step's input is what the kernel answers in it. \<open>s_acts\<close> is the trace of what
  the supervisor did.
\<close>

subsection \<open>State\<close>

text \<open>How \<^verbatim>\<open>wait_house\<close> waits: by what \<^verbatim>\<open>pidfd_open\<close> and \<^verbatim>\<open>signalfd\<close> gave.\<close>

datatype tier = ByPidfd | BySignalfd | ByCycles | ByWaitpid

definition wait_tier :: "bool \<Rightarrow> bool \<Rightarrow> bool \<Rightarrow> tier" where
  "wait_tier pidfd_ok signalfd_ok extra =
     (if pidfd_ok then ByPidfd else if signalfd_ok then BySignalfd
      else if extra then ByCycles else ByWaitpid)"

datatype sup_end = SupExit nat | SupDie bytes

datatype pc =
    Top
  | IdlePoll
  | Opening
  | Cloned u32
  | Named u32
  | WaitStart u32
  | WaitTop u32 tier
  | Polling u32 tier bool
  | Reaping u32
  | Returned u32 wstatus
  | Dead wstatus
  | Gone sup_end

definition SIGKILL :: nat where "SIGKILL = 9"

datatype sup_act =
    ForkHouse u32 u32
  | SignalHouse u32 nat
  | Reply bytes
  | SweepGroup u32
  | Evidence wstatus u32 "u64 option" "u64 option"
  | SayLine bytes
  | UnlinkSocket

record sup =
  s_pc :: pc
  s_child :: u32
  s_stopping :: bool
  s_stop_requested :: bool
  s_stopped :: bool
  s_deaths :: u32
  s_gen :: u32
  s_cycles :: u32
  s_acts :: "sup_act list"

definition sup_start :: "sup_cfg \<Rightarrow> sup" where
  "sup_start c = \<lparr>s_pc = Top, s_child = 0, s_stopping = False, s_stop_requested = False,
     s_stopped = (\<not> c_lock c), s_deaths = 0, s_gen = 0, s_cycles = 0, s_acts = []\<rparr>"

definition do_act :: "sup_act \<Rightarrow> sup \<Rightarrow> sup" where
  "do_act a s = s\<lparr>s_acts := s_acts s @ [a]\<rparr>"

definition goto :: "pc \<Rightarrow> sup \<Rightarrow> sup" where
  "goto l s = s\<lparr>s_pc := l\<rparr>"

definition sup_die :: "bytes \<Rightarrow> sup \<Rightarrow> sup" where
  "sup_die what s = goto (Gone (SupDie what)) s"

text \<open>\<^verbatim>\<open>unlink(sockpath); _exit(n);\<close>\<close>

definition sup_exit :: "nat \<Rightarrow> sup \<Rightarrow> sup" where
  "sup_exit n s = goto (Gone (SupExit n)) (do_act UnlinkSocket s)"

subsection \<open>Signals and the control socket\<close>

definition on_term :: "sup_cfg \<Rightarrow> sup \<Rightarrow> sup" where
  "on_term c s =
     (let s1 = s\<lparr>s_stopping := True\<rparr> in
      if 0 < sint (s_child s1) then do_act (SignalHouse (s_child s1) (c_stop_signal c)) s1 else s1)"

definition decide :: "sup_cfg \<Rightarrow> bool \<Rightarrow> bool \<Rightarrow> bool \<Rightarrow> wstatus \<Rightarrow> sup \<Rightarrow> nw_decision" where
  "decide c start has_child ended st s =
     nw_decide (c_lock c) (c_complete_on_0 c) (s_stopping s) (s_stop_requested s) start
       has_child ended st (s_deaths s) (c_budget c)"

definition START :: bytes where "START = ''START\<newline>''"
definition STOP :: bytes where "STOP = ''STOP\<newline>''"
definition OK :: bytes where "OK = ''OK\<newline>''"
definition ERR :: bytes where "ERR = ''ERR bad request\<newline>''"

text \<open>\<open>req\<close> is what one \<^verbatim>\<open>read\<close> of the accepted connection gave; \<open>None\<close>: \<^verbatim>\<open>accept\<close> failed.\<close>

definition handle_ctl_live :: "sup_cfg \<Rightarrow> u32 \<Rightarrow> bytes option \<Rightarrow> sup \<Rightarrow> sup" where
  "handle_ctl_live c live req s =
     (case req of None \<Rightarrow> s
      | Some b \<Rightarrow>
        if b = START then do_act (Reply OK) s
        else if b = STOP then
          (let s1 = (if 0 < sint live \<and> \<not> s_stop_requested s then
               let s2 = s\<lparr>s_stop_requested := True\<rparr> in
               if decide c False True False 0 s2 = NW_DECIDE_TERM_CHILD
               then do_act (SignalHouse live (c_stop_signal c)) s2 else s2
             else s)
           in do_act (Reply OK) s1)
        else do_act (Reply ERR) s)"

definition handle_ctl_idle :: "sup_cfg \<Rightarrow> bytes option \<Rightarrow> sup \<Rightarrow> sup" where
  "handle_ctl_idle c req s =
     (case req of None \<Rightarrow> goto Top s
      | Some b \<Rightarrow>
        if b = START then
          let d = decide c True False False 0 s; s1 = do_act (Reply OK) s in
          if d = NW_DECIDE_FORK then goto Top (s1\<lparr>s_stopped := False\<rparr>)
          else if d = NW_DECIDE_EXIT_SUP then sup_exit 0 s1
          else goto Top s1
        else if b = STOP then goto Top (do_act (Reply OK) s)
        else goto Top (do_act (Reply ERR) s))"

subsection \<open>The wait\<close>

text \<open>
  \<open>Ready req ended\<close>: the poll reported something; \<open>req\<close> is the request if the control socket was
  ready, \<open>ended\<close> the status if the house's end was reported or taken by \<^verbatim>\<open>WNOHANG\<close>. \<open>Timeout\<close>: its time
  ran out.
\<close>

datatype inp =
    Term
  | Go
  | PollEintr
  | PollFails
  | IdleReady "bytes option"
  | Opened "bytes res" u32
  | Tier bool bool
  | Ready "bytes option option" "wstatus option"
  | Timeout "wstatus option"
  | Dies wstatus
  | WaitFails
  | Autopsy "u64 option" "u64 option"

definition armed :: "sup_cfg \<Rightarrow> sup \<Rightarrow> bool" where
  "armed c s \<longleftrightarrow> c_grace_period c \<noteq> 0 \<and> (s_stopping s \<or> s_stop_requested s)"

definition wait_top :: "sup_cfg \<Rightarrow> u32 \<Rightarrow> tier \<Rightarrow> sup \<Rightarrow> sup" where
  "wait_top c p t s =
     (case t of
        ByWaitpid \<Rightarrow> goto (Reaping p) s
      | ByCycles \<Rightarrow>
          if armed c s then
            if c_grace_period c \<le> s_cycles s * 50 then goto (Reaping p) (do_act (SignalHouse p SIGKILL) s)
            else goto (Polling p t True) s
          else goto (Polling p t False) (s\<lparr>s_cycles := 0\<rparr>)
      | _ \<Rightarrow> goto (Polling p t (armed c s)) s)"

definition live_request :: "sup_cfg \<Rightarrow> u32 \<Rightarrow> bytes option option \<Rightarrow> sup \<Rightarrow> sup" where
  "live_request c p req s = (case req of None \<Rightarrow> s | Some r \<Rightarrow> handle_ctl_live c p r s)"

text \<open>One poll of each tier, without a deadline in force and with one.\<close>

definition polled :: "sup_cfg \<Rightarrow> u32 \<Rightarrow> tier \<Rightarrow> inp \<Rightarrow> sup \<Rightarrow> sup option" where
  "polled c p t i s =
     (case i of
        PollEintr \<Rightarrow> Some (goto (WaitTop p t) s)
      | PollFails \<Rightarrow> Some (sup_die ''poll house'' s)
      | Ready req ended \<Rightarrow> Some (
          case t of
            ByPidfd \<Rightarrow> goto (case ended of None \<Rightarrow> WaitTop p t | Some st \<Rightarrow> Reaping p) (live_request c p req s)
          | BySignalfd \<Rightarrow> goto (case ended of None \<Rightarrow> WaitTop p t | Some st \<Rightarrow> Returned p st) (live_request c p req s)
          | _ \<Rightarrow> (case ended of Some st \<Rightarrow> goto (Returned p st) s
                 | None \<Rightarrow> goto (WaitTop p t) (live_request c p req s)))
      | _ \<Rightarrow> None)"

definition polled_armed :: "u32 \<Rightarrow> tier \<Rightarrow> inp \<Rightarrow> sup \<Rightarrow> sup option" where
  "polled_armed p t i s =
     (case i of
        PollEintr \<Rightarrow> Some (goto (WaitTop p t) s)
      | PollFails \<Rightarrow> Some (sup_die ''poll house'' s)
      | Timeout ended \<Rightarrow> Some (
          if t = ByCycles then
            goto (case ended of Some st \<Rightarrow> Returned p st | None \<Rightarrow> WaitTop p t) (s\<lparr>s_cycles := s_cycles s + 1\<rparr>)
          else goto (Reaping p) (do_act (SignalHouse p SIGKILL) s))
      | Ready req ended \<Rightarrow> if t = ByCycles then None else Some (goto (Reaping p) s)
      | _ \<Rightarrow> None)"

subsection \<open>After a death\<close>

definition death_line :: "sup_cfg \<Rightarrow> nw_decision \<Rightarrow> wstatus \<Rightarrow> u32 \<Rightarrow> bytes" where
  "death_line c d st deaths =
     snprintf 96 ((if d = NW_DECIDE_SPENT then ''spent'' else ''restart'') @ '' '' @ c_name c @ '' death=''
       @ dec_int (sint deaths) @ ''/'' @ dec (unat (c_budget c))
       @ (if WIFEXITED st then '' exit='' @ dec (WEXITSTATUS st) else '' signal='' @ dec (WTERMSIG st)))"

text \<open>The autopsy read the counters; the sweep and the directory's removal come before the decision.\<close>

definition after_death :: "sup_cfg \<Rightarrow> wstatus \<Rightarrow> u64 option \<Rightarrow> u64 option \<Rightarrow> sup \<Rightarrow> sup" where
  "after_death c st oom pids s0 =
     (let s = do_act (SweepGroup (s_gen s0 - 1)) s0; d = decide c False True True st s in
      case d of
        NW_DECIDE_EXIT_SUP \<Rightarrow> sup_exit (if WIFEXITED st then WEXITSTATUS st else 0) s
      | NW_DECIDE_IDLE \<Rightarrow> goto Top (s\<lparr>s_stop_requested := False, s_stopped := True\<rparr>)
      | NW_DECIDE_SPENT \<Rightarrow>
          let s1 = s\<lparr>s_deaths := s_deaths s + 1\<rparr>;
              s2 = do_act (SayLine (death_line c d st (s_deaths s1))) (do_act (Evidence st (s_deaths s1) oom pids) s1)
          in sup_exit (if WIFEXITED st then WEXITSTATUS st else 71) s2
      | NW_DECIDE_RESTART \<Rightarrow>
          let s1 = s\<lparr>s_deaths := s_deaths s + 1\<rparr>;
              s2 = do_act (SayLine (death_line c d st (s_deaths s1))) (do_act (Evidence st (s_deaths s1) oom pids) s1)
          in goto Top s2
      | _ \<Rightarrow> sup_die ''decide: unexpected decision after a child exit'' s)"

subsection \<open>The machine\<close>

text \<open>
  While an armed wait is in progress \<^verbatim>\<open>ppoll\<close> has \<^verbatim>\<open>SIGTERM\<close> and \<^verbatim>\<open>SIGINT\<close> blocked, so the handler
  does not run there.
\<close>

definition may_term :: "pc \<Rightarrow> bool" where
  "may_term l = (case l of Polling p t a \<Rightarrow> \<not> a | Gone e \<Rightarrow> False | _ \<Rightarrow> True)"

definition loop_top :: "sup_cfg \<Rightarrow> sup \<Rightarrow> sup" where
  "loop_top c s =
     (if s_stopping s then
        if decide c False False False 0 s \<noteq> NW_DECIDE_EXIT_SUP
        then sup_die ''decide: unexpected decision while idle and stopping'' s
        else sup_exit 0 s
      else if s_stopped s then goto IdlePoll s else goto Opening s)"

text \<open>The group of this generation, then \<^verbatim>\<open>clone3\<close>; the child itself goes another way.\<close>

definition open_house :: "bytes res \<Rightarrow> u32 \<Rightarrow> sup \<Rightarrow> sup option" where
  "open_house r p s =
     (let s1 = s\<lparr>s_gen := s_gen s + 1\<rparr> in
      case r of
        Inl e \<Rightarrow> Some (sup_die e s1)
      | Inr dir \<Rightarrow>
          if sint p < 0 then Some (sup_die ''clone house'' s1)
          else if p = 0 then None
          else Some (goto (Cloned p) (do_act (ForkHouse (s_gen s) p) s1)))"

definition after_clone :: "sup_cfg \<Rightarrow> u32 \<Rightarrow> sup \<Rightarrow> sup" where
  "after_clone c p s =
     goto (WaitStart p)
       (if decide c False True False 0 s = NW_DECIDE_TERM_CHILD
        then do_act (SignalHouse p (c_stop_signal c)) s else s)"

definition sup_step :: "sup_cfg \<Rightarrow> inp \<Rightarrow> sup \<Rightarrow> sup option" where
  "sup_step c i s =
     (if i = Term then if may_term (s_pc s) then Some (on_term c s) else None
      else case s_pc s of
        Top \<Rightarrow> if i = Go then Some (loop_top c s) else None
      | IdlePoll \<Rightarrow>
          (case i of PollEintr \<Rightarrow> Some (goto Top s)
           | PollFails \<Rightarrow> Some (sup_die ''poll ctl'' s)
           | IdleReady req \<Rightarrow> Some (handle_ctl_idle c req s) | _ \<Rightarrow> None)
      | Opening \<Rightarrow> (case i of Opened r p \<Rightarrow> open_house r p s | _ \<Rightarrow> None)
      | Cloned p \<Rightarrow> if i = Go then Some (goto (Named p) (s\<lparr>s_child := p\<rparr>)) else None
      | Named p \<Rightarrow> if i = Go then Some (after_clone c p s) else None
      | WaitStart p \<Rightarrow>
          (case i of Tier pidfd_ok signalfd_ok \<Rightarrow>
             Some (goto (WaitTop p (wait_tier pidfd_ok signalfd_ok True)) (s\<lparr>s_cycles := 0\<rparr>))
           | _ \<Rightarrow> None)
      | WaitTop p t \<Rightarrow> if i = Go then Some (wait_top c p t s) else None
      | Polling p t a \<Rightarrow> if a then polled_armed p t i s else polled c p t i s
      | Reaping p \<Rightarrow>
          (case i of Dies st \<Rightarrow> Some (goto (Returned p st) s)
           | WaitFails \<Rightarrow> Some (sup_die ''wait house'' s) | _ \<Rightarrow> None)
      | Returned p st \<Rightarrow> if i = Go then Some (goto (Dead st) (s\<lparr>s_child := 0\<rparr>)) else None
      | Dead st \<Rightarrow> (case i of Autopsy oom pids \<Rightarrow> Some (after_death c st oom pids s) | _ \<Rightarrow> None)
      | Gone e \<Rightarrow> None)"

text \<open>The child's side of the fork is another program; see \<^verbatim>\<open>House\<close>.\<close>

inductive sup_trans :: "sup_cfg \<Rightarrow> sup \<Rightarrow> sup \<Rightarrow> bool" for c where
  sup_transI: "sup_step c i s = Some s' \<Longrightarrow> sup_trans c s s'"

inductive_cases sup_transE: "sup_trans c s s'"

definition sup_reach :: "sup_cfg \<Rightarrow> sup \<Rightarrow> bool" where
  "sup_reach c = reach (\<lambda>s. s = sup_start c) (sup_trans c)"

fun sup_run :: "sup_cfg \<Rightarrow> inp list \<Rightarrow> sup \<Rightarrow> sup option" where
  "sup_run c [] s = Some s"
| "sup_run c (i # is) s = (case sup_step c i s of None \<Rightarrow> None | Some s' \<Rightarrow> sup_run c is s')"

end
