(* ===== verification/SupProofs.thy ===== *)
theory SupProofs
  imports Supervisor
begin

text \<open>The supervisor's steps by cases, its invariants, and what they give.\<close>

subsection \<open>Steps\<close>

lemma goto_sel [simp]:
  "s_pc (goto l s) = l" "s_child (goto l s) = s_child s" "s_stopping (goto l s) = s_stopping s"
  "s_stop_requested (goto l s) = s_stop_requested s" "s_stopped (goto l s) = s_stopped s"
  "s_deaths (goto l s) = s_deaths s" "s_gen (goto l s) = s_gen s" "s_cycles (goto l s) = s_cycles s"
  "s_acts (goto l s) = s_acts s"
  by (simp_all add: goto_def)

lemma do_act_sel [simp]:
  "s_pc (do_act a s) = s_pc s" "s_child (do_act a s) = s_child s" "s_stopping (do_act a s) = s_stopping s"
  "s_stop_requested (do_act a s) = s_stop_requested s" "s_stopped (do_act a s) = s_stopped s"
  "s_deaths (do_act a s) = s_deaths s" "s_gen (do_act a s) = s_gen s" "s_cycles (do_act a s) = s_cycles s"
  "s_acts (do_act a s) = s_acts s @ [a]"
  by (simp_all add: do_act_def)

lemma sup_end_eq [simp]:
  "sup_die e s = goto (Gone (SupDie e)) s" "sup_exit n s = goto (Gone (SupExit n)) (do_act UnlinkSocket s)"
  by (simp_all add: sup_die_def sup_exit_def)

lemma decide_no_child_eq:
  "decide c start False ended st s =
     (if s_stopping s then NW_DECIDE_EXIT_SUP
      else if c_lock c \<or> start then NW_DECIDE_FORK else NW_DECIDE_IDLE)"
  by (simp add: decide_def decide_no_child)

lemma decide_live_child_eq:
  "decide c start True False st s =
     (if s_stopping s \<or> s_stop_requested s then NW_DECIDE_TERM_CHILD else NW_DECIDE_WAIT)"
  by (simp add: decide_def nw_decide_def)

lemma loop_top_eq:
  "loop_top c s = (if s_stopping s then sup_exit 0 s else if s_stopped s then goto IdlePoll s else goto Opening s)"
  by (simp add: loop_top_def decide_no_child_eq)

lemma live_request_cases:
  "live_request c p req s = s \<or> (\<exists>r. live_request c p req s = do_act (Reply r) s)
   \<or> 0 < sint p \<and> \<not> s_stop_requested s \<and> live_request c p req s = do_act (Reply OK)
       (do_act (SignalHouse p (c_stop_signal c)) (s\<lparr>s_stop_requested := True\<rparr>))"
proof (cases req)
  case None
  then show ?thesis by (simp add: live_request_def)
next
  case (Some r)
  then show ?thesis
    by (cases r) (auto simp: live_request_def handle_ctl_live_def decide_live_child_eq Let_def)
qed

lemma handle_ctl_idle_cases:
  "\<exists>s1. (s1 = s \<or> (\<exists>r. s1 = do_act (Reply r) s))
    \<and> (handle_ctl_idle c req s = goto Top s1
     \<or> handle_ctl_idle c req s = goto Top (s1\<lparr>s_stopped := False\<rparr>) \<and> \<not> s_stopping s
     \<or> handle_ctl_idle c req s = sup_exit 0 s1 \<and> s_stopping s)"
proof (cases req)
  case None
  then show ?thesis by (auto simp: handle_ctl_idle_def)
next
  case (Some b)
  have start: "handle_ctl_idle c (Some START) s =
      (if s_stopping s then sup_exit 0 (do_act (Reply OK) s) else goto Top (do_act (Reply OK) s\<lparr>s_stopped := False\<rparr>))"
    by (simp add: handle_ctl_idle_def decide_no_child_eq Let_def)
  show ?thesis
  proof (cases "b = START")
    case True
    then show ?thesis using start Some by (intro exI [of _ "do_act (Reply OK) s"]) auto
  next
    case False
    then have "\<exists>r. handle_ctl_idle c req s = goto Top (do_act (Reply r) s)"
      using Some by (auto simp: handle_ctl_idle_def)
    then show ?thesis by blast
  qed
qed

lemma decide_dead_eq:
  "decide c False True True st s =
     (if s_stopping s then NW_DECIDE_EXIT_SUP
      else if s_stop_requested s then NW_DECIDE_IDLE
      else if c_complete_on_0 c \<and> WIFEXITED st \<and> WEXITSTATUS st = 0 then NW_DECIDE_EXIT_SUP
      else if \<not> c_lock c then NW_DECIDE_IDLE
      else if sint (c_budget c) \<le> sint (s_deaths s) then NW_DECIDE_SPENT else NW_DECIDE_RESTART)"
  by (simp add: decide_def nw_decide_def)

text \<open>What a death leads to; \<open>s1\<close> is the state after the sweep, \<open>counted\<close> with one death more.\<close>

definition counted :: "wstatus \<Rightarrow> u64 option \<Rightarrow> u64 option \<Rightarrow> bytes \<Rightarrow> sup \<Rightarrow> sup" where
  "counted st oom pids line s = do_act (SayLine line)
     (do_act (Evidence st (s_deaths s + 1) oom pids) (s\<lparr>s_deaths := s_deaths s + 1\<rparr>))"

lemma counted_sel [simp]:
  "s_pc (counted st oom pids line s) = s_pc s" "s_child (counted st oom pids line s) = s_child s"
  "s_stopping (counted st oom pids line s) = s_stopping s"
  "s_stop_requested (counted st oom pids line s) = s_stop_requested s"
  "s_stopped (counted st oom pids line s) = s_stopped s" "s_gen (counted st oom pids line s) = s_gen s"
  "s_deaths (counted st oom pids line s) = s_deaths s + 1"
  "s_acts (counted st oom pids line s) = s_acts s @ [Evidence st (s_deaths s + 1) oom pids, SayLine line]"
  by (simp_all add: counted_def)

lemma after_death_cases:
  "\<exists>s1. s1 = do_act (SweepGroup (s_gen s - 1)) s
    \<and> ((\<exists>n. after_death c st oom pids s = sup_exit n s1)
     \<or> \<not> s_stopping s \<and> (s_stop_requested s \<or> \<not> c_lock c)
        \<and> after_death c st oom pids s = goto Top (s1\<lparr>s_stop_requested := False, s_stopped := True\<rparr>)
     \<or> \<not> s_stopping s \<and> \<not> s_stop_requested s \<and> c_lock c \<and> sint (c_budget c) \<le> sint (s_deaths s)
        \<and> (\<exists>n line. after_death c st oom pids s = sup_exit n (counted st oom pids line s1))
     \<or> \<not> s_stopping s \<and> \<not> s_stop_requested s \<and> c_lock c \<and> sint (s_deaths s) < sint (c_budget c)
        \<and> (\<exists>line. after_death c st oom pids s = goto Top (counted st oom pids line s1)))"
proof -
  let ?s1 = "do_act (SweepGroup (s_gen s - 1)) s"
  have d: "decide c False True True st ?s1 = decide c False True True st s" by (simp add: decide_dead_eq)
  show ?thesis
  proof (intro exI [of _ ?s1] conjI refl)
    show "(\<exists>n. after_death c st oom pids s = sup_exit n ?s1)
     \<or> \<not> s_stopping s \<and> (s_stop_requested s \<or> \<not> c_lock c)
        \<and> after_death c st oom pids s = goto Top (?s1\<lparr>s_stop_requested := False, s_stopped := True\<rparr>)
     \<or> \<not> s_stopping s \<and> \<not> s_stop_requested s \<and> c_lock c \<and> sint (c_budget c) \<le> sint (s_deaths s)
        \<and> (\<exists>n line. after_death c st oom pids s = sup_exit n (counted st oom pids line ?s1))
     \<or> \<not> s_stopping s \<and> \<not> s_stop_requested s \<and> c_lock c \<and> sint (s_deaths s) < sint (c_budget c)
        \<and> (\<exists>line. after_death c st oom pids s = goto Top (counted st oom pids line ?s1))"
      unfolding after_death_def Let_def d decide_dead_eq counted_def
      by (simp del: sup_end_eq) blast
  qed
qed

text \<open>
  A step that stays with the house \<open>p\<close>: only the place, the request flag, the cycle count and the
  trace change, and the trace by replies and signals to \<open>p\<close>.
\<close>

definition with_house :: "u32 \<Rightarrow> sup_act list \<Rightarrow> bool" where
  "with_house p as \<longleftrightarrow> (\<forall>a\<in>set as. (\<exists>r. a = Reply r) \<or> (\<exists>sg. a = SignalHouse p sg))"

definition stays :: "u32 \<Rightarrow> sup \<Rightarrow> sup \<Rightarrow> bool" where
  "stays p s s' \<longleftrightarrow> s_child s' = s_child s \<and> s_stopping s' = s_stopping s \<and> s_stopped s' = s_stopped s
     \<and> s_deaths s' = s_deaths s \<and> s_gen s' = s_gen s
     \<and> (\<exists>as. s_acts s' = s_acts s @ as \<and> with_house p as)"

lemma with_house_simps [simp]:
  "with_house p []" "with_house p (as @ bs) \<longleftrightarrow> with_house p as \<and> with_house p bs"
  "with_house p (Reply r # as) \<longleftrightarrow> with_house p as" "with_house p (SignalHouse q sg # as) \<longleftrightarrow> q = p \<and> with_house p as"
  by (auto simp: with_house_def)

lemma stays_simps [simp]:
  "stays p s (goto l s') \<longleftrightarrow> stays p s s'" "stays p s (do_act (Reply r) s)" "stays p s (do_act (SignalHouse p sg) s)"
  "stays p s s" "stays p s (s\<lparr>s_cycles := n\<rparr>)"
  by (auto simp: stays_def goto_def with_house_def)

lemma stays_trans: "stays p s s1 \<Longrightarrow> stays p s1 s2 \<Longrightarrow> stays p s s2"
  by (fastforce simp: stays_def)

lemma live_request_stays: "stays p s (live_request c p req s)"
  using live_request_cases [of c p req s] by (auto simp: stays_def with_house_def do_act_def)

definition waits :: "u32 \<Rightarrow> pc \<Rightarrow> bool" where
  "waits p l \<longleftrightarrow> (\<exists>t. l = WaitTop p t) \<or> (\<exists>t a. l = Polling p t a) \<or> l = Reaping p \<or> (\<exists>st. l = Returned p st)"

text \<open>Once the stop is on its way, the wait neither forgets it nor the flag it came by.\<close>

definition keeps_stop :: "sup_cfg \<Rightarrow> u32 \<Rightarrow> sup \<Rightarrow> sup \<Rightarrow> bool" where
  "keeps_stop c p s s' \<longleftrightarrow> (s_stop_requested s \<longrightarrow> s_stop_requested s')
     \<and> (s_stop_requested s' \<and> \<not> s_stop_requested s \<longrightarrow> 
          (\<exists>as. s_acts s' = s_acts s @ as \<and> SignalHouse p (c_stop_signal c) \<in> set as))"

lemma live_request_keeps: "keeps_stop c p s (live_request c p req s)"
  using live_request_cases [of c p req s] by (auto simp: keeps_stop_def do_act_def)

lemma sup_step_cases:
  assumes "sup_step c i s = Some s'"
  shows "may_term (s_pc s) \<and> i = Term \<and> s' = on_term c s
   \<or> s_pc s = Top \<and> i = Go \<and> s' = loop_top c s
   \<or> s_pc s = IdlePoll \<and> (s' = goto Top s \<or> (\<exists>e. s' = sup_die e s) \<or> (\<exists>req. s' = handle_ctl_idle c req s))
   \<or> s_pc s = Opening \<and> (\<exists>e. s' = sup_die e (s\<lparr>s_gen := s_gen s + 1\<rparr>))
   \<or> s_pc s = Opening \<and> (\<exists>p. 0 < sint p
        \<and> s' = goto (Cloned p) (do_act (ForkHouse (s_gen s) p) (s\<lparr>s_gen := s_gen s + 1\<rparr>)))
   \<or> (\<exists>p. s_pc s = Cloned p \<and> s' = goto (Named p) (s\<lparr>s_child := p\<rparr>))
   \<or> (\<exists>p. s_pc s = Named p \<and> s' = goto (WaitStart p)
        (if s_stopping s \<or> s_stop_requested s then do_act (SignalHouse p (c_stop_signal c)) s else s))
   \<or> (\<exists>p t. s_pc s = WaitStart p \<and> s' = goto (WaitTop p t) (s\<lparr>s_cycles := 0\<rparr>))
   \<or> (\<exists>p l. waits p (s_pc s) \<and> waits p l \<and> s_pc s' = l \<and> stays p s s' \<and> keeps_stop c p s s')
   \<or> (\<exists>p e. waits p (s_pc s) \<and> s' = sup_die e s)
   \<or> (\<exists>p st. s_pc s = Returned p st \<and> s' = goto (Dead st) (s\<lparr>s_child := 0\<rparr>))
   \<or> (\<exists>st oom pids. s_pc s = Dead st \<and> s' = after_death c st oom pids s)"
proof (cases "i = Term")
  case True
  then show ?thesis using assms by (simp add: sup_step_def split: if_splits)
next
  case no: False
  show ?thesis
  proof (cases "s_pc s")
    case Top
    then show ?thesis using assms no by (simp add: sup_step_def split: if_splits)
  next
    case IdlePoll
    then show ?thesis using assms no by (cases i) (auto simp: sup_step_def)
  next
    case Opening
    have "sint p = 0 \<longleftrightarrow> p = 0" for p :: u32 by (metis sint_0 signed_eq_0_iff)
    with Opening show ?thesis
      using assms no
      by (cases i) (auto simp: sup_step_def open_house_def Let_def not_less le_less split: sum.splits if_splits)
  next
    case (Cloned p)
    then show ?thesis using assms no by (simp add: sup_step_def split: if_splits)
  next
    case (Named p)
    then show ?thesis using assms no
      by (auto simp: sup_step_def after_clone_def decide_live_child_eq split: if_splits)
  next
    case (WaitStart p)
    then show ?thesis using assms no by (cases i) (auto simp: sup_step_def)
  next
    case (WaitTop p t)
    then have "s' = wait_top c p t s" using assms no by (simp add: sup_step_def split: if_splits)
    then have "waits p (s_pc s')" "stays p s s'" "keeps_stop c p s s'"
      by (auto simp: wait_top_def waits_def keeps_stop_def stays_def split: tier.splits)
    moreover have "waits p (s_pc s)" using WaitTop by (simp add: waits_def)
    ultimately show ?thesis by blast
  next
    case (Polling p t a)
    have w: "waits p (s_pc s)" using Polling by (simp add: waits_def)
    show ?thesis
    proof (cases a)
      case True
      then have step: "polled_armed p t i s = Some s'" using assms no Polling by (simp add: sup_step_def)
      then have "waits p (s_pc s') \<and> stays p s s' \<and> keeps_stop c p s s' \<or> (\<exists>e. s' = sup_die e s)"
        by (cases i) (auto simp: polled_armed_def waits_def keeps_stop_def stays_def split: if_splits option.splits)
      then show ?thesis using w by blast
    next
      case False
      then have step: "polled c p t i s = Some s'" using assms no Polling by (simp add: sup_step_def)
      have lr: "stays p s (live_request c p req s)" "keeps_stop c p s (live_request c p req s)" for req
        by (rule live_request_stays live_request_keeps)+
      have "waits p (s_pc s') \<and> stays p s s' \<and> keeps_stop c p s s' \<or> (\<exists>e. s' = sup_die e s)"
        using step lr
        by (cases i; cases t) (auto simp: polled_def waits_def keeps_stop_def split: option.splits)
      then show ?thesis using w by blast
    qed
  next
    case (Reaping p)
    then have "waits p (s_pc s)" by (simp add: waits_def)
    moreover have "waits p (s_pc s') \<and> stays p s s' \<and> keeps_stop c p s s' \<or> (\<exists>e. s' = sup_die e s)"
      using assms no Reaping by (cases i) (auto simp: sup_step_def waits_def keeps_stop_def)
    ultimately show ?thesis by blast
  next
    case (Returned p st)
    then show ?thesis using assms no by (auto simp: sup_step_def split: if_splits)
  next
    case (Dead st)
    then show ?thesis using assms no by (cases i) (auto simp: sup_step_def)
  next
    case (Gone e)
    then show ?thesis using assms no by (simp add: sup_step_def)
  qed
qed

subsection \<open>Invariants\<close>

definition forks :: "sup_act list \<Rightarrow> (u32 \<times> u32) list" where
  "forks as = [(g, p). ForkHouse g p \<leftarrow> as]"

definition sweeps :: "sup_act list \<Rightarrow> u32 list" where
  "sweeps as = [g. SweepGroup g \<leftarrow> as]"

definition evidences :: "sup_act list \<Rightarrow> u32 list" where
  "evidences as = [d. Evidence st d oom pids \<leftarrow> as]"

lemma trace_simps [simp]:
  "forks [] = []" "sweeps [] = []" "evidences [] = []"
  "forks (as @ bs) = forks as @ forks bs" "sweeps (as @ bs) = sweeps as @ sweeps bs"
  "evidences (as @ bs) = evidences as @ evidences bs"
  "forks (a # as) = (case a of ForkHouse g p \<Rightarrow> (g, p) # forks as | _ \<Rightarrow> forks as)"
  "sweeps (a # as) = (case a of SweepGroup g \<Rightarrow> g # sweeps as | _ \<Rightarrow> sweeps as)"
  "evidences (a # as) = (case a of Evidence st d oom pids \<Rightarrow> d # evidences as | _ \<Rightarrow> evidences as)"
  by (simp_all add: forks_def sweeps_def evidences_def split: sup_act.split)

lemma with_house_trace: "with_house p as \<Longrightarrow> forks as = [] \<and> sweeps as = [] \<and> evidences as = []"
  by (induction as) (auto simp: with_house_def)

text \<open>The places between a fork and the decision after the death.\<close>

definition house_of :: "pc \<Rightarrow> u32 option" where
  "house_of l = (case l of Cloned p \<Rightarrow> Some p | Named p \<Rightarrow> Some p | WaitStart p \<Rightarrow> Some p | WaitTop p t \<Rightarrow> Some p
     | Polling p t a \<Rightarrow> Some p | Reaping p \<Rightarrow> Some p | Returned p st \<Rightarrow> Some p | _ \<Rightarrow> None)"

definition named :: "pc \<Rightarrow> bool" where
  "named l \<longleftrightarrow> house_of l \<noteq> None \<and> (\<forall>p. l \<noteq> Cloned p)"

definition dead :: "pc \<Rightarrow> bool" where
  "dead l \<longleftrightarrow> (\<exists>st. l = Dead st)"

definition gone :: "pc \<Rightarrow> bool" where
  "gone l \<longleftrightarrow> (\<exists>e. l = Gone e)"

lemma pc_simps [simp]:
  "house_of Top = None" "house_of IdlePoll = None" "house_of Opening = None" "house_of (Cloned p) = Some p"
  "house_of (Named p) = Some p" "house_of (WaitStart p) = Some p" "house_of (WaitTop p t) = Some p"
  "house_of (Polling p t a) = Some p" "house_of (Reaping p) = Some p" "house_of (Returned p st) = Some p"
  "house_of (Dead st) = None" "house_of (Gone e) = None"
  "gone (Gone e)" "\<not> gone Top" "\<not> gone IdlePoll" "\<not> gone Opening" "\<not> gone (Cloned p)" "\<not> gone (Named p)"
  "\<not> gone (WaitStart p)" "\<not> gone (WaitTop p t)" "\<not> gone (Polling p t a)" "\<not> gone (Reaping p)"
  "\<not> gone (Returned p st)" "\<not> gone (Dead st)"
  "dead (Dead st)" "\<not> dead Top" "\<not> dead IdlePoll" "\<not> dead Opening" "\<not> dead (Cloned p)" "\<not> dead (Named p)"
  "\<not> dead (WaitStart p)" "\<not> dead (Gone e)" "\<not> dead (Returned p st)" 
  by (auto simp: house_of_def gone_def dead_def)

lemma named_simps [simp]:
  "\<not> named Top" "\<not> named IdlePoll" "\<not> named Opening" "\<not> named (Cloned p)" "named (Named p)"
  "named (WaitStart p)" "named (WaitTop p t)" "named (Polling p t a)" "named (Reaping p)"
  "named (Returned p st)" "\<not> named (Dead st)" "\<not> named (Gone e)"
  by (simp_all add: named_def)

lemma waits_simps [simp]:
  "waits p l \<Longrightarrow> house_of l = Some p" "waits p l \<Longrightarrow> named l" "waits p l \<Longrightarrow> \<not> gone l" "waits p l \<Longrightarrow> \<not> dead l"
  "waits p (WaitTop q t) \<longleftrightarrow> q = p" "waits p (Polling q t a) \<longleftrightarrow> q = p" "waits p (Reaping q) \<longleftrightarrow> q = p"
  "waits p (Returned q st) \<longleftrightarrow> q = p" "\<not> waits p Top" "\<not> waits p IdlePoll" "\<not> waits p Opening" "\<not> waits p (Cloned q)"
  "\<not> waits p (Named q)" "\<not> waits p (WaitStart q)" "\<not> waits p (Dead st)" "\<not> waits p (Gone e)"
  by (auto simp: waits_def dead_def)

definition pc_inv :: "sup \<Rightarrow> bool" where
  "pc_inv s \<longleftrightarrow>
     (\<not> gone (s_pc s) \<longrightarrow> s_child s = (if named (s_pc s) then the (house_of (s_pc s)) else 0))
     \<and> (\<forall>p. house_of (s_pc s) = Some p \<longrightarrow> 0 < sint p \<and> forks (s_acts s) \<noteq> [] \<and> snd (last (forks (s_acts s))) = p)
     \<and> (s_stop_requested s \<longrightarrow> (\<exists>p. waits p (s_pc s)) \<or> dead (s_pc s) \<or> gone (s_pc s))"

lemma on_term_eq:
  "on_term c s = (if 0 < sint (s_child s) then do_act (SignalHouse (s_child s) (c_stop_signal c)) (s\<lparr>s_stopping := True\<rparr>)
     else s\<lparr>s_stopping := True\<rparr>)"
  by (simp add: on_term_def Let_def)

lemma pc_inv_stays:
  assumes "pc_inv s" "waits p (s_pc s)" "waits p (s_pc s')" "stays p s s'"
  shows "pc_inv s'"
  using assms with_house_trace by (fastforce simp: pc_inv_def stays_def)

lemma pc_inv_step:
  assumes "pc_inv s" "sup_step c i s = Some s'"
  shows "pc_inv s'"
  using sup_step_cases [OF assms(2)]
proof (elim disjE exE conjE)
  assume "may_term (s_pc s)" "s' = on_term c s"
  then show ?thesis using assms(1) by (auto simp: pc_inv_def on_term_eq)
next
  assume "s_pc s = Top" "s' = loop_top c s"
  then show ?thesis using assms(1) by (auto simp: pc_inv_def loop_top_eq)
next
  fix req
  assume "s_pc s = IdlePoll" "s' = handle_ctl_idle c req s"
  then show ?thesis using assms(1) handle_ctl_idle_cases [of s c req] by (auto simp: pc_inv_def)
next
  fix st oom pids
  assume "s_pc s = Dead st" "s' = after_death c st oom pids s"
  then show ?thesis using assms(1) after_death_cases [of s c st oom pids] by (auto simp: pc_inv_def)
next
  fix p l
  assume "waits p (s_pc s)" "waits p l" "s_pc s' = l" "stays p s s'"
  then show ?thesis using pc_inv_stays [OF assms(1)] by blast
qed (use assms(1) in \<open>auto simp: pc_inv_def\<close>)

text \<open>Generations: forks and sweeps alternate, and each generation has its own number.\<close>

definition alive :: "pc \<Rightarrow> bool" where
  "alive l \<longleftrightarrow> house_of l \<noteq> None \<or> dead l"

definition numbered :: "u32 list \<Rightarrow> bool" where
  "numbered gs \<longleftrightarrow> gs = map of_nat [0..<length gs]"

lemma numbered_simps [simp]: "numbered []" "numbered (gs @ [g]) \<longleftrightarrow> numbered gs \<and> g = of_nat (length gs)"
  by (auto simp: numbered_def)

definition trace_inv :: "sup \<Rightarrow> bool" where
  "trace_inv s \<longleftrightarrow>
     (let f = forks (s_acts s); w = sweeps (s_acts s) in
       numbered (map fst f) \<and> numbered w \<and> length w \<le> length f \<and> length f \<le> Suc (length w)
       \<and> (\<not> gone (s_pc s) \<longrightarrow> s_gen s = of_nat (length f) \<and> length f = length w + (if alive (s_pc s) then 1 else 0)))"

lemma alive_simps [simp]:
  "\<not> alive Top" "\<not> alive IdlePoll" "\<not> alive Opening" "alive (Cloned p)" "alive (Named p)" "alive (WaitStart p)"
  "waits p l \<Longrightarrow> alive l" "alive (Dead st)" "alive (Returned p st)" "alive (WaitTop p t)"
  by (auto simp: alive_def)

lemma trace_inv_same:
  assumes "trace_inv s" "forks (s_acts s') = forks (s_acts s)" "sweeps (s_acts s') = sweeps (s_acts s)"
    and "s_gen s' = s_gen s" "alive (s_pc s') = alive (s_pc s)" "\<not> gone (s_pc s)"
  shows "trace_inv s'"
  using assms by (auto simp: trace_inv_def Let_def)

lemma trace_inv_step:
  assumes "trace_inv s" "sup_step c i s = Some s'"
  shows "trace_inv s'"
  using sup_step_cases [OF assms(2)]
proof (elim disjE exE conjE)
  assume "may_term (s_pc s)" "s' = on_term c s"
  then show ?thesis using assms(1) by (auto simp: trace_inv_def on_term_eq Let_def)
next
  assume "s_pc s = Top" "s' = loop_top c s"
  then show ?thesis using assms(1) by (auto simp: trace_inv_def loop_top_eq Let_def)
next
  fix req
  assume "s_pc s = IdlePoll" "s' = handle_ctl_idle c req s"
  then show ?thesis using assms(1) handle_ctl_idle_cases [of s c req] by (auto simp: trace_inv_def Let_def)
next
  fix st oom pids
  assume d: "s_pc s = Dead st" "s' = after_death c st oom pids s"
  then have "s_gen s - 1 = of_nat (length (sweeps (s_acts s)))"
    using assms(1) by (simp add: trace_inv_def Let_def)
  then show ?thesis
    using d assms(1) after_death_cases [of s c st oom pids] by (auto simp: trace_inv_def Let_def)
next
  fix p l
  assume w: "waits p (s_pc s)" "waits p l" "s_pc s' = l" "stays p s s'"
  then obtain as where "s_acts s' = s_acts s @ as" "with_house p as" "s_gen s' = s_gen s"
    by (auto simp: stays_def)
  with w with_house_trace [of p as] show ?thesis by (intro trace_inv_same [OF assms(1)]) auto
next
  fix p e
  assume "waits p (s_pc s)" "s' = sup_die e s"
  then show ?thesis using assms(1) by (auto simp: trace_inv_def Let_def)
qed (use assms(1) in \<open>auto simp: trace_inv_def Let_def\<close>)

text \<open>Deaths: the counter is the number of evidence records, and the budget bounds it.\<close>

definition budget_of :: "sup_cfg \<Rightarrow> nat" where
  "budget_of c = (if c_lock c then nat (sint (c_budget c)) else 0)"

definition death_inv :: "sup_cfg \<Rightarrow> sup \<Rightarrow> bool" where
  "death_inv c s \<longleftrightarrow>
     (let e = evidences (s_acts s); n = length e in
       e = map of_nat [1..<Suc n] \<and> s_deaths s = of_nat n
       \<and> n \<le> length (sweeps (s_acts s))
       \<and> (\<not> gone (s_pc s) \<longrightarrow> n \<le> budget_of c) \<and> n \<le> Suc (budget_of c) \<and> (\<not> c_lock c \<longrightarrow> n = 0))"

lemma sint_deaths:
  assumes "n \<le> budget_of c"
  shows "sint (of_nat n :: u32) = int n"
proof -
  have "sint (c_budget c) < 2 ^ 31" using sint_lt [of "c_budget c"] by simp
  then have "n < 2 ^ 31" using assms by (auto simp: budget_of_def split: if_splits)
  then show ?thesis by (rule sint_small)
qed

lemma death_inv_same:
  assumes "death_inv c s" "evidences (s_acts s') = evidences (s_acts s)" "s_deaths s' = s_deaths s"
    and "\<not> gone (s_pc s)" "length (sweeps (s_acts s)) \<le> length (sweeps (s_acts s'))"
  shows "death_inv c s'"
  using assms by (auto simp: death_inv_def Let_def)

lemma death_inv_step:
  assumes "death_inv c s" "sup_step c i s = Some s'"
  shows "death_inv c s'"
  using sup_step_cases [OF assms(2)]
proof (elim disjE exE conjE)
  assume "may_term (s_pc s)" "s' = on_term c s"
  then show ?thesis
    using assms(1) by (intro death_inv_same [OF assms(1)]) (auto simp: on_term_eq may_term_def gone_def)
next
  assume "s_pc s = Top" "s' = loop_top c s"
  then show ?thesis using assms(1) by (intro death_inv_same [OF assms(1)]) (auto simp: loop_top_eq)
next
  fix req
  assume "s_pc s = IdlePoll" "s' = handle_ctl_idle c req s"
  then show ?thesis
    using handle_ctl_idle_cases [of s c req] by (intro death_inv_same [OF assms(1)]) auto
next
  fix st oom pids
  assume d: "s_pc s = Dead st" "s' = after_death c st oom pids s"
  let ?n = "length (evidences (s_acts s))"
  have inv: "?n \<le> budget_of c" "s_deaths s = of_nat ?n" "evidences (s_acts s) = map of_nat [1..<Suc ?n]"
    "?n \<le> length (sweeps (s_acts s))" "\<not> c_lock c \<longrightarrow> ?n = 0"
    using assms(1) d(1) by (simp_all add: death_inv_def Let_def del: upt_Suc)
  have n: "sint (s_deaths s) = int ?n" unfolding inv(2) by (rule sint_deaths [OF inv(1)])
  consider "\<exists>as. s_acts s' = s_acts s @ SweepGroup (s_gen s - 1) # as \<and> evidences as = [] \<and> sweeps as = []" "s_deaths s' = s_deaths s"
    | "c_lock c" "s_deaths s' = s_deaths s + 1" "sint (s_deaths s) < sint (c_budget c) \<or> gone (s_pc s')"
      "\<exists>as. s_acts s' = s_acts s @ SweepGroup (s_gen s - 1) # as \<and> evidences as = [s_deaths s + 1] \<and> sweeps as = []"
    using after_death_cases [of s c st oom pids] unfolding d(2) by fastforce
  then show ?thesis
  proof cases
    case 1
    then obtain as where "s_acts s' = s_acts s @ SweepGroup (s_gen s - 1) # as" "evidences as = []" "sweeps as = []" by blast
    then show ?thesis using 1 d by (intro death_inv_same [OF assms(1)]) auto
  next
    case 2
    then obtain as where as: "s_acts s' = s_acts s @ SweepGroup (s_gen s - 1) # as" "evidences as = [s_deaths s + 1]"
      "sweeps as = []" by blast
    have "evidences (s_acts s') = map of_nat [1..<Suc (Suc ?n)]"
      using as inv(2,3) by simp
    moreover have "\<not> gone (s_pc s') \<longrightarrow> Suc ?n \<le> budget_of c"
      using 2 n by (auto simp: budget_of_def)
    ultimately show ?thesis
      using as inv 2 by (simp add: death_inv_def Let_def del: upt_Suc)
  qed
next
  fix p l
  assume w: "waits p (s_pc s)" "waits p l" "s_pc s' = l" "stays p s s'"
  then obtain as where "s_acts s' = s_acts s @ as" "with_house p as" "s_deaths s' = s_deaths s"
    by (auto simp: stays_def)
  with w with_house_trace [of p as] show ?thesis by (intro death_inv_same [OF assms(1)]) auto
next
  fix p e
  assume "waits p (s_pc s)" "s' = sup_die e s"
  then show ?thesis by (intro death_inv_same [OF assms(1)]) auto
qed (intro death_inv_same [OF assms(1)]; simp)+

end
