(* ===== verification/SupSpec.thy ===== *)
theory SupSpec
  imports SupProofs
begin

text \<open>
  What the supervisor promises: the budget is a hard total, a stop reaches the house it is for and no
  other process, a shutdown ends within the declared grace period; and the house's life as an abstract
  machine that the supervisor refines.
\<close>

subsection \<open>Signals\<close>

definition forked_last :: "u32 \<Rightarrow> sup_act list \<Rightarrow> bool" where
  "forked_last p as \<longleftrightarrow> forks as \<noteq> [] \<and> snd (last (forks as)) = p"

text \<open>A signal goes to the house forked last, and before that generation is swept.\<close>

definition signals_own :: "sup_act list \<Rightarrow> bool" where
  "signals_own as \<longleftrightarrow> (\<forall>xs p sg ys. as = xs @ SignalHouse p sg # ys \<longrightarrow>
     forked_last p xs \<and> length (sweeps xs) < length (forks xs))"

lemma signals_own_Nil [simp]: "signals_own []"
  by (simp add: signals_own_def)

lemma signals_own_snoc:
  "signals_own (as @ [a]) \<longleftrightarrow> signals_own as
     \<and> (\<forall>p sg. a = SignalHouse p sg \<longrightarrow> forked_last p as \<and> length (sweeps as) < length (forks as))"
proof
  assume own: "signals_own (as @ [a])"
  have "signals_own as"
    unfolding signals_own_def
  proof (intro allI impI)
    fix xs p sg ys
    assume "as = xs @ SignalHouse p sg # ys"
    then have "as @ [a] = xs @ SignalHouse p sg # (ys @ [a])" by simp
    then show "forked_last p xs \<and> length (sweeps xs) < length (forks xs)"
      using own unfolding signals_own_def by blast
  qed
  moreover have "\<forall>p sg. a = SignalHouse p sg \<longrightarrow> forked_last p as \<and> length (sweeps as) < length (forks as)"
    using own unfolding signals_own_def by blast
  ultimately show "signals_own as \<and> (\<forall>p sg. a = SignalHouse p sg \<longrightarrow>
      forked_last p as \<and> length (sweeps as) < length (forks as))" ..
next
  assume a: "signals_own as \<and> (\<forall>p sg. a = SignalHouse p sg \<longrightarrow>
      forked_last p as \<and> length (sweeps as) < length (forks as))"
  show "signals_own (as @ [a])"
    unfolding signals_own_def
  proof (intro allI impI)
    fix xs p sg ys
    assume e: "as @ [a] = xs @ SignalHouse p sg # ys"
    show "forked_last p xs \<and> length (sweeps xs) < length (forks xs)"
    proof (cases ys rule: rev_cases)
      case Nil
      then show ?thesis using e a by simp
    next
      case (snoc zs z)
      then have "as = xs @ SignalHouse p sg # zs" using e by simp
      then show ?thesis using a unfolding signals_own_def by blast
    qed
  qed
qed

lemma signals_own_with_house:
  assumes "signals_own as" "with_house p bs" "forked_last p as" "length (sweeps as) < length (forks as)"
  shows "signals_own (as @ bs)"
  using assms(2)
proof (induction bs rule: rev_induct)
  case Nil
  then show ?case using assms(1) by simp
next
  case (snoc b bs)
  then have "forks bs = []" "sweeps bs = []" using with_house_trace by auto
  with snoc assms(3,4) show ?case
    unfolding append_assoc [symmetric] signals_own_snoc
    by (auto simp: forked_last_def)
qed

lemma signals_own_plain:
  "signals_own as \<Longrightarrow> \<forall>b\<in>set bs. \<forall>p sg. b \<noteq> SignalHouse p sg \<Longrightarrow> signals_own (as @ bs)"
proof (induction bs rule: rev_induct)
  case Nil
  then show ?case by simp
next
  case (snoc b bs)
  then show ?case unfolding append_assoc [symmetric] signals_own_snoc by auto
qed

text \<open>The stop signal since the house was forked.\<close>

definition told :: "sup_cfg \<Rightarrow> u32 \<Rightarrow> sup_act list \<Rightarrow> bool" where
  "told c p as \<longleftrightarrow> (\<exists>xs g ys. as = xs @ ForkHouse g p # ys \<and> forks ys = [] \<and> SignalHouse p (c_stop_signal c) \<in> set ys)"

lemma last_fork:
  "forked_last p as \<Longrightarrow> \<exists>xs g ys. as = xs @ ForkHouse g p # ys \<and> forks ys = []"
proof (induction as rule: rev_induct)
  case Nil
  then show ?case by (simp add: forked_last_def)
next
  case (snoc a as)
  show ?case
  proof (cases "\<exists>g q. a = ForkHouse g q")
    case True
    then show ?thesis using snoc.prems by (intro exI [of _ as]) (auto simp: forked_last_def)
  next
    case False
    then have f: "forks [a] = []" by (auto split: sup_act.split)
    then have "forked_last p as" using snoc.prems by (simp add: forked_last_def)
    then obtain xs g ys where "as = xs @ ForkHouse g p # ys" "forks ys = []" using snoc.IH by blast
    then show ?thesis using f by (intro exI [of _ xs] exI [of _ g] exI [of _ "ys @ [a]"]) simp
  qed
qed

lemma told_append: "told c p as \<Longrightarrow> forks bs = [] \<Longrightarrow> told c p (as @ bs)"
  unfolding told_def by fastforce

lemma tell: "forked_last p as \<Longrightarrow> forks bs = [] \<Longrightarrow> SignalHouse p (c_stop_signal c) \<in> set bs \<Longrightarrow> told c p (as @ bs)"
  using last_fork [of p as] unfolding told_def by fastforce

definition listens :: "u32 \<Rightarrow> pc \<Rightarrow> bool" where
  "listens p l \<longleftrightarrow> l = WaitStart p \<or> waits p l"

definition signal_inv :: "sup_cfg \<Rightarrow> sup \<Rightarrow> bool" where
  "signal_inv c s \<longleftrightarrow> signals_own (s_acts s)
     \<and> (\<forall>p. listens p (s_pc s) \<and> (s_stopping s \<or> s_stop_requested s) \<longrightarrow> told c p (s_acts s))"

lemma listens_simps [simp]:
  "\<not> listens p Top" "\<not> listens p IdlePoll" "\<not> listens p Opening" "\<not> listens p (Cloned q)" "\<not> listens p (Named q)"
  "\<not> listens p (Dead st)" "\<not> listens p (Gone e)" "listens p (WaitStart q) \<longleftrightarrow> q = p"
  "listens p (WaitTop q t) \<longleftrightarrow> q = p" "listens p (Polling q t a) \<longleftrightarrow> q = p" "listens p (Reaping q) \<longleftrightarrow> q = p"
  "listens p (Returned q st) \<longleftrightarrow> q = p" "waits p l \<Longrightarrow> listens q l \<longleftrightarrow> q = p"
  by (auto simp: listens_def waits_def)

lemma house_forked:
  assumes "pc_inv s" "trace_inv s" "house_of (s_pc s) = Some p"
  shows "forked_last p (s_acts s)" "length (sweeps (s_acts s)) < length (forks (s_acts s))"
proof -
  show "forked_last p (s_acts s)" using assms(1,3) by (simp add: pc_inv_def forked_last_def)
  have "\<not> gone (s_pc s)" "alive (s_pc s)" using assms(3) by (auto simp: gone_def alive_def)
  then show "length (sweeps (s_acts s)) < length (forks (s_acts s))"
    using assms(2) by (simp add: trace_inv_def Let_def)
qed

lemma signal_inv_idle:
  assumes "signal_inv c s" "s_acts s' = s_acts s @ bs" "\<forall>b\<in>set bs. \<forall>p sg. b \<noteq> SignalHouse p sg"
    and "\<And>p. \<not> listens p (s_pc s')"
  shows "signal_inv c s'"
  using assms signals_own_plain by (auto simp: signal_inv_def)

lemma signal_inv_step:
  assumes "signal_inv c s" "pc_inv s" "trace_inv s" "sup_step c i s = Some s'"
  shows "signal_inv c s'"
  using sup_step_cases [OF assms(4)]
proof (elim disjE exE conjE)
  assume t: "may_term (s_pc s)" "s' = on_term c s"
  show ?thesis
  proof (cases "named (s_pc s)")
    case True
    then obtain p where p: "house_of (s_pc s) = Some p" by (auto simp: named_def)
    have "\<not> gone (s_pc s)" using t(1) by (auto simp: may_term_def gone_def)
    then have ch: "s_child s = p" "0 < sint p" using assms(2) True p by (auto simp: pc_inv_def)
    note f = house_forked [OF assms(2,3) p]
    have "told c p (s_acts s @ [SignalHouse p (c_stop_signal c)])" by (rule tell [OF f(1)]) simp_all
    moreover have "q = p" if "listens q (s_pc s)" for q using that p by (auto simp: listens_def)
    ultimately show ?thesis
      using assms(1) f ch t(2) by (auto simp: signal_inv_def on_term_eq signals_own_snoc)
  next
    case False
    have "\<not> gone (s_pc s)" using t(1) by (auto simp: may_term_def gone_def)
    then have "s_child s = 0" using False assms(2) by (simp add: pc_inv_def)
    moreover have "\<not> listens q (s_pc s)" for q using False by (auto simp: listens_def)
    ultimately show ?thesis using assms(1) t(2) by (auto simp: signal_inv_def on_term_eq)
  qed
next
  assume t: "s_pc s = Top" "s' = loop_top c s"
  then show ?thesis by (intro signal_inv_idle [OF assms(1), of s' "drop (length (s_acts s)) (s_acts s')"])
      (auto simp: loop_top_eq)
next
  fix req
  assume "s_pc s = IdlePoll" "s' = handle_ctl_idle c req s"
  then have "\<exists>bs. s_acts s' = s_acts s @ bs \<and> (\<forall>b\<in>set bs. \<forall>p sg. b \<noteq> SignalHouse p sg) \<and> (\<forall>p. \<not> listens p (s_pc s'))"
    using handle_ctl_idle_cases [of s c req] by auto
  then show ?thesis using signal_inv_idle [OF assms(1)] by blast
next
  fix st oom pids
  assume "s_pc s = Dead st" "s' = after_death c st oom pids s"
  then have "\<exists>bs. s_acts s' = s_acts s @ bs \<and> (\<forall>b\<in>set bs. \<forall>p sg. b \<noteq> SignalHouse p sg) \<and> (\<forall>p. \<not> listens p (s_pc s'))"
    using after_death_cases [of s c st oom pids] by auto
  then show ?thesis using signal_inv_idle [OF assms(1)] by blast
next
  fix p
  assume n: "s_pc s = Named p" "s' = goto (WaitStart p)
      (if s_stopping s \<or> s_stop_requested s then do_act (SignalHouse p (c_stop_signal c)) s else s)"
  then have f: "forked_last p (s_acts s)" "length (sweeps (s_acts s)) < length (forks (s_acts s))"
    using house_forked [OF assms(2,3)] by simp_all
  have "told c p (s_acts s @ [SignalHouse p (c_stop_signal c)])" by (rule tell [OF f(1)]) simp_all
  then show ?thesis using assms(1) n f by (auto simp: signal_inv_def signals_own_snoc)
next
  fix p l
  assume w: "waits p (s_pc s)" "waits p l" "s_pc s' = l" "stays p s s'" "keeps_stop c p s s'"
  obtain as where as: "s_acts s' = s_acts s @ as" "with_house p as" "s_stopping s' = s_stopping s"
    using w(4) by (auto simp: stays_def)
  have "house_of (s_pc s) = Some p" using w(1) by simp
  note f = house_forked [OF assms(2,3) this]
  have own: "signals_own (s_acts s')"
    unfolding as(1) using assms(1) as(2) f by (intro signals_own_with_house) (auto simp: signal_inv_def)
  have "told c p (s_acts s')" if "s_stopping s' \<or> s_stop_requested s'"
  proof (cases "s_stopping s \<or> s_stop_requested s")
    case True
    then have "told c p (s_acts s)" using assms(1) w(1) by (auto simp: signal_inv_def)
    then show ?thesis unfolding as(1) using with_house_trace [OF as(2)] by (intro told_append) simp_all
  next
    case False
    then have "SignalHouse p (c_stop_signal c) \<in> set as"
      using that w(5) as by (auto simp: keeps_stop_def)
    then show ?thesis unfolding as(1) using with_house_trace [OF as(2)] by (intro tell [OF f(1)]) simp_all
  qed
  then show ?thesis using own w(2,3) by (auto simp: signal_inv_def)
next
  fix p g
  assume "s_pc s = Opening" "s' = goto (Cloned g) (do_act (ForkHouse (s_gen s) g) (s\<lparr>s_gen := s_gen s + 1\<rparr>))"
  then show ?thesis by (intro signal_inv_idle [OF assms(1)]) auto
next
  fix p e
  assume "waits p (s_pc s)" "s' = sup_die e s"
  then show ?thesis by (intro signal_inv_idle [OF assms(1), of s' "[]"]) auto
qed (use assms(1) in \<open>auto simp: signal_inv_def\<close>)

subsection \<open>The invariant of the machine\<close>

definition sup_inv :: "sup_cfg \<Rightarrow> sup \<Rightarrow> bool" where
  "sup_inv c s \<longleftrightarrow> pc_inv s \<and> trace_inv s \<and> death_inv c s \<and> signal_inv c s"

lemma sup_inv_start: "sup_inv c (sup_start c)"
  by (simp add: sup_inv_def pc_inv_def trace_inv_def death_inv_def signal_inv_def sup_start_def)

interpretation sup_machine: invariant "\<lambda>s. s = sup_start c" "sup_trans c" "sup_inv c" for c
  by unfold_locales
    (auto simp: sup_inv_start, auto simp: sup_inv_def elim!: sup_transE
      intro: pc_inv_step trace_inv_step death_inv_step signal_inv_step)

lemma sup_reach_inv: "sup_reach c s \<Longrightarrow> sup_inv c s"
  unfolding sup_reach_def by (rule sup_machine.holds)

lemma sup_reach_run:
  "sup_reach c s \<Longrightarrow> sup_run c is s = Some s' \<Longrightarrow> sup_reach c s'"
proof (induction "is" arbitrary: s)
  case Nil
  then show ?case by simp
next
  case (Cons i "is")
  then obtain s1 where "sup_step c i s = Some s1" "sup_run c is s1 = Some s'" by (auto split: option.splits)
  moreover from this(1) have "sup_reach c s1"
    using Cons.prems(1) unfolding sup_reach_def by (blast intro: reach.reach_step sup_transI)
  ultimately show ?case using Cons.IH by blast
qed

lemma sup_reach_start: "sup_reach c (sup_start c)"
  unfolding sup_reach_def by (rule reach.reach_init) (rule refl)

subsection \<open>The abstract life of a house\<close>

text \<open>
  A house rests, runs or is over; the machine counts generations and deaths. A death that counts starts
  the next run or, when the budget is used up, ends the supervision.
\<close>

datatype phase = Resting | Running | Over

text \<open>In one generation a house runs, then rests, then is over.\<close>

instantiation phase :: linorder
begin

fun less_eq_phase :: "phase \<Rightarrow> phase \<Rightarrow> bool" where
  "less_eq_phase Running y \<longleftrightarrow> True"
| "less_eq_phase Resting y \<longleftrightarrow> y \<noteq> Running"
| "less_eq_phase Over y \<longleftrightarrow> y = Over"

definition less_phase :: "phase \<Rightarrow> phase \<Rightarrow> bool" where
  "less_phase x y \<longleftrightarrow> x \<le> y \<and> \<not> y \<le> x"

instance
proof
  fix x y z :: phase
  show "(x < y) = (x \<le> y \<and> \<not> y \<le> x)" by (rule less_phase_def)
  show "x \<le> x" by (cases x) simp_all
  show "x \<le> y \<Longrightarrow> y \<le> z \<Longrightarrow> x \<le> z" by (cases x; cases y; cases z) simp_all
  show "x \<le> y \<Longrightarrow> y \<le> x \<Longrightarrow> x = y" by (cases x; cases y) simp_all
  show "x \<le> y \<or> y \<le> x" by (cases x; cases y) simp_all
qed

end

type_synonym life = "phase \<times> nat \<times> nat"

inductive life_step :: "sup_cfg \<Rightarrow> life \<Rightarrow> life \<Rightarrow> bool" for c where
  born: "life_step c (Resting, g, d) (Running, Suc g, d)"
| stopped: "life_step c (Running, g, d) (Resting, g, d)"
| restarted: "c_lock c \<Longrightarrow> d < budget_of c \<Longrightarrow> life_step c (Running, g, d) (Resting, g, Suc d)"
| spent: "c_lock c \<Longrightarrow> d = budget_of c \<Longrightarrow> life_step c (Running, g, d) (Over, g, Suc d)"
| over: "x \<noteq> Over \<Longrightarrow> life_step c (x, g, d) (Over, g, d)"

inductive_simps life_step_over [simp]: "life_step c (Over, g, d) a"
inductive_simps life_step_resting: "life_step c (Resting, g, d) a"
inductive_simps life_step_running: "life_step c (Running, g, d) a"

lemmas life_steps = life_step_resting life_step_running

text \<open>Every step leads on: to a later generation, or within one to a later phase. No life comes twice.\<close>

definition later :: "life \<Rightarrow> life \<Rightarrow> bool" where
  "later a b \<longleftrightarrow> (case (a, b) of ((x, g, d), (y, h, e)) \<Rightarrow> d \<le> e \<and> (g < h \<or> g = h \<and> x < y))"

lemma le_Over [simp]: "x \<le> Over"
  by (cases x) simp_all

lemma life_step_later: "life_step c a b \<Longrightarrow> later a b"
  by (induction rule: life_step.induct) (auto simp: later_def less_phase_def)

lemma later_trans: "later a b \<Longrightarrow> later b e \<Longrightarrow> later a e"
  by (auto simp: later_def)

lemma life_never_returns: "(life_step c)\<^sup>+\<^sup>+ a b \<Longrightarrow> later a b \<and> a \<noteq> b"
proof (induction rule: tranclp_induct)
  case (base b)
  then show ?case by (auto dest: life_step_later simp: later_def)
next
  case (step b e)
  then show ?case using later_trans [of a b e] life_step_later [of c b e] by (auto simp: later_def)
qed

definition life_view :: "sup \<Rightarrow> life" where
  "life_view s = (if gone (s_pc s) then Over else if alive (s_pc s) then Running else Resting,
     length (forks (s_acts s)), length (evidences (s_acts s)))"

lemma life_view_same:
  "gone (s_pc s') = gone (s_pc s) \<Longrightarrow> alive (s_pc s') = alive (s_pc s) \<Longrightarrow> s_acts s' = s_acts s @ as \<Longrightarrow>
     forks as = [] \<Longrightarrow> evidences as = [] \<Longrightarrow> life_view s' = life_view s"
  by (simp add: life_view_def)

lemma life_view_over:
  "\<not> gone (s_pc s) \<Longrightarrow> gone (s_pc s') \<Longrightarrow> s_acts s' = s_acts s @ as \<Longrightarrow> forks as = [] \<Longrightarrow> evidences as = [] \<Longrightarrow>
     life_step c (life_view s) (life_view s')"
  by (simp add: life_view_def life_step.over)

lemma life_view_step:
  assumes "sup_inv c s" "sup_step c i s = Some s'"
  shows "life_view s' = life_view s \<or> life_step c (life_view s) (life_view s')"
  using sup_step_cases [OF assms(2)]
proof (elim disjE exE conjE)
  assume t: "may_term (s_pc s)" "s' = on_term c s"
  then show ?thesis by (auto simp: on_term_eq life_view_def)
next
  assume "s_pc s = Top" "s' = loop_top c s"
  then show ?thesis by (auto simp: loop_top_eq life_view_def intro: life_step.over)
next
  fix req
  assume "s_pc s = IdlePoll" "s' = handle_ctl_idle c req s"
  then show ?thesis using handle_ctl_idle_cases [of s c req] by (auto simp: life_view_def intro: life_step.over)
next
  fix st oom pids
  assume d: "s_pc s = Dead st" "s' = after_death c st oom pids s"
  let ?n = "length (evidences (s_acts s))"
  have inv: "?n \<le> budget_of c" "s_deaths s = of_nat ?n"
    using assms(1) d(1) by (simp_all add: sup_inv_def death_inv_def Let_def)
  have "sint (s_deaths s) = int ?n" unfolding inv(2) by (rule sint_deaths [OF inv(1)])
  then have "?n = budget_of c" if "c_lock c" "sint (c_budget c) \<le> sint (s_deaths s)"
    using that inv(1) by (simp add: budget_of_def)
  moreover have "?n < budget_of c" if "c_lock c" "sint (s_deaths s) < sint (c_budget c)"
    using that \<open>sint (s_deaths s) = int ?n\<close> by (simp add: budget_of_def)
  ultimately show ?thesis
    using d after_death_cases [of s c st oom pids] by (auto simp: life_view_def intro: life_step.intros)
next
  fix p l
  assume w: "waits p (s_pc s)" "waits p l" "s_pc s' = l" "stays p s s'"
  then obtain as where "s_acts s' = s_acts s @ as" "with_house p as" by (auto simp: stays_def)
  with w with_house_trace [of p as] show ?thesis by (intro disjI1 life_view_same) auto
next
  fix p e
  assume "waits p (s_pc s)" "s' = sup_die e s"
  then show ?thesis by (intro disjI2 life_view_over [where as = "[]"]) auto
qed (auto simp: life_view_def intro: life_step.intros)

definition life_start :: "life \<Rightarrow> bool" where
  "life_start a \<longleftrightarrow> a = (Resting, 0, 0)"

interpretation house_life: simulation "\<lambda>s. s = sup_start c" "sup_trans c" life_start "life_step c" life_view for c
proof unfold_locales
  show "s = sup_start c \<Longrightarrow> life_start (life_view s)" for s
    by (simp add: life_view_def life_start_def sup_start_def)
  show "reach (\<lambda>s. s = sup_start c) (sup_trans c) s \<Longrightarrow> sup_trans c s s' \<Longrightarrow>
      life_view s' = life_view s \<or> life_step c (life_view s) (life_view s')" for s s'
    using sup_machine.holds life_view_step by (fastforce elim: sup_transE)
qed

interpretation life_bounds: invariant life_start "life_step c"
  "\<lambda>(x, g, d). d \<le> g \<and> (if x = Running then d < g else True) \<and> d \<le> budget_of c + (if x = Over then 1 else 0)" for c
  by unfold_locales (auto simp: life_start_def elim!: life_step.cases)

end
