(* ===== verification/SupProps.thy ===== *)
theory SupProps
  imports SupSpec Cgroup
begin

text \<open>The properties of the supervisor, with runs of it as witnesses.\<close>

subsection \<open>Runs\<close>

text \<open>A locked unit with a budget of one, a stop signal and a grace period; and an unlocked one.\<close>

definition demo_sup :: sup_cfg where
  "demo_sup = demo_cfg\<lparr>c_budget := 1, c_grace_period := 1500\<rparr>"

definition idle_sup :: sup_cfg where
  "idle_sup = demo_sup\<lparr>c_lock := False\<rparr>"

definition fork_to_wait :: "u32 \<Rightarrow> inp list" where
  "fork_to_wait p = [Go, Opened (Inr []) p, Go, Go, Tier True True, Go]"

definition crash :: "inp list" where
  "crash = [Ready None (Some 11), Dies 11, Go, Autopsy (Some 0) None]"

lemma demo_sup_sel [simp]:
  "c_budget demo_sup = 1" "c_grace_period demo_sup = 1500" "c_lock demo_sup" "c_stop_signal demo_sup = 15"
  "\<not> c_complete_on_0 demo_sup" "\<not> c_lock idle_sup" "c_grace_period idle_sup = 1500" "c_stop_signal idle_sup = 15"
  by (simp_all add: demo_sup_def idle_sup_def demo_cfg_def)

lemma spent_run:
  "map_option (\<lambda>s. (evidences (s_acts s), s_pc s, map snd (forks (s_acts s))))
     (sup_run demo_sup (fork_to_wait 21 @ crash @ fork_to_wait 22 @ crash) (sup_start demo_sup))
   = Some ([1, 2], Gone (SupExit 71), [21, 22])"
  by code_simp

text \<open>\<^verbatim>\<open>SIGTERM\<close> comes after \<^verbatim>\<open>clone3\<close> returned and before \<open>child = p\<close>: the handler has nobody to signal.\<close>

definition early_term :: "inp list" where
  "early_term = [Go, Opened (Inr []) 21, Term, Go, Go, Tier True True]"

lemma early_term_run:
  "map_option (\<lambda>s. (s_acts s, s_pc s)) (sup_run demo_sup early_term (sup_start demo_sup))
   = Some ([ForkHouse 0 21, SignalHouse 21 15], WaitTop 21 ByPidfd)"
  by code_simp

lemma run_reaches:
  "map_option f (sup_run c is (sup_start c)) = Some y \<Longrightarrow>
     \<exists>s. sup_run c is (sup_start c) = Some s \<and> sup_reach c s \<and> f s = y"
  using sup_reach_run [OF sup_reach_start] by auto

subsection \<open>Properties\<close>





text \<open>
  C27. One house at a time, and signals only for it: every generation is swept before the next is
  forked, each under its own number; every signal the supervisor sends goes to the house forked last,
  before the sweep of its generation; and whenever it waits for a house with a shutdown or a \<^verbatim>\<open>STOP\<close>
  on its way, that house has been sent its stop signal since it was forked, whenever the signal came.
\<close>

theorem stop_reaches_house:
  assumes "sup_reach c s"
  shows "length (sweeps (s_acts s)) \<le> length (forks (s_acts s))
    \<and> length (forks (s_acts s)) \<le> Suc (length (sweeps (s_acts s)))
    \<and> map fst (forks (s_acts s)) = map of_nat [0..<length (forks (s_acts s))]
    \<and> signals_own (s_acts s)
    \<and> (\<forall>p. waits p (s_pc s) \<and> (s_stopping s \<or> s_stop_requested s) \<longrightarrow>
         (\<exists>xs g ys. s_acts s = xs @ ForkHouse g p # ys \<and> forks ys = [] \<and> SignalHouse p (c_stop_signal c) \<in> set ys))"
proof -
  have "sup_inv c s" by (rule sup_reach_inv [OF assms])
  then have "trace_inv s" "signal_inv c s" by (simp_all add: sup_inv_def)
  then show ?thesis
    by (auto simp: trace_inv_def signal_inv_def Let_def numbered_def listens_def told_def)
qed

theorem stop_reaches_house_witness:
  "\<exists>s. sup_run demo_sup early_term (sup_start demo_sup) = Some s \<and> s_pc s = WaitTop 21 ByPidfd
    \<and> s_stopping s \<and> signals_own (s_acts s) \<and> SignalHouse 21 15 \<in> set (s_acts s)"
proof -
  have "map_option s_stopping (sup_run demo_sup early_term (sup_start demo_sup)) = Some True" by code_simp
  then obtain s where s: "sup_run demo_sup early_term (sup_start demo_sup) = Some s" "sup_reach demo_sup s"
    "s_pc s = WaitTop 21 ByPidfd" "s_stopping s"
    using run_reaches [OF early_term_run] by auto
  with stop_reaches_house [OF s(2)] show ?thesis by fastforce
qed

subsection \<open>The grace period\<close>

text \<open>The polls it takes to reach the deadline: one of the declared length, or 50 ms cycles.\<close>

definition grace_polls :: "tier \<Rightarrow> u32 \<Rightarrow> nat" where
  "grace_polls t grace = (if t = ByCycles then (unat grace + 49) div 50 else 1)"

lemma armed_sel [simp]:
  "armed c (goto l s) = armed c s" "armed c (do_act a s) = armed c s" "armed c (s\<lparr>s_cycles := n\<rparr>) = armed c s"
  by (simp_all add: armed_def)

lemma sup_run_append: "sup_run c (xs @ ys) s = Option.bind (sup_run c xs s) (sup_run c ys)"
  by (induction xs arbitrary: s) (auto split: option.splits)

lemma cycles_word:
  assumes "k * 50 < unat grace + 50" "grace \<le> NW_GRACE_MAX_MS"
  shows "grace \<le> of_nat k * 50 \<longleftrightarrow> unat grace \<le> k * 50"
proof -
  have "unat grace \<le> 2147483647" using assms(2) by (simp add: word_le_nat_alt NW_GRACE_MAX_MS_def)
  then have "k * 50 < 2 ^ 32" using assms(1) by simp
  moreover have "unat (of_nat n :: u32) = n" if "n < 2 ^ 32" for n
    using that by (simp add: unsigned_of_nat take_bit_nat_eq_self)
  ultimately have "unat (of_nat (k * 50) :: u32) = k * 50" by blast
  moreover have "of_nat k * 50 = (of_nat (k * 50) :: u32)" by simp
  ultimately show ?thesis by (simp only: word_le_nat_alt)
qed

lemma cycles_reach_kill:
  assumes "armed c s" "s_pc s = WaitTop p ByCycles" "s_cycles s = of_nat k" "c_grace_period c \<le> NW_GRACE_MAX_MS"
    and "k + m = grace_polls ByCycles (c_grace_period c)"
  shows "\<exists>s'. sup_run c (concat (replicate m [Go, Timeout None]) @ [Go]) s = Some s' \<and> s_pc s' = Reaping p
    \<and> s_acts s' = s_acts s @ [SignalHouse p SIGKILL] \<and> s_stopping s' = s_stopping s"
  using assms
proof (induction m arbitrary: s k)
  case 0
  let ?g = "unat (c_grace_period c)"
  have "k = (?g + 49) div 50" using 0(5) by (simp add: grace_polls_def)
  then have "k * 50 < ?g + 50" "?g \<le> k * 50" by linarith+
  then have "c_grace_period c \<le> s_cycles s * 50" unfolding 0(3) using cycles_word 0(4) by blast
  then show ?case using 0 by (simp add: sup_step_def wait_top_def)
next
  case (Suc m)
  let ?g = "unat (c_grace_period c)"
  have "k < (?g + 49) div 50" using Suc.prems(5) by (simp add: grace_polls_def)
  then have "k * 50 < ?g + 50" "\<not> ?g \<le> k * 50" by linarith+
  then have "\<not> c_grace_period c \<le> s_cycles s * 50" unfolding Suc.prems(3) using cycles_word Suc.prems(4) by blast
  then have 1: "sup_step c Go s = Some (goto (Polling p ByCycles True) s)"
    using Suc.prems(1,2) by (simp add: sup_step_def wait_top_def)
  let ?s2 = "goto (WaitTop p ByCycles) (goto (Polling p ByCycles True) s\<lparr>s_cycles := s_cycles s + 1\<rparr>)"
  have 2: "sup_step c (Timeout None) (goto (Polling p ByCycles True) s) = Some ?s2"
    by (simp add: sup_step_def polled_armed_def)
  have "s_cycles ?s2 = of_nat (Suc k)" using Suc.prems(3) by (simp add: goto_def)
  moreover have "armed c ?s2" using Suc.prems(1) by simp
  ultimately obtain s' where "sup_run c (concat (replicate m [Go, Timeout None]) @ [Go]) ?s2 = Some s'"
    "s_pc s' = Reaping p" "s_acts s' = s_acts ?s2 @ [SignalHouse p SIGKILL]" "s_stopping s' = s_stopping ?s2"
    using Suc.IH [of ?s2 "Suc k"] Suc.prems(4,5) by auto
  then show ?case using 1 2 by (auto simp: goto_def)
qed


text \<open>Neither a pidfd nor a signalfd, and 120 ms: three cycles.\<close>

definition cycle_sup :: sup_cfg where
  "cycle_sup = demo_sup\<lparr>c_grace_period := 120\<rparr>"

definition cycle_term :: "inp list" where
  "cycle_term = [Go, Opened (Inr []) 21, Go, Go, Tier False False, Go, Ready (Some (Some STOP)) None]"

lemma cycle_term_run:
  "map_option (\<lambda>s. (s_pc s, s_stop_requested s, s_cycles s, s_acts s)) (sup_run cycle_sup cycle_term (sup_start cycle_sup))
   = Some (WaitTop 21 ByCycles, True, 0, [ForkHouse 0 21, SignalHouse 21 15, Reply OK])"
  by code_simp


subsection \<open>What the machine also shows\<close>

text \<open>
  A \<^verbatim>\<open>SIGTERM\<close> between the test of \<open>stopping\<close> and the poll of the idle branch is lost: the supervisor is
  in its poll with the flag set, and no step of its own leaves it.
\<close>

lemma idle_lost_wakeup:
  "\<exists>s. sup_reach idle_sup s \<and> s_pc s = IdlePoll \<and> s_stopping s \<and> sup_step idle_sup Go s = None"
proof -
  have "map_option (\<lambda>s. (s_pc s, s_stopping s)) (sup_run idle_sup [Go, Term] (sup_start idle_sup)) = Some (IdlePoll, True)"
    by code_simp
  then show ?thesis using run_reaches by (fastforce simp: sup_step_def)
qed

text \<open>The same between the test for the armed wait and the poll without a deadline.\<close>

lemma wait_lost_wakeup:
  "\<exists>s. sup_reach demo_sup s \<and> s_pc s = Polling 21 ByPidfd False \<and> armed demo_sup s \<and> sup_step demo_sup Go s = None"
proof -
  have "map_option (\<lambda>s. (s_pc s, s_stopping s)) (sup_run demo_sup (fork_to_wait 21 @ [Term]) (sup_start demo_sup))
      = Some (Polling 21 ByPidfd False, True)"
    by code_simp
  then show ?thesis using run_reaches by (fastforce simp: sup_step_def armed_def polled_def)
qed

text \<open>
  By a signalfd, anything that makes it readable, a stopped child as well as a dead one, ends the armed
  wait: the supervisor goes on to a blocking \<^verbatim>\<open>waitpid\<close> and sends no \<^verbatim>\<open>SIGKILL\<close> any more.
\<close>

lemma signalfd_drops_deadline:
  assumes "s_pc s = Polling p BySignalfd True"
  shows "\<exists>s'. sup_step c (Ready None None) s = Some s' \<and> s_pc s' = Reaping p \<and> s_acts s' = s_acts s
    \<and> (\<forall>i s''. sup_step c i s' = Some s'' \<longrightarrow> i = Term \<or> (\<exists>st. i = Dies st) \<or> i = WaitFails)"
  using assms by (auto simp: sup_step_def polled_armed_def split: inp.splits if_splits)

text \<open>A signal after \<^verbatim>\<open>waitpid\<close> took the status and before \<open>child = 0\<close> goes to a process number that is free.\<close>

lemma term_after_reap:
  assumes "s_pc s = Returned p st" "s_child s = p" "0 < sint p"
  shows "\<exists>s'. sup_step c Term s = Some s' \<and> s_acts s' = s_acts s @ [SignalHouse p (c_stop_signal c)]"
  using assms by (simp add: sup_step_def may_term_def on_term_eq)

text \<open>\<^verbatim>\<open>START\<close> to an idle unlocked unit forks it: \<open>nw_decide\<close> answers FORK, not IDLE.\<close>

lemma unlocked_start_forks:
  "map_option s_pc (sup_run idle_sup [Go, IdleReady (Some START), Go] (sup_start idle_sup)) = Some Opening"
  by code_simp

end
