(* ===== verification/Evidence.thy ===== *)
theory Evidence
  imports Store Cgroup Decide
begin

text \<open>
  \<^verbatim>\<open>write_evidence\<close> of \<^verbatim>\<open>nwsup.c\<close>: the bounded wait for the logger, the tail it left, the record of a
  death, and the content store that keeps it.
\<close>

definition NW_EVIDENCE_DRAIN_SPINS :: nat where "NW_EVIDENCE_DRAIN_SPINS = 200000"

text \<open>
  The wait: \<open>pending k\<close> is what the k-th \<^verbatim>\<open>FIONREAD\<close> gives, \<open>None\<close> if it fails. The result is the
  number of yields.
\<close>

fun drain :: "(nat \<Rightarrow> nat option) \<Rightarrow> nat \<Rightarrow> nat \<Rightarrow> nat" where
  "drain pending i 0 = 0"
| "drain pending i (Suc spins) =
     (if pending i = None \<or> pending i = Some 0 then 0 else Suc (drain pending (Suc i) spins))"

definition drain_wait :: "bool \<Rightarrow> (nat \<Rightarrow> nat option) \<Rightarrow> nat" where
  "drain_wait fd2_is_pipe pending = (if fd2_is_pipe then drain pending 0 NW_EVIDENCE_DRAIN_SPINS else 0)"

definition tail_path :: "bytes \<Rightarrow> bytes" where
  "tail_path name = NW_EVIDENCE_DIR @ ''/'' @ name @ ''.tail''"

text \<open>What is read of the tail file; a file that cannot be opened or read is an empty tail.\<close>

definition read_tail :: "bytes \<Rightarrow> (bytes \<rightharpoonup> bytes) \<Rightarrow> bytes" where
  "read_tail name fs =
     (if length (tail_path name) < length NW_EVIDENCE_DIR + 1 + NW_NAME_LEN + 8
      then case fs (tail_path name) of None \<Rightarrow> [] | Some content \<Rightarrow> take NW_EVIDENCE_TAIL_MAX content
      else [])"

definition counter_text :: "u64 option \<Rightarrow> bytes" where
  "counter_text v = snprintf 24 (case v of Some n \<Rightarrow> dec (unat n) | None \<Rightarrow> ''unavailable'')"

definition evidence_header :: "bytes \<Rightarrow> wstatus \<Rightarrow> u32 \<Rightarrow> u32 \<Rightarrow> u64 option \<Rightarrow> u64 option \<Rightarrow> nat \<Rightarrow> bytes" where
  "evidence_header name st deaths budget oom pids tail_n =
     ''NWEVT2\<newline>unit='' @ name @ ''\<newline>reason='' @ (if WIFEXITED st then ''exit'' else ''signal'')
     @ ''\<newline>value='' @ dec (if WIFEXITED st then WEXITSTATUS st else WTERMSIG st)
     @ ''\<newline>death='' @ dec_int (sint deaths) @ ''\<newline>budget='' @ dec (unat budget)
     @ ''\<newline>oom_kill='' @ counter_text oom @ ''\<newline>pids_max='' @ counter_text pids
     @ ''\<newline>tail_bytes='' @ dec tail_n @ ''\<newline>--\<newline>''"

definition write_evidence ::
  "store_io \<Rightarrow> bytes \<Rightarrow> wstatus \<Rightarrow> u32 \<Rightarrow> u32 \<Rightarrow> u64 option \<Rightarrow> u64 option \<Rightarrow> fs \<Rightarrow> fs" where
  "write_evidence io name st deaths budget oom pids fs =
     (let tail = read_tail name fs;
          hdr = evidence_header name st deaths budget oom pids (length tail)
      in if 256 \<le> length hdr then fs
         else snd (snd (nw_store_put io NW_EVIDENCE_DIR (hdr @ tail) ''.evt'' fs)))"

subsection \<open>The record\<close>

lemma drain_bounded: "drain pending i n \<le> n"
  by (induction n arbitrary: i) auto

lemma drain_stops:
  "drain pending i n < n \<Longrightarrow> pending (i + drain pending i n) = None \<or> pending (i + drain pending i n) = Some 0"
proof (induction n arbitrary: i)
  case 0
  then show ?case by simp
next
  case (Suc n)
  then show ?case using Suc.IH [of "Suc i"] by (auto split: if_splits)
qed

lemma length_counter: "length (counter_text v) \<le> 23"
  by (simp add: counter_text_def snprintf_def)

lemma length_dec_sint: "length (dec_int (sint (w :: u32))) \<le> 11"
  using sint_ge [of w] sint_lt [of w] by (intro length_dec_int) simp_all

lemma status_small: "(if WIFEXITED st then WEXITSTATUS st else WTERMSIG st) < 256"
proof -
  have "WTERMSIG st < 128" "WEXITSTATUS st < 256" by (simp_all add: WTERMSIG_def WEXITSTATUS_def)
  then show ?thesis by simp
qed

lemma evidence_header_fits:
  assumes "length name < NW_NAME_LEN" "tail_n \<le> NW_EVIDENCE_TAIL_MAX"
  shows "length (evidence_header name st deaths budget oom pids tail_n) < 256"
proof -
  have "length (dec tail_n) \<le> 4" using length_dec [of tail_n 3] assms(2) by (simp add: nw_limits)
  moreover have "length (dec (unat budget)) \<le> 10" using length_dec [of "unat budget" 9] unat_bounds(3) [of budget] by simp
  moreover have "length (dec (if WIFEXITED st then WEXITSTATUS st else WTERMSIG st)) \<le> 3"
    using length_dec [of "if WIFEXITED st then WEXITSTATUS st else WTERMSIG st" 2] status_small [of st]
    by (simp del: if_split)
  moreover have "length name \<le> 31" using assms(1) by (simp add: nw_limits)
  ultimately show ?thesis
    using length_counter [of oom] length_counter [of pids] length_dec_sint [of deaths]
    by (cases "WIFEXITED st") (simp_all add: evidence_header_def)
qed

text \<open>Lines that are equal, one after the other.\<close>

lemma line_cut:
  assumes "CHR 0x0A \<notin> set a" "CHR 0x0A \<notin> set a'"
  shows "a @ CHR 0x0A # b = a' @ CHR 0x0A # b' \<longleftrightarrow> a = a' \<and> b = b'"
  using first_line_eq [OF assms(1)] first_line_eq [OF assms(2)] after_line_eq [OF assms(1)] after_line_eq [OF assms(2)]
  by metis

lemma dec_not_unavailable: "dec n \<noteq> CHR ''u'' # s"
  using dec_digits [of "CHR ''u''" n] by (auto simp: digit_char_def)

lemma counter_text_eq: "counter_text v = (case v of Some n \<Rightarrow> dec (unat n) | None \<Rightarrow> ''unavailable'')"
proof (cases v)
  case None
  then show ?thesis by (simp add: counter_text_def snprintf_def)
next
  case (Some n)
  then show ?thesis using unat_bounds(4) [of n] by (simp add: counter_text_def snprintf24_dec)
qed

lemma counter_text_inj: "counter_text v = counter_text w \<longleftrightarrow> v = w"
  using dec_not_unavailable by (auto simp: counter_text_eq word_unat_eq_iff split: option.splits) metis+

lemma counter_text_line: "CHR 0x0A \<notin> set (counter_text v)"
  using dec_plain by (auto simp: counter_text_eq split: option.splits)

lemma dec_int_line: "CHR 0x0A \<notin> set (dec_int i)"
  using dec_plain by (auto simp: dec_int_def)

lemma dec_int_inj: "dec_int i = dec_int j \<longleftrightarrow> i = j"
proof -
  have "dec n \<noteq> CHR ''-'' # s" for n s using dec_digits [of "CHR ''-''" n] by (auto simp: digit_char_def)
  then show ?thesis by (auto simp: dec_int_def split: if_splits) (metis)+
qed

lemma evidence_header_lines:
  "evidence_header name st deaths budget oom pids n @ tail =
     ''NWEVT2'' @ CHR 0x0A # (''unit='' @ name) @ CHR 0x0A
     # (''reason='' @ (if WIFEXITED st then ''exit'' else ''signal'')) @ CHR 0x0A
     # (''value='' @ dec (if WIFEXITED st then WEXITSTATUS st else WTERMSIG st)) @ CHR 0x0A
     # (''death='' @ dec_int (sint deaths)) @ CHR 0x0A # (''budget='' @ dec (unat budget)) @ CHR 0x0A
     # (''oom_kill='' @ counter_text oom) @ CHR 0x0A # (''pids_max='' @ counter_text pids) @ CHR 0x0A
     # (''tail_bytes='' @ dec n) @ CHR 0x0A # ''--'' @ CHR 0x0A # tail"
  by (simp add: evidence_header_def)

subsection \<open>Properties\<close>

text \<open>
  C36. An evidence record says what happened and nothing is lost in it: two records are equal only if
  unit, kind and value of the end, death number, budget, both counters, unavailable ones included, and
  the tail are. No tail, whatever the house wrote into it, can pass for a line of the header.
\<close>

theorem evidence_injective:
  assumes "list_all name_char n1" "list_all name_char n2"
    and "evidence_header n1 st1 d1 b1 o1 p1 (length t1) @ t1 = evidence_header n2 st2 d2 b2 o2 p2 (length t2) @ t2"
  shows "n1 = n2 \<and> WIFEXITED st1 = WIFEXITED st2
    \<and> (if WIFEXITED st1 then WEXITSTATUS st1 = WEXITSTATUS st2 else WTERMSIG st1 = WTERMSIG st2)
    \<and> d1 = d2 \<and> b1 = b2 \<and> o1 = o2 \<and> p1 = p2 \<and> t1 = t2"
proof -
  have nl: "CHR 0x0A \<notin> set n1" "CHR 0x0A \<notin> set n2"
    using assms(1,2) by (auto simp: list_all_iff name_char_def)
  have d: "CHR 0x0A \<notin> set (dec k)" for k using dec_plain by blast
  have w: "d1 = d2 \<longleftrightarrow> sint d1 = sint d2" by (rule word_eq_iff_signed)
  show ?thesis
    using assms(3) nl d dec_int_line counter_text_line
    unfolding evidence_header_lines
    by (simp add: line_cut counter_text_inj dec_int_inj w word_unat_eq_iff [of b1] split: if_splits)
qed

theorem evidence_injective_witness:
  "evidence_header ''web'' (exited 3) 1 5 None (Some 0) 0 @ [] \<noteq> evidence_header ''web'' (exited 3) 1 5 (Some 0) (Some 0) 0 @ []"
  using evidence_injective [of "''web''" "''web''" "exited 3" 1 5 None "Some 0" "[]" "exited 3" 1 5 "Some 0" "Some 0" "[]"]
  by (auto simp: name_char_def)

text \<open>
  C37. No death goes unrecorded: for every name a plan can hold the header fits its buffer, so with a
  store whose calls do not fail the record, header and tail, is in the evidence directory under its own
  hash, and nothing else there changed; and the wait for the logger before it is at most
  \<open>NW_EVIDENCE_DRAIN_SPINS\<close> yields, ended early only by a drained pipe or a failing \<^verbatim>\<open>ioctl\<close>.
\<close>

theorem evidence_kept:
  assumes "length name < NW_NAME_LEN"
    and "record = evidence_header name st deaths budget oom pids (length (read_tail name fs)) @ read_tail name fs"
    and "healthy io NW_EVIDENCE_DIR record fs"
  shows "(\<forall>path. write_evidence io name st deaths budget oom pids fs path
        = (if path = final_path NW_EVIDENCE_DIR record ''.evt'' then Some record else fs path))
    \<and> read_tail name fs = (case fs (tail_path name) of None \<Rightarrow> [] | Some c \<Rightarrow> take NW_EVIDENCE_TAIL_MAX c)
    \<and> drain_wait fd2 pending \<le> NW_EVIDENCE_DRAIN_SPINS
    \<and> (fd2 \<and> drain_wait fd2 pending < NW_EVIDENCE_DRAIN_SPINS \<longrightarrow>
         pending (drain_wait fd2 pending) = None \<or> pending (drain_wait fd2 pending) = Some 0)"
proof -
  let ?tail = "read_tail name fs"
  have t: "read_tail name fs = (case fs (tail_path name) of None \<Rightarrow> [] | Some c \<Rightarrow> take NW_EVIDENCE_TAIL_MAX c)"
    using assms(1) by (simp add: read_tail_def tail_path_def)
  then have "length ?tail \<le> NW_EVIDENCE_TAIL_MAX" by (simp split: option.splits)
  from evidence_header_fits [OF assms(1) this]
  have fits: "\<not> 256 \<le> length (evidence_header name st deaths budget oom pids (length ?tail))"
    by (simp add: not_le)
  obtain r hex fs' where put: "nw_store_put io NW_EVIDENCE_DIR record ''.evt'' fs = (r, hex, fs')"
    by (cases "nw_store_put io NW_EVIDENCE_DIR record ''.evt'' fs") auto
  have w: "write_evidence io name st deaths budget oom pids fs = fs'"
    using fits put by (simp add: write_evidence_def Let_def assms(2))
  have "length (final_path NW_EVIDENCE_DIR record ''.evt'') < NW_STORE_PATH_MAX"
    by (simp add: final_path_def NW_STORE_PATH_MAX_def nw_sha256_standard_length NW_EVIDENCE_DIR_def)
  moreover have "length NW_EVIDENCE_DIR + 12 < NW_STORE_PATH_MAX"
    by (simp add: NW_STORE_PATH_MAX_def NW_EVIDENCE_DIR_def)
  ultimately have "r = (if fs (final_path NW_EVIDENCE_DIR record ''.evt'') = Some record then 0 else 1)"
    using store_put_healthy [OF assms(3) _ _ put] by blast
  then have "\<forall>path. fs' path = (if path = final_path NW_EVIDENCE_DIR record ''.evt'' then Some record else fs path)"
    using store_put_cases [OF put] by (auto split: if_splits)
  with t w show ?thesis
    using drain_bounded [of pending 0 NW_EVIDENCE_DRAIN_SPINS] drain_stops [of pending 0 NW_EVIDENCE_DRAIN_SPINS]
    by (auto simp: drain_wait_def)
qed

theorem evidence_kept_witness:
  "write_evidence (demo_io\<lparr>io_write := Some 5000\<rparr>) ''web'' 11 1 3 (Some 0) None
      [''/nw/evidence/web.tail'' \<mapsto> ''boom\<newline>'']
      (final_path NW_EVIDENCE_DIR (evidence_header ''web'' 11 1 3 (Some 0) None 5 @ ''boom\<newline>'') ''.evt'')
    = Some (evidence_header ''web'' 11 1 3 (Some 0) None 5 @ ''boom\<newline>'')"
proof -
  let ?fs = "[''/nw/evidence/web.tail'' \<mapsto> ''boom\<newline>'']"
  let ?io = "demo_io\<lparr>io_write := Some 5000\<rparr>"
  have tp: "tail_path ''web'' = ''/nw/evidence/web.tail''" by (simp add: tail_path_def NW_EVIDENCE_DIR_def)
  then have t: "read_tail ''web'' ?fs = ''boom\<newline>''"
    by (simp add: read_tail_def NW_EVIDENCE_DIR_def nw_limits)
  have l5: "length ''boom\<newline>'' = 5" by simp
  have l: "length ''web'' < NW_NAME_LEN" by (simp add: nw_limits)
  have fits: "length (evidence_header ''web'' 11 1 3 (Some 0) None 5) < 256"
    by (rule evidence_header_fits) (simp_all add: nw_limits)
  have h: "healthy ?io NW_EVIDENCE_DIR
      (evidence_header ''web'' 11 1 3 (Some 0) None (length (read_tail ''web'' ?fs)) @ read_tail ''web'' ?fs) ?fs"
    unfolding t l5
    using fits by (simp add: healthy_def demo_io_def NW_STORE_CMP_CHUNK_def tmp_path_def NW_EVIDENCE_DIR_def)
  note kept = evidence_kept [OF l refl h, THEN conjunct1, THEN spec, unfolded t l5]
  show ?thesis by (simp only: kept simp_thms if_True)
qed

end
