(* ===== verification/Brick.thy ===== *)
theory Brick
  imports Handoff
begin

text \<open>
  The brick of \<^verbatim>\<open>nwsup.c\<close>: \<^verbatim>\<open>loop_attach\<close>, and \<^verbatim>\<open>lid_brick\<close>, which turns an image, an optional sized
  layer, and the declared binds into the root a house pivots to. A lid is a list of calls, each with
  the reason it dies with; what a mount does to the mount table is written out.
\<close>

subsection \<open>The loop device\<close>

datatype configured = Attached | Busy | ConfigureFails

record loop_try =
  lt_control :: bool
  lt_index :: int
  lt_device :: bool
  lt_configure :: configured

definition loop_name :: "int \<Rightarrow> bytes" where
  "loop_name i = ''/dev/loop'' @ dec_int i"

text \<open>\<open>att k\<close> is how attempt \<open>k\<close> goes; \<open>left\<close> counts the attempts down. The buffer holds 32 bytes.\<close>

fun loop_attach :: "(nat \<Rightarrow> loop_try) \<Rightarrow> nat \<Rightarrow> nat \<Rightarrow> bytes res" where
  "loop_attach att k 0 = Inl ''loop configure: no free device''"
| "loop_attach att k (Suc left) =
     (let t = att k; dev = loop_name (lt_index t) in
      die_if (\<not> lt_control t) ''open loop-control'' (
      die_if (lt_index t < 0) ''loop get free'' (
      die_if (32 \<le> length dev) ''loop device name'' (
      die_if (\<not> lt_device t) ''open loop device'' (
      case lt_configure t of
        Attached \<Rightarrow> Inr dev
      | ConfigureFails \<Rightarrow> Inl ''loop configure''
      | Busy \<Rightarrow> loop_attach att (Suc k) left)))))"

subsection \<open>Calls\<close>

datatype mflag = Rec | Private | RdOnly | NoDev | Bind | Remount

datatype call =
    Mount bytes bytes bytes "mflag list" bytes
  | Open bytes
  | FchdirNew
  | FchdirOld
  | PivotRoot
  | DetachOld
  | Chdir bytes

text \<open>A step either is a call, with what the house dies of if it fails, or dies.\<close>

datatype hstep = Do call bytes | Refuse bytes

definition attach :: "bytes res \<Rightarrow> (bytes \<Rightarrow> hstep list) \<Rightarrow> hstep list" where
  "attach r f = (case r of Inl e \<Rightarrow> [Refuse e] | Inr dev \<Rightarrow> f dev)"

definition guard_path :: "nat \<Rightarrow> bytes \<Rightarrow> bytes \<Rightarrow> hstep list \<Rightarrow> hstep list" where
  "guard_path room path what steps = (if room \<le> length path then [Refuse what] else steps)"

text \<open>
  \<open>bk_same b\<close>: \<^verbatim>\<open>stat\<close> of the bind gives the identity of the control directory, \<open>None\<close> if it fails.
\<close>

record brick_facts =
  bk_image :: "nat \<Rightarrow> loop_try"
  bk_store :: "nat \<Rightarrow> loop_try"
  bk_ctl :: bool
  bk_same :: "bytes \<Rightarrow> bool option"

definition layer_img :: "bytes \<Rightarrow> bytes" where
  "layer_img layer = NW_LAYER_DIR @ ''/'' @ layer @ NW_LAYER_STORE_SUFFIX"

definition layer_mnt :: "bytes \<Rightarrow> bytes" where
  "layer_mnt layer = NW_LAYER_DIR @ ''/'' @ layer"

definition layer_store_steps :: "brick_facts \<Rightarrow> bytes \<Rightarrow> hstep list" where
  "layer_store_steps bk layer =
     guard_path (Suc (length NW_LAYER_DIR) + 1 + NW_NAME_LEN + Suc (length NW_LAYER_STORE_SUFFIX))
       (layer_img layer) ''layer store path''
     (Do (Open (layer_img layer)) ''open layer store'' #
      attach (loop_attach (bk_store bk) 0 NW_MAX_UNITS) (\<lambda>sdev.
        guard_path (Suc (length NW_LAYER_DIR) + 1 + NW_NAME_LEN + 1) (layer_mnt layer) ''layer mount path''
        [Do (Mount sdev (layer_mnt layer) ''ext4'' [] []) ''mount layer store'']))"

definition overlay_options :: "bytes \<Rightarrow> bytes" where
  "overlay_options layer =
     ''lowerdir='' @ NW_BRICK_MNT @ '',upperdir='' @ layer_mnt layer @ ''/'' @ NW_LAYER_UPPER
       @ '',workdir='' @ layer_mnt layer @ ''/'' @ NW_LAYER_WORK"

definition overlay_steps :: "bytes \<Rightarrow> hstep list" where
  "overlay_steps layer =
     (let up = Suc (length NW_LAYER_DIR) + 1 + NW_NAME_LEN + 1 + Suc (length NW_LAYER_UPPER);
          wk = Suc (length NW_LAYER_DIR) + 1 + NW_NAME_LEN + 1 + Suc (length NW_LAYER_WORK)
      in guard_path up (layer_mnt layer @ ''/'' @ NW_LAYER_UPPER) ''layer upper path''
        (guard_path wk (layer_mnt layer @ ''/'' @ NW_LAYER_WORK) ''layer work path''
        (guard_path (up + wk + Suc (length NW_BRICK_MNT) + 64) (overlay_options layer) ''layer options''
        [Do (Mount ''overlay'' NW_BRICK_MNT ''overlay'' [] (overlay_options layer)) ''mount layer''])))"

definition bind_steps :: "brick_facts \<Rightarrow> bytes \<Rightarrow> hstep list" where
  "bind_steps bk b =
     (let tgt = NW_BRICK_MNT @ b in
      guard_path (Suc (length NW_BRICK_MNT) + NW_PATH_LEN) tgt ''bind target too long''
      (Do (Mount b tgt [] [Bind, Rec] []) ''bind'' #
       (case bk_same bk b of None \<Rightarrow> [Refuse ''stat bind'']
        | Some same \<Rightarrow> if same then [Do (Mount b tgt [] [Bind, Remount, RdOnly] []) ''bind ctl dir readonly''] else [])))"

definition pivot_steps :: "hstep list" where
  "pivot_steps =
     [Do (Open ''/'') ''open oldroot'', Do (Open NW_BRICK_MNT) ''open brick mountpoint'',
      Do FchdirNew ''fchdir brick'', Do PivotRoot ''pivot_root'', Do FchdirOld ''fchdir oldroot'',
      Do (Mount [] ''.'' [] [Rec, Private] []) ''oldroot rprivate'', Do DetachOld ''detach oldroot'',
      Do (Chdir ''/'') ''chdir new root'']"

definition lid_brick :: "brick_facts \<Rightarrow> bytes \<Rightarrow> bytes option \<Rightarrow> u64 \<Rightarrow> bytes list \<Rightarrow> hstep list" where
  "lid_brick bk brick layer layer_bytes binds =
     Do (Mount [] ''/'' [] [Rec, Private] []) ''make rprivate'' #
     Do (Open brick) ''open brick image'' #
     attach (loop_attach (bk_image bk) 0 NW_MAX_UNITS) (\<lambda>dev.
       Do (Mount dev NW_BRICK_MNT ''erofs'' [RdOnly, NoDev] []) ''mount brick image'' #
       (case layer of None \<Rightarrow> [] | Some l \<Rightarrow> if l = [] \<or> layer_bytes = 0 then [] else layer_store_steps bk l)
       @ (case layer of None \<Rightarrow> [] | Some l \<Rightarrow> if l = [] then [] else overlay_steps l)
       @ (if bk_ctl bk then [] else [Refuse ''stat ctl dir''])
       @ concat (map (bind_steps bk) binds)
       @ pivot_steps)"

subsection \<open>Running\<close>

text \<open>The calls that were made, the failing one not among them, and the reason of the death.\<close>

fun perform :: "(call \<Rightarrow> bool) \<Rightarrow> hstep list \<Rightarrow> call list \<times> bytes option" where
  "perform ok [] = ([], None)"
| "perform ok (Refuse e # ss) = ([], Some e)"
| "perform ok (Do c e # ss) =
     (if ok c then let (cs, r) = perform ok ss in (c # cs, r) else ([], Some e))"

text \<open>
  The mount table, newest first: target, source, read-only. A remount changes the topmost mount of its
  target; a bind's own \<^verbatim>\<open>MS_RDONLY\<close> would be ignored.
\<close>

type_synonym mounts = "(bytes \<times> bytes \<times> bool) list"

fun remount :: "bytes \<Rightarrow> bool \<Rightarrow> mounts \<Rightarrow> mounts" where
  "remount tgt ro [] = []"
| "remount tgt ro ((t, s, r) # ms) = (if t = tgt then (t, s, ro) # ms else (t, s, r) # remount tgt ro ms)"

fun do_call :: "call \<Rightarrow> mounts \<Rightarrow> mounts" where
  "do_call (Mount src tgt fstype flags opts) ms =
     (if Private \<in> set flags then ms
      else if Remount \<in> set flags then remount tgt (RdOnly \<in> set flags) ms
      else if Bind \<in> set flags then (tgt, src, False) # ms
      else (tgt, src, RdOnly \<in> set flags) # ms)"
| "do_call _ ms = ms"

definition mounted :: "call list \<Rightarrow> mounts" where
  "mounted cs = fold do_call cs []"

text \<open>
  What a path shows: the topmost mount at or above it decides, and shows its source at the rest of
  the path. A recursive bind brings what its source directory contains.
\<close>

definition under :: "bytes \<Rightarrow> bytes \<Rightarrow> bytes option" where
  "under p t =
     (let rest = drop (length p) t in
      if take (length p) t = p \<and> (rest = [] \<or> hd rest = CHR 0x2F) then Some rest else None)"

fun seen :: "mounts \<Rightarrow> bytes \<Rightarrow> (bytes \<times> bool) option" where
  "seen [] t = None"
| "seen ((tgt, src, ro) # ms) t =
     (case under tgt t of Some rest \<Rightarrow> Some (src @ rest, ro) | None \<Rightarrow> seen ms t)"

subsection \<open>The loop device is got\<close>

definition may_retry :: "loop_try \<Rightarrow> bool" where
  "may_retry t \<longleftrightarrow> lt_control t \<and> 0 \<le> lt_index t \<and> length (loop_name (lt_index t)) < 32 \<and> lt_device t"

lemma loop_attach_first:
  "\<forall>i. may_retry (att i) \<Longrightarrow> loop_attach att k left =
    (case filter (\<lambda>k. lt_configure (att k) \<noteq> Busy) [k..<k + left] of
       [] \<Rightarrow> Inl ''loop configure: no free device''
     | k # _ \<Rightarrow> if lt_configure (att k) = Attached then Inr (loop_name (lt_index (att k))) else Inl ''loop configure'')"
proof (induction left arbitrary: k)
  case 0
  then show ?case by simp
next
  case (Suc left)
  then have m: "may_retry (att k)" by blast
  show ?case
    using m Suc.IH [OF Suc.prems, of "Suc k"]
    by (cases "lt_configure (att k)") (simp_all add: may_retry_def die_if_def Let_def upt_conv_Cons not_le del: upt_Suc)
qed

lemma loop_name_fits: "0 \<le> i \<Longrightarrow> i < 2 ^ 31 \<Longrightarrow> length (loop_name i) < 32"
  using length_dec [of "nat i" 9] by (simp add: loop_name_def dec_int_def nat_less_iff)

text \<open>
  Losing the race for a loop device is survived as long as the bound says: if no call fails and fewer
  than \<open>NW_MAX_UNITS\<close> attempts in a row find their index taken, the first that does not attaches, with
  its own fresh index; a device is never used whose configuration did not succeed; and with every
  attempt lost the house dies, it does not try for ever.
\<close>

lemma loop_attach_wins:
  assumes "\<forall>k. lt_control (att k) \<and> lt_device (att k) \<and> 0 \<le> lt_index (att k) \<and> lt_index (att k) < 2 ^ 31"
  shows "loop_attach att 0 NW_MAX_UNITS =
    (case filter (\<lambda>k. lt_configure (att k) \<noteq> Busy) [0..<NW_MAX_UNITS] of
       [] \<Rightarrow> Inl ''loop configure: no free device''
     | k # _ \<Rightarrow> if lt_configure (att k) = Attached then Inr (loop_name (lt_index (att k))) else Inl ''loop configure'')"
  using assms loop_attach_first [of att 0 NW_MAX_UNITS] by (simp add: may_retry_def loop_name_fits)

lemma loop_attach_wins_example:
  "loop_attach (\<lambda>k. \<lparr>lt_control = True, lt_index = if k < 63 then 7 else 70, lt_device = True,
      lt_configure = (if k < 63 then Busy else Attached)\<rparr>) 0 NW_MAX_UNITS = Inr (loop_name 70)"
proof -
  let ?att = "\<lambda>k. \<lparr>lt_control = True, lt_index = if k < (63 :: nat) then 7 else 70, lt_device = True,
      lt_configure = (if k < 63 then Busy else Attached)\<rparr>"
  have "filter (\<lambda>k. lt_configure (?att k) \<noteq> Busy) [0..<NW_MAX_UNITS] = [63]" by code_simp
  then show ?thesis using loop_attach_wins [of ?att] by simp
qed

subsection \<open>What a house's root shows\<close>

lemma perform_Do:
  "perform ok (Do c e # ss) = (cs, None) \<longleftrightarrow> (\<exists>c2. ok c \<and> perform ok ss = (c2, None) \<and> cs = c # c2)"
  by (auto split: prod.splits)

lemma perform_append:
  "perform ok (ss @ ss') = (cs, None) \<longleftrightarrow>
     (\<exists>c1 c2. perform ok ss = (c1, None) \<and> perform ok ss' = (c2, None) \<and> cs = c1 @ c2)"
proof (induction ss arbitrary: cs)
  case Nil
  then show ?case by simp
next
  case (Cons s ss)
  then show ?case by (cases s) (auto simp: perform_Do simp del: perform.simps(3))
qed

lemma perform_guard:
  "perform ok (guard_path room p w ss) = (cs, None) \<longleftrightarrow> length p < room \<and> perform ok ss = (cs, None)"
  by (simp add: guard_path_def)

lemma perform_attach:
  "perform ok (attach r f) = (cs, None) \<longleftrightarrow> (\<exists>dev. r = Inr dev \<and> perform ok (f dev) = (cs, None))"
  by (cases r) (simp_all add: attach_def)

lemmas perform_steps = perform_append perform_Do perform_guard perform_attach

lemma binds_mounted:
  "perform ok (concat (map (bind_steps bk) binds)) = (cs, None) \<Longrightarrow>
     fold do_call cs ms = rev (map (\<lambda>b. (NW_BRICK_MNT @ b, b, bk_same bk b = Some True)) binds) @ ms
     \<and> (\<forall>b\<in>set binds. bk_same bk b \<noteq> None)"
proof (induction binds arbitrary: cs ms)
  case Nil
  then show ?case by simp
next
  case (Cons b bs)
  from Cons.prems obtain c1 c2 where c1: "perform ok (bind_steps bk b) = (c1, None)"
    and c2: "perform ok (concat (map (bind_steps bk) bs)) = (c2, None)" and cs: "cs = c1 @ c2"
    by (auto simp: perform_append)
  have "fold do_call c1 ms = (NW_BRICK_MNT @ b, b, bk_same bk b = Some True) # ms \<and> bk_same bk b \<noteq> None"
    using c1 by (auto simp: bind_steps_def Let_def perform_steps split: option.splits if_splits)
  then show ?case using Cons.IH [OF c2] cs by simp
qed


lemma seen_append:
  "seen (ms @ ms') t = (case seen ms t of None \<Rightarrow> seen ms' t | Some r \<Rightarrow> Some r)"
  by (induction ms) (auto split: option.splits)

lemma seen_None: "seen ms t = None \<longleftrightarrow> (\<forall>m\<in>set ms. under (fst m) t = None)"
  by (induction ms) (auto split: option.splits)

lemma under_same [simp]: "under p p = Some []" "under p (p @ CHR 0x2F # r) = Some (CHR 0x2F # r)"
  by (simp_all add: under_def)

lemma under_prefix [simp]: "under (p @ q) (p @ t) = under q t"
  by (simp add: under_def)

lemma under_Some: "under b p = Some r \<Longrightarrow> p = b @ r"
  by (auto simp: under_def Let_def split: if_splits) (metis append_take_drop_id)

lemma binds_seen:
  "seen (map (\<lambda>b. (NW_BRICK_MNT @ b, b, ro b)) bs) (NW_BRICK_MNT @ q) =
     (case filter (\<lambda>b. under b q \<noteq> None) bs of [] \<Rightarrow> None | b # _ \<Rightarrow> Some (q, ro b))"
  by (induction bs) (auto dest: under_Some split: option.splits)

definition stacked :: "bytes option \<Rightarrow> bool" where
  "stacked layer \<longleftrightarrow> (\<exists>l. layer = Some l \<and> l \<noteq> [])"

definition pivot_calls :: "call list" where
  "pivot_calls = [Open ''/'', Open NW_BRICK_MNT, FchdirNew, PivotRoot, FchdirOld, Mount [] ''.'' [] [Rec, Private] [],
     DetachOld, Chdir ''/'']"

lemma pivot_run: "perform ok pivot_steps = (cs, None) \<Longrightarrow> cs = pivot_calls"
  by (auto simp: pivot_steps_def pivot_calls_def split: if_splits prod.splits)

lemma store_mounted:
  "perform ok (layer_store_steps bk l) = (cs, None) \<Longrightarrow> \<exists>store. fold do_call cs ms = store @ ms"
  by (auto simp: layer_store_steps_def perform_steps simp del: perform.simps(3))

lemma overlay_mounted:
  "perform ok (overlay_steps l) = (cs, None) \<Longrightarrow> fold do_call cs ms = (NW_BRICK_MNT, ''overlay'', False) # ms"
  by (auto simp: overlay_steps_def perform_steps Let_def split: if_splits)

lemma brick_run:
  assumes "perform ok (lid_brick bk brick layer layer_bytes binds) = (cs, None)"
  shows "\<exists>dev mid store. loop_attach (bk_image bk) 0 NW_MAX_UNITS = Inr dev
    \<and> cs = Mount [] ''/'' [] [Rec, Private] [] # mid @ pivot_calls
    \<and> mounted cs = rev (map (\<lambda>b. (NW_BRICK_MNT @ b, b, bk_same bk b = Some True)) binds)
        @ (if stacked layer then [(NW_BRICK_MNT, ''overlay'', False)] @ store else []) @ [(NW_BRICK_MNT, dev, True)]"
proof -
  obtain dev c1 c2 c3 c4 where dev: "loop_attach (bk_image bk) 0 NW_MAX_UNITS = Inr dev"
    and c1: "perform ok (case layer of None \<Rightarrow> [] | Some l \<Rightarrow> if l = [] \<or> layer_bytes = 0 then [] else layer_store_steps bk l) = (c1, None)"
    and c2: "perform ok (case layer of None \<Rightarrow> [] | Some l \<Rightarrow> if l = [] then [] else overlay_steps l) = (c2, None)"
    and c3: "perform ok (concat (map (bind_steps bk) binds)) = (c3, None)"
    and c4: "perform ok pivot_steps = (c4, None)"
    and cs: "cs = Mount [] ''/'' [] [Rec, Private] [] # Open brick # Mount dev NW_BRICK_MNT ''erofs'' [RdOnly, NoDev] []
      # c1 @ c2 @ c3 @ c4"
    using assms unfolding lid_brick_def
    by (auto simp: perform_steps simp del: perform.simps(3) split: if_splits)
  have store: "\<exists>store. fold do_call c1 ms = store @ ms \<and> (\<not> stacked layer \<longrightarrow> store = [])" for ms
    using c1 store_mounted [of ok bk _ c1 ms] by (auto simp: stacked_def split: option.splits if_splits)
  obtain store where s: "fold do_call c1 [(NW_BRICK_MNT, dev, True)] = store @ [(NW_BRICK_MNT, dev, True)]"
    "\<not> stacked layer \<longrightarrow> store = []" using store by blast
  have o: "fold do_call c2 ms = (if stacked layer then [(NW_BRICK_MNT, ''overlay'', False)] else []) @ ms" for ms
    using c2 overlay_mounted [of ok _ c2 ms] by (auto simp: stacked_def split: option.splits if_splits)
  have p: "fold do_call c4 ms = ms" for ms
    by (simp add: pivot_run [OF c4] pivot_calls_def)
  have "mounted cs = rev (map (\<lambda>b. (NW_BRICK_MNT @ b, b, bk_same bk b = Some True)) binds)
      @ (if stacked layer then [(NW_BRICK_MNT, ''overlay'', False)] @ store else []) @ [(NW_BRICK_MNT, dev, True)]"
    using s by (simp add: mounted_def cs o p binds_mounted [OF c3])
  then show ?thesis using dev cs pivot_run [OF c4] by (auto intro!: exI)
qed


definition demo_att :: loop_try where
  "demo_att = \<lparr>lt_control = True, lt_index = 3, lt_device = True, lt_configure = Attached\<rparr>"

text \<open>A machine where every call works; two spellings name the control directory.\<close>

definition demo_brick :: brick_facts where
  "demo_brick = \<lparr>bk_image = (\<lambda>_. demo_att), bk_store = (\<lambda>_. demo_att), bk_ctl = True,
     bk_same = (\<lambda>b. Some (b = NW_CTL_DIR \<or> b = NW_CTL_DIR @ ''/''))\<rparr>"


text \<open>
  A declared bind above the control directory brings it along, and the remount, which asks whether the
  bind itself is the control directory, leaves it writable.
\<close>

lemma parent_bind_writable:
  "seen (mounted (fst (perform (\<lambda>_. True) (lid_brick demo_brick ''/i'' (Some ''web'') 0 [''/nw'']))))
     (NW_BRICK_MNT @ NW_CTL_DIR) = Some (NW_CTL_DIR, False)"
  by code_simp

subsection \<open>The path buffers are large enough\<close>

lemma perform_ends:
  "snd (perform ok (ss @ ss')) = None \<longleftrightarrow> snd (perform ok ss) = None \<and> snd (perform ok ss') = None"
  "snd (perform ok (Do c e # ss)) = None \<longleftrightarrow> ok c \<and> snd (perform ok ss) = None"
  "snd (perform ok (guard_path room p w ss)) = None \<longleftrightarrow> length p < room \<and> snd (perform ok ss) = None"
  "snd (perform ok (attach r f)) = None \<longleftrightarrow> (\<exists>dev. r = Inr dev \<and> snd (perform ok (f dev)) = None)"
proof -
  have e: "snd p = None \<longleftrightarrow> (\<exists>x. p = (x, None))" for p :: "call list \<times> bytes option" by (cases p) auto
  show "snd (perform ok (ss @ ss')) = None \<longleftrightarrow> snd (perform ok ss) = None \<and> snd (perform ok ss') = None"
    unfolding e perform_append by blast
  show "snd (perform ok (Do c e # ss)) = None \<longleftrightarrow> ok c \<and> snd (perform ok ss) = None"
    by (auto split: prod.splits)
  show "snd (perform ok (guard_path room p w ss)) = None \<longleftrightarrow> length p < room \<and> snd (perform ok ss) = None"
    by (simp add: guard_path_def)
  show "snd (perform ok (attach r f)) = None \<longleftrightarrow> (\<exists>dev. r = Inr dev \<and> snd (perform ok (f dev)) = None)"
    by (cases r) (simp_all add: attach_def)
qed

text \<open>
  With a layer name and binds as the validator bounds them, no path buffer is overrun: if every call succeeds
  the lid runs to its end.
\<close>

lemma brick_runs:
  assumes "\<forall>l. layer = Some l \<longrightarrow> length l < NW_NAME_LEN" "\<forall>b\<in>set binds. length b < NW_PATH_LEN"
    and "loop_attach (bk_image bk) 0 NW_MAX_UNITS = Inr d" "loop_attach (bk_store bk) 0 NW_MAX_UNITS = Inr sd"
    and "bk_ctl bk" "\<forall>b\<in>set binds. bk_same bk b \<noteq> None"
  shows "snd (perform (\<lambda>_. True) (lid_brick bk brick layer layer_bytes binds)) = None"
proof -
  have "\<forall>b\<in>set binds. length b < NW_PATH_LEN \<and> bk_same bk b \<noteq> None" using assms(2,6) by blast
  then have b: "snd (perform (\<lambda>_. True) (concat (map (bind_steps bk) binds))) = None"
    by (induction binds) (auto simp: bind_steps_def Let_def perform_ends)
  have p: "snd (perform (\<lambda>_. True) pivot_steps) = None" by (simp add: pivot_steps_def)
  have st: "snd (perform (\<lambda>_. True) (layer_store_steps bk l)) = None" if "length l < NW_NAME_LEN" for l
    using that assms(4)
    by (simp add: layer_store_steps_def perform_ends layer_img_def layer_mnt_def del: perform.simps(3))
  have ov: "snd (perform (\<lambda>_. True) (overlay_steps l)) = None" if "length l < NW_NAME_LEN" for l
    using that
    by (simp add: overlay_steps_def Let_def perform_ends overlay_options_def layer_mnt_def del: perform.simps(3))
  show ?thesis
    using assms b p st ov
    by (cases layer) (simp_all add: lid_brick_def perform_ends del: perform.simps(3))
qed

end
