(* ===== verification/Confine.thy ===== *)
theory Confine
  imports Handoff
begin

text \<open>
  Two lids of \<^verbatim>\<open>nwsup.c\<close>: the Landlock ruleset of \<^verbatim>\<open>lid_landlock\<close>, and the capabilities
  \<^verbatim>\<open>apply_capabilities\<close> drops. Landlock's masks are sets of rights. What the kernel makes of a rule and
  of a capability call is its documented behaviour, written out here.
\<close>

subsection \<open>Landlock\<close>

datatype ll_right =
    Execute | WriteFile | ReadFile | ReadDir | RemoveDir | RemoveFile | MakeChar | MakeDir | MakeReg
  | MakeSock | MakeFifo | MakeBlock | MakeSym | Truncate

definition ll_handled :: "int \<Rightarrow> ll_right set" where
  "ll_handled abi =
     {Execute, WriteFile, ReadFile, ReadDir, RemoveDir, RemoveFile, MakeChar, MakeDir, MakeReg, MakeSock,
      MakeFifo, MakeBlock, MakeSym} \<union> (if 3 \<le> abi then {Truncate} else {})"

definition ll_ro :: "ll_right set" where
  "ll_ro = {Execute, ReadFile, ReadDir}"

definition ll_rw :: "int \<Rightarrow> ll_right set" where
  "ll_rw abi = (ll_ro \<union> {WriteFile, MakeReg, MakeDir, MakeSym, MakeSock, MakeFifo, RemoveFile, RemoveDir,
     Truncate}) \<inter> ll_handled abi"

definition ll_root :: "int \<Rightarrow> ll_right set" where
  "ll_root abi = (ll_ro \<union> {WriteFile}) \<inter> ll_handled abi"

text \<open>The rights a rule asks for: those about the inside of a directory only on a directory.\<close>

definition ll_access :: "bool \<Rightarrow> ll_right set \<Rightarrow> ll_right set" where
  "ll_access is_dir access =
     (if is_dir then access
      else access - {ReadDir, MakeReg, MakeDir, MakeSym, MakeSock, MakeFifo, RemoveFile, RemoveDir})"

text \<open>
  The kernel: the ABI it reports, negative without Landlock; what opening and \<^verbatim>\<open>fstat\<close> give of a path,
  \<open>Some True\<close> for a directory; whether the other calls work. It takes a rule if the rights are some of
  the handled ones, and on a file only file rights.
\<close>

record ll_kernel =
  lk_abi :: int
  lk_ruleset :: bool
  lk_open :: "bytes \<Rightarrow> bool option"
  lk_nnp :: bool
  lk_restrict :: bool

definition ll_file_rights :: "ll_right set" where
  "ll_file_rights = {Execute, WriteFile, ReadFile, Truncate}"

definition ll_add_rule :: "ll_right set \<Rightarrow> bool \<Rightarrow> ll_right set \<Rightarrow> bool" where
  "ll_add_rule handled is_dir access \<longleftrightarrow> access \<noteq> {} \<and> access \<subseteq> handled \<and> (\<not> is_dir \<longrightarrow> access \<subseteq> ll_file_rights)"

type_synonym ll_rule = "bytes \<times> ll_right set"

definition ll_beneath :: "ll_kernel \<Rightarrow> bytes \<Rightarrow> ll_right set \<Rightarrow> ll_rule res" where
  "ll_beneath k path access =
     (case lk_open k path of None \<Rightarrow> Inl ''landlock open''
      | Some is_dir \<Rightarrow>
        let a = ll_access is_dir access in
        if ll_add_rule (ll_handled (lk_abi k)) is_dir a then Inr (path, a) else Inl ''landlock rule'')"

fun ll_rules :: "ll_kernel \<Rightarrow> bytes list \<Rightarrow> ll_rule list res" where
  "ll_rules k [] = Inr []"
| "ll_rules k (b # bs) =
     and_then (ll_beneath k b (ll_rw (lk_abi k))) (\<lambda>r. and_then (ll_rules k bs) (\<lambda>rs. Inr (r # rs)))"

definition lid_landlock :: "ll_kernel \<Rightarrow> bytes list \<Rightarrow> ll_rule list res" where
  "lid_landlock k binds =
     die_if (lk_abi k < 0) ''landlock unavailable'' (
     die_if (\<not> lk_ruleset k) ''landlock ruleset'' (
     and_then (ll_beneath k ''/'' (ll_root (lk_abi k))) (\<lambda>r.
     and_then (ll_rules k binds) (\<lambda>rs.
     die_if (\<not> lk_nnp k) ''nnp landlock'' (
     die_if (\<not> lk_restrict k) ''landlock restrict'' (Inr (r # rs)))))))"

text \<open>
  What a restricted process may do: an unhandled right everywhere, a handled one beneath a rule that
  grants it.
\<close>

definition ll_allows :: "(bytes \<Rightarrow> bytes \<Rightarrow> bool) \<Rightarrow> int \<Rightarrow> ll_rule list \<Rightarrow> bytes \<Rightarrow> ll_right \<Rightarrow> bool" where
  "ll_allows beneath abi rules path right \<longleftrightarrow>
     right \<notin> ll_handled abi \<or> (\<exists>(p, a)\<in>set rules. beneath path p \<and> right \<in> a)"

lemmas ll_defs = ll_handled_def ll_ro_def ll_rw_def ll_root_def ll_access_def ll_file_rights_def

lemma ll_rule_taken:
  "ll_add_rule (ll_handled abi) is_dir (ll_access is_dir (ll_rw abi))"
  "ll_add_rule (ll_handled abi) True (ll_access True (ll_root abi))"
  by (auto simp: ll_add_rule_def ll_defs)

lemma ll_rules_spec:
  "\<forall>b\<in>set binds. lk_open k b \<noteq> None \<Longrightarrow>
     ll_rules k binds = Inr (map (\<lambda>b. (b, ll_access (the (lk_open k b)) (ll_rw (lk_abi k)))) binds)"
  by (induction binds) (auto simp: ll_beneath_def ll_rule_taken Let_def)

lemma ll_rules_fails:
  "\<exists>b\<in>set binds. lk_open k b = None \<Longrightarrow> ll_rules k binds = Inl ''landlock open''"
proof (induction binds)
  case Nil
  then show ?case by simp
next
  case (Cons b bs)
  then show ?case by (cases "lk_open k b") (auto simp: ll_beneath_def ll_rule_taken Let_def)
qed

lemma landlock_grants:
  assumes "0 \<le> lk_abi k" "lk_ruleset k" "lk_nnp k" "lk_restrict k" "lk_open k ''/'' = Some True"
    and "\<And>path. beneath path ''/''"
  shows "if \<exists>b\<in>set binds. lk_open k b = None then lid_landlock k binds = Inl ''landlock open''
    else \<exists>rules. lid_landlock k binds = Inr rules
      \<and> (\<forall>path right. ll_allows beneath (lk_abi k) rules path right \<longleftrightarrow>
           (case right of
              Execute \<Rightarrow> True | ReadFile \<Rightarrow> True | ReadDir \<Rightarrow> True | WriteFile \<Rightarrow> True
            | MakeChar \<Rightarrow> False | MakeBlock \<Rightarrow> False
            | Truncate \<Rightarrow> lk_abi k < 3 \<or> (\<exists>b\<in>set binds. beneath path b)
            | _ \<Rightarrow> \<exists>b\<in>set binds. beneath path b \<and> lk_open k b = Some True))"
proof (cases "\<exists>b\<in>set binds. lk_open k b = None")
  case True
  then show ?thesis
    using assms by (simp add: lid_landlock_def die_if_def ll_beneath_def ll_rule_taken ll_rules_fails Let_def)
next
  case False
  let ?abi = "lk_abi k"
  let ?rules = "(''/'', ll_root ?abi) # map (\<lambda>b. (b, ll_access (the (lk_open k b)) (ll_rw ?abi))) binds"
  have run: "lid_landlock k binds = Inr ?rules"
    using False assms(1-5) ll_rule_taken(2) [of ?abi] ll_rules_spec [of binds k]
    by (simp add: lid_landlock_def die_if_def ll_beneath_def Let_def ll_access_def)
  have "ll_allows beneath ?abi ?rules path right \<longleftrightarrow>
      right \<notin> ll_handled ?abi \<or> right \<in> ll_root ?abi
      \<or> (\<exists>b\<in>set binds. beneath path b \<and> right \<in> ll_access (the (lk_open k b)) (ll_rw ?abi))" for path right
    using assms(6) by (auto simp: ll_allows_def)
  moreover have "the (lk_open k b) \<longleftrightarrow> lk_open k b = Some True" if "b \<in> set binds" for b
    using that False by auto
  ultimately show ?thesis
    using run False by (auto simp: ll_defs split: ll_right.split)
qed

text \<open>
  C24. The Landlock lid grants exactly what it says: where the kernel has Landlock and the root and every
  bind open, no rule of the lid is refused, and the restricted house may everywhere execute, read,
  list and write in place; make and remove files, directories, links, sockets and fifos only beneath
  a bind that is a directory; truncate only beneath a bind, unless the kernel is too old to know the
  right; and make device nodes nowhere. A bind that cannot be opened stops the house.
\<close>

theorem landlock_exact:
  assumes "0 \<le> lk_abi k" "lk_ruleset k" "lk_nnp k" "lk_restrict k" "lk_open k ''/'' = Some True"
    and "\<And>path. beneath path ''/''"
  shows "if \<exists>b\<in>set binds. lk_open k b = None then lid_landlock k binds = Inl ''landlock open''
    else \<exists>rules. lid_landlock k binds = Inr rules
      \<and> (\<forall>path right. ll_allows beneath (lk_abi k) rules path right \<longleftrightarrow>
           (case right of
              Execute \<Rightarrow> True | ReadFile \<Rightarrow> True | ReadDir \<Rightarrow> True | WriteFile \<Rightarrow> True
            | MakeChar \<Rightarrow> False | MakeBlock \<Rightarrow> False
            | Truncate \<Rightarrow> lk_abi k < 3 \<or> (\<exists>b\<in>set binds. beneath path b)
            | _ \<Rightarrow> \<exists>b\<in>set binds. beneath path b \<and> lk_open k b = Some True))"
  using assms by (rule landlock_grants)

text \<open>A house with a bound directory and a bound device file, on a kernel of ABI 3.\<close>

definition demo_ll :: ll_kernel where
  "demo_ll = \<lparr>lk_abi = 3, lk_ruleset = True,
     lk_open = [''/'' \<mapsto> True, ''/data'' \<mapsto> True, ''/dev/tty'' \<mapsto> False], lk_nnp = True, lk_restrict = True\<rparr>"

definition demo_beneath :: "bytes \<Rightarrow> bytes \<Rightarrow> bool" where
  "demo_beneath path root \<longleftrightarrow> root = ''/'' \<or> take (length root) path = root"

theorem landlock_exact_witness:
  "\<exists>rules. lid_landlock demo_ll [''/data'', ''/dev/tty''] = Inr rules
    \<and> ll_allows demo_beneath 3 rules ''/data/x'' MakeReg \<and> \<not> ll_allows demo_beneath 3 rules ''/lib/x'' Truncate
    \<and> ll_allows demo_beneath 3 rules ''/dev/tty'' Truncate \<and> \<not> ll_allows demo_beneath 3 rules ''/dev/tty'' MakeReg"
proof -
  have b: "demo_beneath ''/data/x'' ''/data''" "\<not> demo_beneath ''/lib/x'' ''/data''" "\<not> demo_beneath ''/lib/x'' ''/dev/tty''"
    "demo_beneath ''/dev/tty'' ''/dev/tty''" "\<not> demo_beneath ''/dev/tty'' ''/data''"
    by (simp_all add: demo_beneath_def)
  have k: "lk_abi demo_ll = 3" "lk_ruleset demo_ll" "lk_nnp demo_ll" "lk_restrict demo_ll" "lk_open demo_ll ''/'' = Some True"
    "lk_open demo_ll ''/data'' = Some True" "lk_open demo_ll ''/dev/tty'' = Some False"
    by (simp_all add: demo_ll_def)
  have "\<And>path. demo_beneath path ''/''" by (simp add: demo_beneath_def)
  then show ?thesis
    using landlock_exact [of demo_ll demo_beneath "[''/data'', ''/dev/tty'']"] k b by fastforce
qed

subsection \<open>Capabilities\<close>

text \<open>The sets of a process; \<^verbatim>\<open>capget\<close> and \<^verbatim>\<open>capset\<close> carry three of them in two halves of 32 bits.\<close>

record cap_state =
  cap_bounding :: u64
  cap_effective :: u64
  cap_permitted :: u64
  cap_inheritable :: u64

definition half :: "nat \<Rightarrow> u64 \<Rightarrow> u32" where
  "half w x = ucast (drop_bit (32 * w) x)"

definition halves :: "u32 \<Rightarrow> u32 \<Rightarrow> u64" where
  "halves lo hi = or (ucast lo) (push_bit 32 (ucast hi))"

text \<open>
  \<open>drop_ok b\<close>: \<^verbatim>\<open>PR_CAPBSET_DROP\<close> succeeds or fails with \<^verbatim>\<open>EINVAL\<close>, which is ignored; \<open>known b\<close>: it is a
  capability of the kernel, so it succeeds.
\<close>

record cap_kernel =
  ck_drop :: "nat \<Rightarrow> bool"
  ck_known :: "nat \<Rightarrow> bool"
  ck_get :: bool
  ck_set :: bool

definition cap_drop :: "cap_kernel \<Rightarrow> nat \<Rightarrow> cap_state \<Rightarrow> cap_state" where
  "cap_drop k b cs = (if ck_known k b then cs\<lparr>cap_bounding := and (cap_bounding cs) (not (push_bit b 1))\<rparr> else cs)"

fun cap_drops :: "cap_kernel \<Rightarrow> u64 \<Rightarrow> nat list \<Rightarrow> cap_state \<Rightarrow> cap_state res" where
  "cap_drops k caps [] cs = Inr cs"
| "cap_drops k caps (b # bs) cs =
     (if and caps (push_bit b 1) \<noteq> 0 then cap_drops k caps bs cs
      else if \<not> ck_drop k b then Inl ''capabilities: bounding set drop''
      else cap_drops k caps bs (cap_drop k b cs))"

definition cap_keep :: "u64 \<Rightarrow> u64 \<Rightarrow> u64" where
  "cap_keep caps x = halves (and (half 0 x) (half 0 (and caps 0xffffffff))) (and (half 1 x) (half 0 (drop_bit 32 caps)))"

definition apply_capabilities :: "cap_kernel \<Rightarrow> u64 \<Rightarrow> nat \<Rightarrow> cap_state \<Rightarrow> cap_state res" where
  "apply_capabilities k caps last_cap cs =
     and_then (cap_drops k caps [0..<Suc last_cap] cs) (\<lambda>cs1.
     die_if (\<not> ck_get k) ''capabilities: capget'' (
     die_if (\<not> ck_set k) ''capabilities: capset'' (
     Inr (cs1\<lparr>cap_effective := cap_keep caps (cap_effective cs1),
       cap_permitted := cap_keep caps (cap_permitted cs1),
       cap_inheritable := cap_keep caps (cap_inheritable cs1)\<rparr>))))"

text \<open>What a process of user 0 has after \<^verbatim>\<open>execve\<close>.\<close>

definition root_exec_permitted :: "cap_state \<Rightarrow> u64" where
  "root_exec_permitted cs = or (cap_inheritable cs) (cap_bounding cs)"

lemma low_mask: "(0xffffffff :: u64) = mask 32"
  by (simp add: mask_eq_exp_minus_1)

lemma cap_keep_eq: "cap_keep caps x = and x caps"
proof (rule bit_word_eqI)
  fix n
  assume n: "n < LENGTH(64)"
  show "bit (cap_keep caps x) n = bit (and x caps) n"
  proof (cases "n < 32")
    case True
    then show ?thesis
      by (simp add: cap_keep_def halves_def half_def low_mask bit_simps)
  next
    case False
    then have "n - 32 < 32" "32 + (n - 32) = n" "n - 32 < 64" using n by simp_all
    then show ?thesis using False n
      by (simp add: cap_keep_def halves_def half_def low_mask bit_simps)
  qed
qed

lemma cap_drops_spec:
  assumes "cap_drops k caps bs cs = Inr cs1" "\<forall>b\<in>set bs. b < 64 \<and> ck_known k b"
  shows "cap_effective cs1 = cap_effective cs \<and> cap_permitted cs1 = cap_permitted cs
    \<and> cap_inheritable cs1 = cap_inheritable cs
    \<and> (\<forall>n. bit (cap_bounding cs1) n \<longleftrightarrow> bit (cap_bounding cs) n \<and> (n \<in> set bs \<longrightarrow> bit caps n))"
  using assms
proof (induction bs arbitrary: cs)
  case Nil
  then show ?case by simp
next
  case (Cons b bs)
  have b: "and caps (push_bit b 1) \<noteq> 0 \<longleftrightarrow> bit caps b"
    using Cons.prems(2) by (simp add: bit_iff_and_push_bit_not_eq_0)
  show ?case
  proof (cases "bit caps b")
    case True
    then show ?thesis using Cons b by auto
  next
    case False
    then have "cap_drops k caps bs (cap_drop k b cs) = Inr cs1"
      using Cons.prems(1) b by (auto split: if_splits)
    note IH = Cons.IH [OF this]
    have "b < 64" "ck_known k b" using Cons.prems(2) by simp_all
    then have d: "bit (cap_bounding (cap_drop k b cs)) n \<longleftrightarrow> bit (cap_bounding cs) n \<and> n \<noteq> b" for n
      using bit_imp_le_length [of "cap_bounding cs" n] by (auto simp: cap_drop_def bit_simps)
    have "cap_effective (cap_drop k b cs) = cap_effective cs" "cap_permitted (cap_drop k b cs) = cap_permitted cs"
      "cap_inheritable (cap_drop k b cs) = cap_inheritable cs"
      by (simp_all add: cap_drop_def)
    with IH Cons.prems(2) have "cap_effective cs1 = cap_effective cs \<and> cap_permitted cs1 = cap_permitted cs
      \<and> cap_inheritable cs1 = cap_inheritable cs" by simp
    moreover have "bit (cap_bounding cs1) n \<longleftrightarrow> bit (cap_bounding cs) n \<and> (n \<in> set (b # bs) \<longrightarrow> bit caps n)" for n
      using IH Cons.prems(2) d [of n] False by (cases "n = b") simp_all
    ultimately show ?thesis by blast
  qed
qed

lemma capabilities_cut:
  assumes "apply_capabilities k caps last_cap cs = Inr cs'" "last_cap \<le> 63" "\<forall>b\<le>last_cap. ck_known k b"
  shows "cap_effective cs' = and (cap_effective cs) caps \<and> cap_permitted cs' = and (cap_permitted cs) caps
    \<and> cap_inheritable cs' = and (cap_inheritable cs) caps
    \<and> (\<forall>n. bit (cap_bounding cs') n \<longleftrightarrow> bit (cap_bounding cs) n \<and> (n \<le> last_cap \<longrightarrow> bit caps n))
    \<and> (\<forall>n\<le>last_cap. bit (root_exec_permitted cs') n \<longrightarrow> bit caps n)"
proof -
  obtain cs1 where cs1: "cap_drops k caps [0..<Suc last_cap] cs = Inr cs1"
    using assms(1) by (auto simp: apply_capabilities_def and_then_Inr simp del: upt_Suc)
  have "\<forall>b\<in>set [0..<Suc last_cap]. b < 64 \<and> ck_known k b" using assms(2,3) by auto
  note D = cap_drops_spec [OF cs1 this]
  have "cs' = cs1\<lparr>cap_effective := and (cap_effective cs1) caps, cap_permitted := and (cap_permitted cs1) caps,
      cap_inheritable := and (cap_inheritable cs1) caps\<rparr>"
    using assms(1) cs1 by (simp add: apply_capabilities_def die_if_def cap_keep_eq del: upt_Suc split: if_splits)
  then have e: "cap_effective cs' = and (cap_effective cs) caps" "cap_permitted cs' = and (cap_permitted cs) caps"
    "cap_inheritable cs' = and (cap_inheritable cs) caps" "cap_bounding cs' = cap_bounding cs1"
    using D by simp_all
  have b: "bit (cap_bounding cs') n \<longleftrightarrow> bit (cap_bounding cs) n \<and> (n \<le> last_cap \<longrightarrow> bit caps n)" for n
  proof -
    have "n \<in> set [0..<Suc last_cap] \<longleftrightarrow> n \<le> last_cap" by auto
    then show ?thesis using D unfolding e(4) by blast
  qed
  have "bit caps n" if "n \<le> last_cap" "bit (root_exec_permitted cs') n" for n
    using that b [of n] unfolding root_exec_permitted_def e(3) bit_or_iff bit_and_iff by blast
  then show ?thesis using e(1-3) b by blast
qed

text \<open>
  C25. The house keeps no capability its plan does not declare: when \<open>apply_capabilities\<close> returns, the
  effective, permitted and inheritable sets are exactly their old values cut to the declared set, the
  bounding set has lost exactly the undeclared capabilities up to the kernel's last one, and so has
  what user 0 is permitted after \<^verbatim>\<open>execve\<close>.
\<close>

theorem capabilities_exact:
  assumes "apply_capabilities k caps last_cap cs = Inr cs'" "last_cap \<le> 63" "\<forall>b\<le>last_cap. ck_known k b"
  shows "cap_effective cs' = and (cap_effective cs) caps \<and> cap_permitted cs' = and (cap_permitted cs) caps
    \<and> cap_inheritable cs' = and (cap_inheritable cs) caps
    \<and> (\<forall>n. bit (cap_bounding cs') n \<longleftrightarrow> bit (cap_bounding cs) n \<and> (n \<le> last_cap \<longrightarrow> bit caps n))
    \<and> (\<forall>n\<le>last_cap. bit (root_exec_permitted cs') n \<longrightarrow> bit caps n)"
  using assms by (rule capabilities_cut)

theorem capabilities_exact_witness:
  "\<exists>cs'. apply_capabilities \<lparr>ck_drop = \<lambda>_. True, ck_known = \<lambda>b. b \<le> 2, ck_get = True, ck_set = True\<rparr> 4 2
      \<lparr>cap_bounding = 7, cap_effective = 6, cap_permitted = 7, cap_inheritable = 1\<rparr> = Inr cs'
    \<and> cap_effective cs' = 4 \<and> cap_inheritable cs' = 0 \<and> \<not> bit (root_exec_permitted cs') 1"
proof -
  let ?k = "\<lparr>ck_drop = \<lambda>_. True, ck_known = \<lambda>b. b \<le> 2, ck_get = True, ck_set = True\<rparr>"
  let ?cs = "\<lparr>cap_bounding = 7, cap_effective = 6, cap_permitted = 7, cap_inheritable = 1\<rparr> :: cap_state"
  have drops: "cap_drops k caps bs cs \<noteq> Inl e" if "ck_drop k = (\<lambda>_. True)" for k caps bs cs e
    using that by (induction k caps bs cs rule: cap_drops.induct) auto
  obtain cs1 where "cap_drops ?k 4 [0..<Suc 2] ?cs = Inr cs1"
    using drops [of ?k 4 "[0..<Suc 2]" ?cs] by (cases "cap_drops ?k 4 [0..<Suc 2] ?cs") simp_all
  then obtain cs' where run: "apply_capabilities ?k 4 2 ?cs = Inr cs'"
    by (simp add: apply_capabilities_def die_if_def del: upt_Suc)
  have "\<not> bit (4 :: u64) 1" by code_simp
  moreover have "\<forall>n\<le>2. bit (root_exec_permitted cs') n \<longrightarrow> bit (4 :: u64) n"
    using capabilities_exact [OF run] by simp
  ultimately have "\<not> bit (root_exec_permitted cs') 1" by (metis one_le_numeral)
  then show ?thesis using capabilities_exact [OF run] run by simp
qed

end
