(* ===== verification/House.thy ===== *)
theory House
  imports Brick Confine Lids
begin

text \<open>
  The child that \<^verbatim>\<open>nwsup.c\<close> clones for a house, from its first line to \<^verbatim>\<open>execv\<close>. A step acts on the
  attributes of the calling process; the kernel's rules it runs into are written out: which capability a
  call needs, how many descriptors are left, and what an installed filter lets through.
\<close>

subsection \<open>The process and the kernel\<close>

definition CAP_SETPCAP :: nat where "CAP_SETPCAP = 8"
definition CAP_SYS_ADMIN :: nat where "CAP_SYS_ADMIN = 21"
definition CAP_SYS_NICE :: nat where "CAP_SYS_NICE = 23"
definition CAP_SYS_RESOURCE :: nat where "CAP_SYS_RESOURCE = 24"

text \<open>Signals with a handler and blocked ones, namespaces, scheduling, the limit, mounts, and the lids.\<close>

record process =
  p_caught :: "nat list"
  p_blocked :: "nat list"
  p_newnet :: bool
  p_newns :: bool
  p_cpus :: "nat list"
  p_policy :: u32
  p_nice :: int
  p_oom :: int
  p_nofile :: rlimit
  p_mounts :: mounts
  p_rules :: "ll_rule list option"
  p_caps :: cap_state
  p_conf :: confinement

text \<open>What the kernel answers where nothing else stands in the way.\<close>

record world =
  w_net :: bool
  w_ns :: bool
  w_cpus :: bool
  w_policy :: bool
  w_nice :: bool
  w_oom :: bool
  w_getrl :: bool
  w_setrl :: "rlimit \<Rightarrow> bool"
  w_brick :: brick_facts
  w_call :: "call \<Rightarrow> bool"
  w_ll :: ll_kernel
  w_caps :: cap_kernel
  w_cap_last :: nat
  w_nnp :: bool
  w_seccomp :: bool
  w_exec :: bool
  w_fds :: nat

definition has_cap :: "nat \<Rightarrow> process \<Rightarrow> bool" where
  "has_cap b p \<longleftrightarrow> bit (cap_effective (p_caps p)) b"

definition passes :: "process \<Rightarrow> u32 \<Rightarrow> bool" where
  "passes p nr \<longleftrightarrow> (case installed (p_conf p) of None \<Rightarrow> True
     | Some f \<Rightarrow> bpf_run f 0 0 (\<lambda>_. nr) = Some SECCOMP_RET_ALLOW)"

definition sys :: "u32 \<Rightarrow> bool \<Rightarrow> bytes \<Rightarrow> process \<Rightarrow> process \<Rightarrow> process res" where
  "sys nr works what p p' = die_if (\<not> passes p nr) ''SIGSYS'' (die_if (\<not> works) what (Inr p'))"

text \<open>The descriptors the process may still open; \<open>w_fds\<close> are open.\<close>

definition fd_room :: "world \<Rightarrow> process \<Rightarrow> nat" where
  "fd_room w p = unat (rlim_cur (p_nofile p)) - w_fds w"

text \<open>The numbers of the x86-64 kernel.\<close>

definition nr_setpriority :: u32 where "nr_setpriority = 141"
definition nr_sched_setscheduler :: u32 where "nr_sched_setscheduler = 144"
definition nr_prctl :: u32 where "nr_prctl = 157"
definition nr_mount :: u32 where "nr_mount = 165"
definition nr_sched_setaffinity :: u32 where "nr_sched_setaffinity = 203"
definition nr_unshare :: u32 where "nr_unshare = 272"
definition nr_landlock_create_ruleset :: u32 where "nr_landlock_create_ruleset = 444"

subsection \<open>The steps\<close>

definition reset_signals :: "process \<Rightarrow> process" where
  "reset_signals p = p\<lparr>p_caught := filter (\<lambda>s. s \<noteq> SIGTERM \<and> s \<noteq> SIGINT) (p_caught p), p_blocked := []\<rparr>"

definition lid_netns :: "world \<Rightarrow> process \<Rightarrow> process res" where
  "lid_netns w p = sys nr_unshare (has_cap CAP_SYS_ADMIN p \<and> w_net w) ''unshare net'' p (p\<lparr>p_newnet := True\<rparr>)"

definition lid_newns :: "world \<Rightarrow> process \<Rightarrow> process res" where
  "lid_newns w p = sys nr_unshare (has_cap CAP_SYS_ADMIN p \<and> w_ns w) ''unshare ns'' p (p\<lparr>p_newns := True\<rparr>)"

definition set_cpus :: "world \<Rightarrow> u64 \<Rightarrow> process \<Rightarrow> process res" where
  "set_cpus w cpu_mask p =
     (if cpu_mask = 0 then Inr p
      else sys nr_sched_setaffinity (w_cpus w) ''cpu mask'' p
        (p\<lparr>p_cpus := filter (\<lambda>b. and cpu_mask (push_bit b 1) \<noteq> 0) [0..<64]\<rparr>))"

definition SCHED_NORMAL :: u32 where "SCHED_NORMAL = 0"
definition SCHED_BATCH :: u32 where "SCHED_BATCH = 3"
definition SCHED_IDLE :: u32 where "SCHED_IDLE = 5"

definition real_policy :: "u32 \<Rightarrow> u32" where
  "real_policy sched_policy =
     (if sched_policy = ucast NW_SCHED_OTHER then SCHED_NORMAL
      else if sched_policy = ucast NW_SCHED_BATCH then SCHED_BATCH else SCHED_IDLE)"

definition set_policy :: "world \<Rightarrow> u32 \<Rightarrow> process \<Rightarrow> process res" where
  "set_policy w sched_policy p =
     (if sched_policy = ucast NW_SCHED_UNSET then Inr p
      else sys nr_sched_setscheduler (w_policy w) ''sched policy'' p (p\<lparr>p_policy := real_policy sched_policy\<rparr>))"

definition set_nice :: "world \<Rightarrow> int \<Rightarrow> process \<Rightarrow> process res" where
  "set_nice w nice_val p =
     (if nice_val = 0 then Inr p
      else sys nr_setpriority ((nice_val < p_nice p \<longrightarrow> has_cap CAP_SYS_NICE p) \<and> w_nice w) ''nice'' p
        (p\<lparr>p_nice := nice_val\<rparr>))"

text \<open>The kernel reads the decimal back; lowering below the floor needs a capability.\<close>

definition set_oom :: "world \<Rightarrow> int \<Rightarrow> process \<Rightarrow> process res" where
  "set_oom w oom p =
     (if oom = 0 then Inr p
      else let v = sint (atoi (snprintf 8 (dec_int oom))) in
        die_if (fd_room w p < 1 \<or> \<not> w_oom w \<or> (v < p_oom p \<and> \<not> has_cap CAP_SYS_RESOURCE p)) ''oom score adj''
          (Inr (p\<lparr>p_oom := v\<rparr>)))"

text \<open>Only a raise; the flag asks for the lowering later.\<close>

definition raise_nofile :: "world \<Rightarrow> u32 \<Rightarrow> process \<Rightarrow> (process \<times> bool) res" where
  "raise_nofile w nofile p =
     (let rl = p_nofile p; n = ucast nofile in
      if nofile = 0 then Inr (p, False)
      else die_if (\<not> w_getrl w) ''nofile getrlimit'' (
        if rlim_cur rl < n then
          let r1 = rl\<lparr>rlim_cur := n\<rparr>;
              r2 = (if rlim_max rl \<noteq> RLIM_INFINITY \<and> rlim_max rl < n then r1\<lparr>rlim_max := n\<rparr> else r1)
          in die_if (\<not> w_setrl w r2 \<or> (rlim_max rl < rlim_max r2 \<and> \<not> has_cap CAP_SYS_RESOURCE p)) ''nofile setrlimit''
               (Inr (p\<lparr>p_nofile := r2\<rparr>, False))
        else Inr (p, n < rlim_cur rl)))"

definition lower_nofile :: "world \<Rightarrow> u32 \<Rightarrow> bool \<Rightarrow> process \<Rightarrow> process res" where
  "lower_nofile w nofile lower p =
     (if \<not> lower then Inr p
      else die_if (\<not> w_getrl w) ''nofile getrlimit'' (
        let r = (p_nofile p)\<lparr>rlim_cur := ucast nofile\<rparr> in
        die_if (\<not> w_setrl w r) ''nofile setrlimit'' (Inr (p\<lparr>p_nofile := r\<rparr>))))"

text \<open>
  The lids in this process: two descriptors are open at once while a loop device is configured, while
  the roots are swapped and while a rule is added.
\<close>

definition loop_in :: "world \<Rightarrow> process \<Rightarrow> (nat \<Rightarrow> loop_try) \<Rightarrow> nat \<Rightarrow> loop_try" where
  "loop_in w p att k = (att k)\<lparr>lt_control := lt_control (att k) \<and> 2 \<le> fd_room w p,
     lt_device := lt_device (att k) \<and> 2 \<le> fd_room w p\<rparr>"

definition brick_in :: "world \<Rightarrow> process \<Rightarrow> brick_facts" where
  "brick_in w p = (w_brick w)\<lparr>bk_image := loop_in w p (bk_image (w_brick w)),
     bk_store := loop_in w p (bk_store (w_brick w))\<rparr>"

fun call_ok :: "world \<Rightarrow> process \<Rightarrow> call \<Rightarrow> bool" where
  "call_ok w p (Open path) \<longleftrightarrow> w_call w (Open path) \<and> (if path = NW_BRICK_MNT then 2 else 1) \<le> fd_room w p"
| "call_ok w p c \<longleftrightarrow> w_call w c \<and> has_cap CAP_SYS_ADMIN p"

definition brick_step :: "world \<Rightarrow> sup_cfg \<Rightarrow> process \<Rightarrow> process res" where
  "brick_step w c p =
     (case c_brick c of None \<Rightarrow> Inr p
      | Some brick \<Rightarrow> die_if (\<not> passes p nr_mount) ''SIGSYS'' (
          case perform (call_ok w p) (lid_brick (brick_in w p) brick (c_layer c) (c_layer_bytes c) (c_binds c)) of
            (cs, None) \<Rightarrow> Inr (p\<lparr>p_mounts := mounted cs\<rparr>)
          | (cs, Some e) \<Rightarrow> Inl e))"

definition ll_in :: "world \<Rightarrow> process \<Rightarrow> ll_kernel" where
  "ll_in w p = (w_ll w)\<lparr>lk_ruleset := lk_ruleset (w_ll w) \<and> 1 \<le> fd_room w p,
     lk_open := (\<lambda>path. if 2 \<le> fd_room w p then lk_open (w_ll w) path else None)\<rparr>"

definition landlock_step :: "world \<Rightarrow> sup_cfg \<Rightarrow> process \<Rightarrow> process res" where
  "landlock_step w c p =
     (if \<not> has_lid32 (c_lids c) NW_LID_LANDLOCK then Inr p
      else die_if (\<not> passes p nr_landlock_create_ruleset) ''SIGSYS'' (
        and_then (lid_landlock (ll_in w p) (c_binds c)) (\<lambda>rules.
          Inr (p\<lparr>p_rules := Some rules, p_conf := (p_conf p)\<lparr>no_new_privs := True\<rparr>\<rparr>))))"

definition caps_in :: "world \<Rightarrow> process \<Rightarrow> cap_kernel" where
  "caps_in w p = (w_caps w)\<lparr>ck_drop := (\<lambda>b. ck_drop (w_caps w) b \<and> has_cap CAP_SETPCAP p)\<rparr>"

definition caps_step :: "world \<Rightarrow> sup_cfg \<Rightarrow> process \<Rightarrow> process res" where
  "caps_step w c p =
     die_if (\<not> passes p nr_prctl) ''SIGSYS'' (
       and_then (apply_capabilities (caps_in w p) (c_capabilities c) (w_cap_last w) (p_caps p)) (\<lambda>cs.
         Inr (p\<lparr>p_caps := cs\<rparr>)))"

definition seccomp_step :: "world \<Rightarrow> sup_cfg \<Rightarrow> process \<Rightarrow> process res" where
  "seccomp_step w c p =
     (if \<not> has_lid32 (c_lids c) NW_LID_SECCOMP then Inr p
      else die_if (\<not> passes p nr_prctl) ''SIGSYS'' (
        case nw_apply_house_seccomp nr_x86_64 (w_nnp w) (w_seccomp w) (p_conf p) of (r, conf) \<Rightarrow>
          die_if (r < 0) ''house seccomp'' (Inr (p\<lparr>p_conf := conf\<rparr>))))"

text \<open>The process that becomes the house's program, with the arguments of \<^verbatim>\<open>execv\<close>.\<close>

definition house_start :: "world \<Rightarrow> sup_cfg \<Rightarrow> process \<Rightarrow> (bytes \<times> bytes list \<times> process) res" where
  "house_start w c p =
     (let p0 = reset_signals p in
      and_then (if has_lid32 (c_lids c) NW_LID_NEWNET then lid_netns w p0 else Inr p0) (\<lambda>p1.
      and_then (if has_lid32 (c_lids c) NW_LID_NEWNS then lid_newns w p1 else Inr p1) (\<lambda>p2.
      and_then (set_cpus w (c_cpu_mask c) p2) (\<lambda>p3.
      and_then (set_policy w (c_sched_policy c) p3) (\<lambda>p4.
      and_then (set_nice w (c_nice c) p4) (\<lambda>p5.
      and_then (set_oom w (c_oom_score_adj c) p5) (\<lambda>p6.
      and_then (raise_nofile w (c_nofile c) p6) (\<lambda>(p7, lower).
      and_then (brick_step w c p7) (\<lambda>p8.
      and_then (landlock_step w c p8) (\<lambda>p9.
      and_then (caps_step w c p9) (\<lambda>p10.
      and_then (lower_nofile w (c_nofile c) lower p10) (\<lambda>p11.
      and_then (seccomp_step w c p11) (\<lambda>p12.
      and_then (sys (nr_x86_64 NR_execve) (w_exec w) ''exec house'' p12 p12) (\<lambda>p13.
      Inr (c_path c, [c_name c], p13)))))))))))))))"

subsection \<open>What each step leaves\<close>

lemma netns_Inr: "(if d then lid_netns w p else Inr p) = Inr p' \<longleftrightarrow>
    p' = p\<lparr>p_newnet := p_newnet p \<or> d\<rparr> \<and> (d \<longrightarrow> passes p nr_unshare \<and> has_cap CAP_SYS_ADMIN p \<and> w_net w)"
  by (auto simp: lid_netns_def sys_def die_if_def)

lemma newns_Inr: "(if d then lid_newns w p else Inr p) = Inr p' \<longleftrightarrow>
    p' = p\<lparr>p_newns := p_newns p \<or> d\<rparr> \<and> (d \<longrightarrow> passes p nr_unshare \<and> has_cap CAP_SYS_ADMIN p \<and> w_ns w)"
  by (auto simp: lid_newns_def sys_def die_if_def)

definition mask_cpus :: "u64 \<Rightarrow> nat list" where
  "mask_cpus m = filter (bit m) [0..<64]"

lemma cpus_Inr: "set_cpus w m p = Inr p' \<longleftrightarrow>
    p' = p\<lparr>p_cpus := if m = 0 then p_cpus p else mask_cpus m\<rparr> \<and> (m \<noteq> 0 \<longrightarrow> passes p nr_sched_setaffinity \<and> w_cpus w)"
proof -
  have "(\<lambda>b. and m (push_bit b 1) \<noteq> 0) = bit m" by (simp add: fun_eq_iff bit_iff_and_push_bit_not_eq_0)
  then show ?thesis by (auto simp: set_cpus_def sys_def die_if_def mask_cpus_def)
qed

lemma policy_Inr: "set_policy w s p = Inr p' \<longleftrightarrow>
    p' = p\<lparr>p_policy := if s = 0 then p_policy p else real_policy s\<rparr>
    \<and> (s \<noteq> 0 \<longrightarrow> passes p nr_sched_setscheduler \<and> w_policy w)"
  by (auto simp: set_policy_def sys_def die_if_def NW_SCHED_UNSET_def)

lemma nice_Inr: "set_nice w n p = Inr p' \<longleftrightarrow>
    p' = p\<lparr>p_nice := if n = 0 then p_nice p else n\<rparr>
    \<and> (n \<noteq> 0 \<longrightarrow> passes p nr_setpriority \<and> w_nice w \<and> (n < p_nice p \<longrightarrow> has_cap CAP_SYS_NICE p))"
  by (auto simp: set_nice_def sys_def die_if_def)

lemma oom_Inr:
  assumes "NW_OOM_ADJ_MIN \<le> n" "n \<le> NW_OOM_ADJ_MAX"
  shows "set_oom w n p = Inr p' \<longleftrightarrow>
    p' = p\<lparr>p_oom := if n = 0 then p_oom p else n\<rparr>
    \<and> (n \<noteq> 0 \<longrightarrow> 1 \<le> fd_room w p \<and> w_oom w \<and> (n < p_oom p \<longrightarrow> has_cap CAP_SYS_RESOURCE p))"
proof -
  have "sint (atoi (snprintf 8 (dec_int n))) = n"
    using assms
    by (simp add: snprintf8_dec_int atoi_dec_int signed_of_int signed_take_bit_int_eq_self NW_OOM_ADJ_MIN_def
        NW_OOM_ADJ_MAX_def)
  then show ?thesis by (auto simp: set_oom_def die_if_def not_less)
qed

text \<open>What the declared limit leaves of the inherited one.\<close>

definition nofile_cut :: "u32 \<Rightarrow> rlimit \<Rightarrow> rlimit" where
  "nofile_cut n rl =
     (if n = 0 then rl
      else rl\<lparr>rlim_cur := ucast n,
        rlim_max := if rlim_cur rl < ucast n \<and> rlim_max rl \<noteq> RLIM_INFINITY \<and> rlim_max rl < ucast n
          then ucast n else rlim_max rl\<rparr>)"

lemma raise_Inr:
  "raise_nofile w n p = Inr (p', lower) \<Longrightarrow>
     p' = p\<lparr>p_nofile := if lower then p_nofile p else nofile_cut n (p_nofile p)\<rparr>
     \<and> (lower \<longleftrightarrow> n \<noteq> 0 \<and> ucast n < rlim_cur (p_nofile p))"
proof (cases "n = 0 \<or> \<not> rlim_cur (p_nofile p) < ucast n")
  case True
  assume "raise_nofile w n p = Inr (p', lower)"
  with True have "p' = p \<and> (lower \<longleftrightarrow> n \<noteq> 0 \<and> ucast n < rlim_cur (p_nofile p))"
  proof (cases "n = 0")
    case True
    with \<open>raise_nofile w n p = Inr (p', lower)\<close> show ?thesis by (simp add: raise_nofile_def)
  next
    case False
    with True have "\<not> rlim_cur (p_nofile p) < ucast n" by simp
    with False \<open>raise_nofile w n p = Inr (p', lower)\<close> show ?thesis
      by (auto simp: raise_nofile_def die_if_Inr)
  qed
  then have pp: "p' = p" and lower: "lower \<longleftrightarrow> n \<noteq> 0 \<and> ucast n < rlim_cur (p_nofile p)" by simp_all
  moreover note pp
  moreover have "nofile_cut n (p_nofile p) = p_nofile p" if "\<not> lower"
  proof -
    have "n = 0 \<or> rlim_cur (p_nofile p) = ucast n" using True lower that by auto
    then show ?thesis by (cases "p_nofile p") (auto simp: nofile_cut_def)
  qed
  ultimately show ?thesis by simp
next
  case False
  let ?rl = "p_nofile p"
  assume "raise_nofile w n p = Inr (p', lower)"
  with False have "lower = False" "p' = p\<lparr>p_nofile := (if rlim_max ?rl \<noteq> RLIM_INFINITY \<and> rlim_max ?rl < ucast n
      then ?rl\<lparr>rlim_cur := ucast n, rlim_max := ucast n\<rparr> else ?rl\<lparr>rlim_cur := ucast n\<rparr>)\<rparr>"
    by (simp_all add: raise_nofile_def die_if_Inr Let_def)
  then show ?thesis using False by (auto simp: nofile_cut_def)
qed

lemma lower_Inr:
  "lower_nofile w n lower p = Inr p' \<Longrightarrow> lower \<longrightarrow> n \<noteq> 0 \<and> ucast n < rlim_cur (p_nofile p) \<Longrightarrow>
     p' = p\<lparr>p_nofile := if lower then nofile_cut n (p_nofile p) else p_nofile p\<rparr>"
  by (auto simp: lower_nofile_def die_if_def Let_def nofile_cut_def split: if_splits)

lemma brick_Inr:
  assumes "brick_step w c p = Inr p'"
  shows "\<exists>ms. p' = p\<lparr>p_mounts := ms\<rparr> \<and> (c_brick c = None \<longrightarrow> ms = p_mounts p)
    \<and> (c_brick c \<noteq> None \<longrightarrow> (\<exists>cs. perform (call_ok w p) (lid_brick (brick_in w p) (the (c_brick c)) (c_layer c)
         (c_layer_bytes c) (c_binds c)) = (cs, None) \<and> ms = mounted cs))"
proof (cases "c_brick c")
  case None
  then show ?thesis using assms by (intro exI [of _ "p_mounts p"]) (simp add: brick_step_def)
next
  case (Some brick)
  then show ?thesis
    using assms by (auto simp: brick_step_def die_if_def split: prod.splits option.splits if_splits)
qed

lemma rules_of_binds:
  "ll_rules k binds = Inr rules \<Longrightarrow> map fst rules = binds"
  by (induction binds arbitrary: rules)
    (auto simp: and_then_Inr ll_beneath_def die_if_def Let_def split: option.splits if_splits)

lemma rules_of_lid:
  "lid_landlock k binds = Inr rules \<Longrightarrow> map fst rules = ''/'' # binds"
  by (auto simp: lid_landlock_def die_if_Inr and_then_Inr ll_beneath_def Let_def dest!: rules_of_binds
      split: option.splits if_splits)

lemma landlock_Inr:
  assumes "landlock_step w c p = Inr p'"
  shows "\<exists>rs conf. p' = p\<lparr>p_rules := rs, p_conf := conf\<rparr> \<and> installed conf = installed (p_conf p)
    \<and> (if has_lid32 (c_lids c) NW_LID_LANDLOCK
        then no_new_privs conf \<and> (\<exists>rules. rs = Some rules \<and> map fst rules = ''/'' # c_binds c)
        else rs = p_rules p \<and> conf = p_conf p)"
proof (cases "has_lid32 (c_lids c) NW_LID_LANDLOCK")
  case False
  then show ?thesis
    using assms by (intro exI [of _ "p_rules p"] exI [of _ "p_conf p"]) (simp add: landlock_step_def)
next
  case True
  then obtain rules where "lid_landlock (ll_in w p) (c_binds c) = Inr rules"
    "p' = p\<lparr>p_rules := Some rules, p_conf := (p_conf p)\<lparr>no_new_privs := True\<rparr>\<rparr>"
    using assms by (auto simp: landlock_step_def die_if_Inr and_then_Inr)
  then show ?thesis
    using True rules_of_lid
    by (intro exI [of _ "Some rules"] exI [of _ "(p_conf p)\<lparr>no_new_privs := True\<rparr>"]) simp
qed

lemma caps_Inr:
  "caps_step w c p = Inr p' \<Longrightarrow> \<exists>cs. p' = p\<lparr>p_caps := cs\<rparr>
     \<and> apply_capabilities (caps_in w p) (c_capabilities c) (w_cap_last w) (p_caps p) = Inr cs"
  by (auto simp: caps_step_def die_if_Inr and_then_Inr)

lemma seccomp_Inr:
  assumes "seccomp_step w c p = Inr p'"
  shows "\<exists>conf. p' = p\<lparr>p_conf := conf\<rparr>
    \<and> (if has_lid32 (c_lids c) NW_LID_SECCOMP
        then no_new_privs conf \<and> installed conf = Some (emit_filter (map nr_x86_64 strict_allow))
        else conf = p_conf p)"
proof (cases "has_lid32 (c_lids c) NW_LID_SECCOMP")
  case False
  then show ?thesis using assms by (intro exI [of _ "p_conf p"]) (simp add: seccomp_step_def)
next
  case True
  obtain r conf where rc: "nw_apply_house_seccomp nr_x86_64 (w_nnp w) (w_seccomp w) (p_conf p) = (r, conf)"
    by fastforce
  with True assms have "\<not> r < 0" "p' = p\<lparr>p_conf := conf\<rparr>"
    by (auto simp: seccomp_step_def die_if_Inr)
  then show ?thesis using True apply_house_seccomp_result [OF rc] by auto
qed

lemmas step_Inr = netns_Inr newns_Inr cpus_Inr policy_Inr nice_Inr


lemma house_start_steps:
  assumes "house_start w c p = Inr (path, args, q)"
  shows "\<exists>p1 p2 p3 p4 p5 p6 p7 lower p8 p9 p10 p11.
    (if has_lid32 (c_lids c) NW_LID_NEWNET then lid_netns w (reset_signals p) else Inr (reset_signals p)) = Inr p1
    \<and> (if has_lid32 (c_lids c) NW_LID_NEWNS then lid_newns w p1 else Inr p1) = Inr p2
    \<and> set_cpus w (c_cpu_mask c) p2 = Inr p3 \<and> set_policy w (c_sched_policy c) p3 = Inr p4
    \<and> set_nice w (c_nice c) p4 = Inr p5 \<and> set_oom w (c_oom_score_adj c) p5 = Inr p6
    \<and> raise_nofile w (c_nofile c) p6 = Inr (p7, lower) \<and> brick_step w c p7 = Inr p8
    \<and> landlock_step w c p8 = Inr p9 \<and> caps_step w c p9 = Inr p10
    \<and> lower_nofile w (c_nofile c) lower p10 = Inr p11 \<and> seccomp_step w c p11 = Inr q
    \<and> passes q (nr_x86_64 NR_execve) \<and> w_exec w \<and> path = c_path c \<and> args = [c_name c]"
  using assms
  unfolding house_start_def Let_def and_then_Inr split_paired_Ex prod.case sys_def die_if_Inr sum.inject prod.inject
  by blast

text \<open>The child as the steps before its descriptor limit leave it.\<close>

definition placed :: "sup_cfg \<Rightarrow> process \<Rightarrow> process" where
  "placed c p = (reset_signals p)
    \<lparr>p_newnet := p_newnet p \<or> has_lid32 (c_lids c) NW_LID_NEWNET,
     p_newns := p_newns p \<or> has_lid32 (c_lids c) NW_LID_NEWNS,
     p_cpus := if c_cpu_mask c = 0 then p_cpus p else mask_cpus (c_cpu_mask c),
     p_policy := if c_sched_policy c = 0 then p_policy p else real_policy (c_sched_policy c),
     p_nice := if c_nice c = 0 then p_nice p else c_nice c,
     p_oom := if c_oom_score_adj c = 0 then p_oom p else c_oom_score_adj c\<rparr>"

lemma placed_run:
  assumes "(if has_lid32 (c_lids c) NW_LID_NEWNET then lid_netns w (reset_signals p) else Inr (reset_signals p)) = Inr p1"
    and "(if has_lid32 (c_lids c) NW_LID_NEWNS then lid_newns w p1 else Inr p1) = Inr p2"
    and "set_cpus w (c_cpu_mask c) p2 = Inr p3" "set_policy w (c_sched_policy c) p3 = Inr p4"
    and "set_nice w (c_nice c) p4 = Inr p5" "set_oom w (c_oom_score_adj c) p5 = Inr p6"
    and "NW_OOM_ADJ_MIN \<le> c_oom_score_adj c" "c_oom_score_adj c \<le> NW_OOM_ADJ_MAX"
  shows "p6 = placed c p"
  using assms(1-6) unfolding step_Inr oom_Inr [OF assms(7,8)] by (simp add: reset_signals_def placed_def)

lemma placed_keeps [simp]:
  "p_caps (placed c p) = p_caps p" "p_conf (placed c p) = p_conf p" "p_nofile (placed c p) = p_nofile p"
  "p_mounts (placed c p) = p_mounts p" "p_rules (placed c p) = p_rules p"
  by (simp_all add: placed_def reset_signals_def)

text \<open>The two halves of the descriptor limit, around the lids, come to one cut.\<close>

lemma nofile_settled:
  assumes "raise_nofile w n p = Inr (p', lower)" "lower_nofile w n lower q = Inr q'" "p_nofile q = p_nofile p'"
  shows "q' = q\<lparr>p_nofile := nofile_cut n (p_nofile p)\<rparr>"
proof -
  note r = raise_Inr [OF assms(1)]
  have q: "p_nofile q = (if lower then p_nofile p else nofile_cut n (p_nofile p))" using r assms(3) by simp
  have "lower \<longrightarrow> n \<noteq> 0 \<and> ucast n < rlim_cur (p_nofile q)" using r q by simp
  from lower_Inr [OF assms(2) this] q show ?thesis by (cases lower) simp_all
qed

text \<open>The brick lid leaves the mounts of its calls, which start and end the same way in every house.\<close>

lemma brick_mounted:
  assumes "brick_step w c p = Inr p'"
  shows "\<exists>ms. p' = p\<lparr>p_mounts := ms\<rparr> \<and> (case c_brick c of None \<Rightarrow> ms = p_mounts p
     | Some brick \<Rightarrow> \<exists>r mid. perform (call_ok w r) (lid_brick (brick_in w r) brick (c_layer c) (c_layer_bytes c)
           (c_binds c)) = (Mount [] ''/'' [] [Rec, Private] [] # mid @ pivot_calls, None)
         \<and> ms = mounted (Mount [] ''/'' [] [Rec, Private] [] # mid @ pivot_calls))"
proof -
  obtain ms where ms: "p' = p\<lparr>p_mounts := ms\<rparr>" "c_brick c = None \<longrightarrow> ms = p_mounts p"
    "c_brick c \<noteq> None \<longrightarrow> (\<exists>cs. perform (call_ok w p) (lid_brick (brick_in w p) (the (c_brick c)) (c_layer c)
       (c_layer_bytes c) (c_binds c)) = (cs, None) \<and> ms = mounted cs)"
    using brick_Inr [OF assms] by (elim exE conjE) (rule that)
  show ?thesis
  proof (cases "c_brick c")
    case None
    with ms(1,2) show ?thesis by (intro exI [of _ ms]) simp
  next
    case (Some brick)
    with ms(3) obtain calls where b: "perform (call_ok w p) (lid_brick (brick_in w p) brick (c_layer c)
        (c_layer_bytes c) (c_binds c)) = (calls, None)" "ms = mounted calls" by auto
    obtain mid where "calls = Mount [] ''/'' [] [Rec, Private] [] # mid @ pivot_calls"
      using brick_run [OF b(1)] by blast
    with b ms(1) Some show ?thesis by (simp only: option.case) blast
  qed
qed

lemma confined:
  assumes run: "house_start w c p = Inr (path, args, q)"
    and "NW_OOM_ADJ_MIN \<le> c_oom_score_adj c" "c_oom_score_adj c \<le> NW_OOM_ADJ_MAX"
    and "w_cap_last w \<le> 63" "\<forall>b\<le>w_cap_last w. ck_known (w_caps w) b"
  shows "path = c_path c \<and> args = [c_name c]
    \<and> p_blocked q = [] \<and> SIGTERM \<notin> set (p_caught q) \<and> SIGINT \<notin> set (p_caught q)
    \<and> p_newnet q = (p_newnet p \<or> has_lid32 (c_lids c) NW_LID_NEWNET)
    \<and> p_newns q = (p_newns p \<or> has_lid32 (c_lids c) NW_LID_NEWNS)
    \<and> p_cpus q = (if c_cpu_mask c = 0 then p_cpus p else mask_cpus (c_cpu_mask c))
    \<and> p_policy q = (if c_sched_policy c = 0 then p_policy p else real_policy (c_sched_policy c))
    \<and> p_nice q = (if c_nice c = 0 then p_nice p else c_nice c)
    \<and> p_oom q = (if c_oom_score_adj c = 0 then p_oom p else c_oom_score_adj c)
    \<and> p_nofile q = nofile_cut (c_nofile c) (p_nofile p)
    \<and> (case c_brick c of None \<Rightarrow> p_mounts q = p_mounts p
       | Some brick \<Rightarrow> \<exists>r mid. perform (call_ok w r) (lid_brick (brick_in w r) brick (c_layer c) (c_layer_bytes c)
             (c_binds c)) = (Mount [] ''/'' [] [Rec, Private] [] # mid @ pivot_calls, None)
           \<and> p_mounts q = mounted (Mount [] ''/'' [] [Rec, Private] [] # mid @ pivot_calls))
    \<and> (if has_lid32 (c_lids c) NW_LID_LANDLOCK
       then no_new_privs (p_conf q) \<and> (\<exists>rules. p_rules q = Some rules \<and> map fst rules = ''/'' # c_binds c)
       else p_rules q = p_rules p)
    \<and> cap_effective (p_caps q) = and (cap_effective (p_caps p)) (c_capabilities c)
    \<and> cap_permitted (p_caps q) = and (cap_permitted (p_caps p)) (c_capabilities c)
    \<and> cap_inheritable (p_caps q) = and (cap_inheritable (p_caps p)) (c_capabilities c)
    \<and> (\<forall>n\<le>w_cap_last w. bit (root_exec_permitted (p_caps q)) n \<longrightarrow> bit (c_capabilities c) n)
    \<and> (if has_lid32 (c_lids c) NW_LID_SECCOMP
       then no_new_privs (p_conf q) \<and> installed (p_conf q) = Some (emit_filter (map nr_x86_64 strict_allow))
       else installed (p_conf q) = installed (p_conf p))"
proof -
  let ?d = "has_lid32 (c_lids c)"
  obtain p1 p2 p3 p4 p5 p6 p7 p8 p9 p10 p11 lower where
      "(if ?d NW_LID_NEWNET then lid_netns w (reset_signals p) else Inr (reset_signals p)) = Inr p1"
      "(if ?d NW_LID_NEWNS then lid_newns w p1 else Inr p1) = Inr p2"
      "set_cpus w (c_cpu_mask c) p2 = Inr p3" "set_policy w (c_sched_policy c) p3 = Inr p4"
      "set_nice w (c_nice c) p4 = Inr p5" "set_oom w (c_oom_score_adj c) p5 = Inr p6"
      and raise: "raise_nofile w (c_nofile c) p6 = Inr (p7, lower)" and p8: "brick_step w c p7 = Inr p8"
      and p9: "landlock_step w c p8 = Inr p9" and p10: "caps_step w c p9 = Inr p10"
      and p11: "lower_nofile w (c_nofile c) lower p10 = Inr p11" and q: "seccomp_step w c p11 = Inr q"
      and pa: "path = c_path c" "args = [c_name c]"
    using house_start_steps [OF run] by blast
  then have p6: "p6 = placed c p" using assms(2,3) by (intro placed_run)
  note p7 = raise_Inr [OF raise, unfolded p6 placed_keeps]
  obtain ms where ms: "p8 = p7\<lparr>p_mounts := ms\<rparr>"
    and mounts: "case c_brick c of None \<Rightarrow> ms = p_mounts p7
     | Some brick \<Rightarrow> \<exists>r mid. perform (call_ok w r) (lid_brick (brick_in w r) brick (c_layer c) (c_layer_bytes c)
           (c_binds c)) = (Mount [] ''/'' [] [Rec, Private] [] # mid @ pivot_calls, None)
         \<and> ms = mounted (Mount [] ''/'' [] [Rec, Private] [] # mid @ pivot_calls)"
    using brick_mounted [OF p8] by (elim exE conjE) (rule that)
  obtain rs conf where ll: "p9 = p8\<lparr>p_rules := rs, p_conf := conf\<rparr>" "installed conf = installed (p_conf p8)"
    "if ?d NW_LID_LANDLOCK then no_new_privs conf \<and> (\<exists>rules. rs = Some rules \<and> map fst rules = ''/'' # c_binds c)
     else rs = p_rules p8 \<and> conf = p_conf p8"
    using landlock_Inr [OF p9] by (elim exE conjE) (rule that)
  obtain cs where cs: "p10 = p9\<lparr>p_caps := cs\<rparr>"
    "apply_capabilities (caps_in w p9) (c_capabilities c) (w_cap_last w) (p_caps p9) = Inr cs"
    using caps_Inr [OF p10] by (elim exE conjE) (rule that)
  obtain conf' where sc: "q = p11\<lparr>p_conf := conf'\<rparr>"
    "if ?d NW_LID_SECCOMP then no_new_privs conf' \<and> installed conf' = Some (emit_filter (map nr_x86_64 strict_allow))
     else conf' = p_conf p11"
    using seccomp_Inr [OF q] by (elim exE conjE) (rule that)
  have p11': "p11 = p10\<lparr>p_nofile := nofile_cut (c_nofile c) (p_nofile p)\<rparr>"
    using nofile_settled [OF raise p11] by (simp add: cs ll(1) ms p6)
  have pc: "p_caps p9 = p_caps p" using p7 by (simp add: ll(1) ms)
  have "\<forall>b\<le>w_cap_last w. ck_known (caps_in w p9) b" using assms(5) by (simp add: caps_in_def)
  note caps = capabilities_cut [OF cs(2) assms(4) this, unfolded pc]
  have m7: "p_mounts p7 = p_mounts p" using p7 by simp
  note Q = sc(1) p11' cs(1) ll(1) ms conjunct1 [OF p7]
  have lids: "if ?d NW_LID_LANDLOCK
     then no_new_privs (p_conf q) \<and> (\<exists>rules. p_rules q = Some rules \<and> map fst rules = ''/'' # c_binds c)
     else p_rules q = p_rules p"
    "if ?d NW_LID_SECCOMP
     then no_new_privs (p_conf q) \<and> installed (p_conf q) = Some (emit_filter (map nr_x86_64 strict_allow))
     else installed (p_conf q) = installed (p_conf p)"
    using ll(2,3) sc(2) by (simp_all add: Q split: if_splits)
  have fields: "p_blocked q = []" "SIGTERM \<notin> set (p_caught q)" "SIGINT \<notin> set (p_caught q)" 
    "p_newnet q = (p_newnet p \<or> ?d NW_LID_NEWNET)" "p_newns q = (p_newns p \<or> ?d NW_LID_NEWNS)"
    "p_cpus q = (if c_cpu_mask c = 0 then p_cpus p else mask_cpus (c_cpu_mask c))"
    "p_policy q = (if c_sched_policy c = 0 then p_policy p else real_policy (c_sched_policy c))"
    "p_nice q = (if c_nice c = 0 then p_nice p else c_nice c)"
    "p_oom q = (if c_oom_score_adj c = 0 then p_oom p else c_oom_score_adj c)"
    "p_nofile q = nofile_cut (c_nofile c) (p_nofile p)" "p_mounts q = ms" "p_caps q = cs"
    by (simp_all add: Q placed_def reset_signals_def)
  show ?thesis unfolding fields(11,12) using pa fields(1-10) mounts [unfolded m7] lids caps by (intro conjI) blast+
qed

text \<open>
  C17. A house's program runs only behind everything its plan declares, and behind nothing else: if the
  child reaches \<^verbatim>\<open>execv\<close> then it executes the unit's path under the unit's name, with no signal blocked
  and the supervisor's handlers gone; it has its own network and mounts just if asked; its processors,
  scheduling class, nice value, oom adjustment and descriptor limit are the declared ones, or the
  inherited ones where none is declared; a declared brick's lid ran to its end, so that its root is the
  one pivoted to; a declared Landlock lid has one rule for the root and one for every bind and the
  process can gain no privileges; its effective, permitted and inheritable capabilities are the
  supervisor's cut to the declared set, and what the program may regain is declared; and the seccomp
  filter is installed just if declared.
\<close>

theorem house_confined:
  assumes run: "house_start w c p = Inr (path, args, q)"
    and "NW_OOM_ADJ_MIN \<le> c_oom_score_adj c" "c_oom_score_adj c \<le> NW_OOM_ADJ_MAX"
    and "w_cap_last w \<le> 63" "\<forall>b\<le>w_cap_last w. ck_known (w_caps w) b"
  shows "path = c_path c \<and> args = [c_name c]
    \<and> p_blocked q = [] \<and> SIGTERM \<notin> set (p_caught q) \<and> SIGINT \<notin> set (p_caught q)
    \<and> p_newnet q = (p_newnet p \<or> has_lid32 (c_lids c) NW_LID_NEWNET)
    \<and> p_newns q = (p_newns p \<or> has_lid32 (c_lids c) NW_LID_NEWNS)
    \<and> p_cpus q = (if c_cpu_mask c = 0 then p_cpus p else mask_cpus (c_cpu_mask c))
    \<and> p_policy q = (if c_sched_policy c = 0 then p_policy p else real_policy (c_sched_policy c))
    \<and> p_nice q = (if c_nice c = 0 then p_nice p else c_nice c)
    \<and> p_oom q = (if c_oom_score_adj c = 0 then p_oom p else c_oom_score_adj c)
    \<and> p_nofile q = nofile_cut (c_nofile c) (p_nofile p)
    \<and> (case c_brick c of None \<Rightarrow> p_mounts q = p_mounts p
       | Some brick \<Rightarrow> \<exists>r mid. perform (call_ok w r) (lid_brick (brick_in w r) brick (c_layer c) (c_layer_bytes c)
             (c_binds c)) = (Mount [] ''/'' [] [Rec, Private] [] # mid @ pivot_calls, None)
           \<and> p_mounts q = mounted (Mount [] ''/'' [] [Rec, Private] [] # mid @ pivot_calls))
    \<and> (if has_lid32 (c_lids c) NW_LID_LANDLOCK
       then no_new_privs (p_conf q) \<and> (\<exists>rules. p_rules q = Some rules \<and> map fst rules = ''/'' # c_binds c)
       else p_rules q = p_rules p)
    \<and> cap_effective (p_caps q) = and (cap_effective (p_caps p)) (c_capabilities c)
    \<and> cap_permitted (p_caps q) = and (cap_permitted (p_caps p)) (c_capabilities c)
    \<and> cap_inheritable (p_caps q) = and (cap_inheritable (p_caps p)) (c_capabilities c)
    \<and> (\<forall>n\<le>w_cap_last w. bit (root_exec_permitted (p_caps q)) n \<longrightarrow> bit (c_capabilities c) n)
    \<and> (if has_lid32 (c_lids c) NW_LID_SECCOMP
       then no_new_privs (p_conf q) \<and> installed (p_conf q) = Some (emit_filter (map nr_x86_64 strict_allow))
       else installed (p_conf q) = installed (p_conf p))"
  using assms by (rule confined)

subsection \<open>The order of the steps suffices\<close>

lemma enough_fds:
  assumes "2 \<le> fd_room w p"
  shows "brick_in w p = w_brick w" "ll_in w p = w_ll w"
proof -
  have "loop_in w p att = att" for att using assms by (simp add: loop_in_def fun_eq_iff)
  then show "brick_in w p = w_brick w" "ll_in w p = w_ll w" using assms by (simp_all add: brick_in_def ll_in_def)
qed

lemma calls_ok:
  assumes "2 \<le> fd_room w p" "has_cap CAP_SYS_ADMIN p" "\<forall>c. w_call w c"
  shows "call_ok w p = (\<lambda>_. True)"
proof
  show "call_ok w p c = True" for c using assms by (cases c) simp_all
qed

lemma execve_passes:
  "installed (p_conf q) = None \<or> installed (p_conf q) = Some (emit_filter (map nr_x86_64 strict_allow)) \<Longrightarrow>
     passes q (nr_x86_64 NR_execve)"
proof -
  have "length (map nr_x86_64 strict_allow) \<le> 255" using NALLOW_val by (simp add: NALLOW_def)
  moreover have "nr_x86_64 NR_execve \<in> set (map nr_x86_64 strict_allow)" by (simp add: strict_allow_def)
  ultimately show ?thesis if "installed (p_conf q) = None
      \<or> installed (p_conf q) = Some (emit_filter (map nr_x86_64 strict_allow))"
    using that bpf.filter_decides [of "map nr_x86_64 strict_allow" 0 "\<lambda>_. nr_x86_64 NR_execve"]
    by (auto simp: passes_def)
qed

lemma drops_ok:
  "\<forall>b. ck_drop k b \<Longrightarrow> \<exists>cs'. cap_drops k caps bs cs = Inr cs'"
  by (induction k caps bs cs rule: cap_drops.induct) auto

text \<open>A kernel that refuses nothing the process is entitled to.\<close>

definition willing :: "world \<Rightarrow> sup_cfg \<Rightarrow> bool" where
  "willing w c \<longleftrightarrow> w_net w \<and> w_ns w \<and> w_cpus w \<and> w_policy w \<and> w_nice w \<and> w_oom w \<and> w_getrl w
     \<and> (\<forall>r. w_setrl w r) \<and> (\<forall>x. w_call w x) \<and> w_nnp w \<and> w_seccomp w \<and> w_exec w
     \<and> (\<exists>d. loop_attach (bk_image (w_brick w)) 0 NW_MAX_UNITS = Inr d)
     \<and> (\<exists>d. loop_attach (bk_store (w_brick w)) 0 NW_MAX_UNITS = Inr d)
     \<and> bk_ctl (w_brick w) \<and> (\<forall>b\<in>set (c_binds c). bk_same (w_brick w) b \<noteq> None)
     \<and> 0 \<le> lk_abi (w_ll w) \<and> lk_ruleset (w_ll w) \<and> lk_nnp (w_ll w) \<and> lk_restrict (w_ll w)
     \<and> lk_open (w_ll w) ''/'' = Some True \<and> (\<forall>b\<in>set (c_binds c). lk_open (w_ll w) b \<noteq> None)
     \<and> (\<forall>b. ck_drop (w_caps w) b) \<and> ck_get (w_caps w) \<and> ck_set (w_caps w)"

definition entitled :: "process \<Rightarrow> bool" where
  "entitled p \<longleftrightarrow> has_cap CAP_SETPCAP p \<and> has_cap CAP_SYS_ADMIN p \<and> has_cap CAP_SYS_NICE p
     \<and> has_cap CAP_SYS_RESOURCE p \<and> installed (p_conf p) = None"

lemma raise_ok:
  assumes "w_getrl w" "\<forall>r. w_setrl w r" "has_cap CAP_SYS_RESOURCE p"
  shows "\<exists>p' lower. raise_nofile w n p = Inr (p', lower)"
proof -
  have "raise_nofile w n p \<noteq> Inl e" for e
    using assms by (simp add: raise_nofile_def die_if_def Let_def)
  then show ?thesis by (cases "raise_nofile w n p") auto
qed

lemma raise_keeps_room:
  assumes "raise_nofile w n p = Inr (p', lower)"
  shows "fd_room w p \<le> fd_room w p'"
proof -
  have "rlim_cur (p_nofile p) \<le> rlim_cur (p_nofile p')"
    using raise_Inr [OF assms] by (cases lower) (auto simp: nofile_cut_def not_less)
  then show ?thesis by (simp add: fd_room_def word_le_nat_alt diff_le_mono)
qed

lemma landlock_ok:
  assumes "willing w c" "2 \<le> fd_room w p" "installed (p_conf p) = None"
  shows "\<exists>p'. landlock_step w c p = Inr p'"
proof -
  have "lid_landlock (w_ll w) (c_binds c) \<noteq> Inl e" for e
    using assms(1) ll_rule_taken(2) [of "lk_abi (w_ll w)"] ll_rules_spec [of "c_binds c" "w_ll w"]
    by (simp add: willing_def lid_landlock_def die_if_def ll_beneath_def Let_def ll_access_def)
  then obtain rules where "lid_landlock (w_ll w) (c_binds c) = Inr rules"
    by (cases "lid_landlock (w_ll w) (c_binds c)") auto
  then show ?thesis
    using assms by (simp add: landlock_step_def enough_fds passes_def die_if_def)
qed

lemma brick_ok:
  assumes "willing w c" "2 \<le> fd_room w p" "has_cap CAP_SYS_ADMIN p" "installed (p_conf p) = None"
    and "\<forall>l. c_layer c = Some l \<longrightarrow> length l < NW_NAME_LEN" "\<forall>b\<in>set (c_binds c). length b < NW_PATH_LEN"
  shows "\<exists>p'. brick_step w c p = Inr p'"
proof (cases "c_brick c")
  case None
  then show ?thesis by (simp add: brick_step_def)
next
  case (Some brick)
  have co: "call_ok w p = (\<lambda>_. True)" using calls_ok [OF assms(2,3)] assms(1) by (simp add: willing_def)
  have "snd (perform (\<lambda>_. True) (lid_brick (w_brick w) brick (c_layer c) (c_layer_bytes c) (c_binds c))) = None"
    using assms(1,5,6) by (auto simp: willing_def intro: brick_runs)
  then obtain cs where "perform (\<lambda>_. True) (lid_brick (w_brick w) brick (c_layer c) (c_layer_bytes c) (c_binds c))
      = (cs, None)" by (metis prod.collapse)
  then show ?thesis
    using Some assms(2,4) by (simp add: brick_step_def co enough_fds passes_def die_if_def)
qed

lemma caps_ok:
  assumes "willing w c" "has_cap CAP_SETPCAP p" "installed (p_conf p) = None"
  shows "\<exists>cs. caps_step w c p = Inr (p\<lparr>p_caps := cs\<rparr>)"
proof -
  have "\<exists>cs. apply_capabilities (caps_in w p) (c_capabilities c) (w_cap_last w) (p_caps p) = Inr cs"
    using assms(1,2) drops_ok [of "caps_in w p" "c_capabilities c" "[0..<Suc (w_cap_last w)]" "p_caps p"]
    by (auto simp: apply_capabilities_def caps_in_def willing_def has_cap_def die_if_def simp del: upt_Suc)
  then show ?thesis using assms(3) by (auto simp: caps_step_def passes_def die_if_def)
qed

lemma nofile_lower_ok:
  assumes "willing w c"
  shows "\<exists>rl. lower_nofile w n lower p = Inr (p\<lparr>p_nofile := rl\<rparr>)"
proof (cases lower)
  case True
  then show ?thesis using assms by (auto simp: lower_nofile_def willing_def die_if_def Let_def)
next
  case False
  then show ?thesis by (intro exI [of _ "p_nofile p"]) (simp add: lower_nofile_def)
qed

lemma starts:
  assumes "willing w c" "entitled p" "w_fds w + 2 \<le> unat (rlim_cur (p_nofile p))"
    and "NW_OOM_ADJ_MIN \<le> c_oom_score_adj c" "c_oom_score_adj c \<le> NW_OOM_ADJ_MAX"
    and "\<forall>l. c_layer c = Some l \<longrightarrow> length l < NW_NAME_LEN" "\<forall>b\<in>set (c_binds c). length b < NW_PATH_LEN"
  shows "\<exists>q. house_start w c p = Inr (c_path c, [c_name c], q)"
proof -
  let ?d = "has_lid32 (c_lids c)"
  have room: "Suc 0 \<le> unat (rlim_cur (p_nofile p)) - w_fds w" using assms(3) by linarith
  obtain p1 p2 p3 p4 p5 where
      s: "(if ?d NW_LID_NEWNET then lid_netns w (reset_signals p) else Inr (reset_signals p)) = Inr p1"
      "(if ?d NW_LID_NEWNS then lid_newns w p1 else Inr p1) = Inr p2"
      "set_cpus w (c_cpu_mask c) p2 = Inr p3" "set_policy w (c_sched_policy c) p3 = Inr p4"
      "set_nice w (c_nice c) p4 = Inr p5" "set_oom w (c_oom_score_adj c) p5 = Inr (placed c p)"
    using assms(1,2) room unfolding step_Inr oom_Inr [OF assms(4,5)]
    by (simp add: placed_def reset_signals_def willing_def entitled_def has_cap_def passes_def fd_room_def)
  obtain p7 lower where p7: "raise_nofile w (c_nofile c) (placed c p) = Inr (p7, lower)"
    using raise_ok assms(1,2) placed_keeps(1) by (metis entitled_def has_cap_def willing_def)
  have room: "2 \<le> fd_room w p7"
    using raise_keeps_room [OF p7] assms(3) by (simp add: fd_room_def)
  have e7: "p_caps p7 = p_caps p" "p_conf p7 = p_conf p" using raise_Inr [OF p7] by simp_all
  obtain p8 where p8: "brick_step w c p7 = Inr p8"
    using brick_ok [OF assms(1) room _ _ assms(6,7)] assms(2) e7 by (auto simp: entitled_def has_cap_def)
  obtain ms where ms: "p8 = p7\<lparr>p_mounts := ms\<rparr>" using brick_Inr [OF p8] by (elim exE conjE) (rule that)
  obtain p9 where p9: "landlock_step w c p8 = Inr p9"
    using landlock_ok [OF assms(1), of p8] room assms(2) e7 by (auto simp: ms fd_room_def entitled_def)
  obtain rs conf where ll: "p9 = p8\<lparr>p_rules := rs, p_conf := conf\<rparr>" "installed conf = installed (p_conf p8)"
    using landlock_Inr [OF p9] by (elim exE conjE) (rule that)
  have e9: "p_caps p9 = p_caps p" "installed (p_conf p9) = None"
    using e7 ll assms(2) by (simp_all add: ms entitled_def)
  obtain cs where p10: "caps_step w c p9 = Inr (p9\<lparr>p_caps := cs\<rparr>)"
    using caps_ok [OF assms(1) _ e9(2)] e9(1) assms(2) by (auto simp: entitled_def has_cap_def)
  obtain rl where p11: "lower_nofile w (c_nofile c) lower (p9\<lparr>p_caps := cs\<rparr>) = Inr (p9\<lparr>p_caps := cs, p_nofile := rl\<rparr>)"
    using nofile_lower_ok [OF assms(1)] by blast
  let ?p11 = "p9\<lparr>p_caps := cs, p_nofile := rl\<rparr>"
  have e11: "installed (p_conf ?p11) = None" using e9 by simp
  obtain q where q: "seccomp_step w c ?p11 = Inr q"
    using assms(1) e11 by (cases "?d NW_LID_SECCOMP")
      (auto simp: seccomp_step_def passes_def die_if_def willing_def nw_apply_house_seccomp_def Let_def emit_filter_def NALLOW_def)
  have "passes q (nr_x86_64 NR_execve)"
    using seccomp_Inr [OF q] e11 by (intro execve_passes) (auto split: if_splits)
  then show ?thesis
    using assms(1) s p7 p8 p9 p10 p11 q
    by (simp add: house_start_def Let_def sys_def die_if_def willing_def)
qed

text \<open>
  C18. The order of the child's steps suffices: on a kernel that refuses nothing the process is entitled
  to, a child that starts with the supervisor's privileges reaches \<^verbatim>\<open>execv\<close> whatever the plan declares.
  Dropping every capability does not take away a right a later step needs, no step after the filter uses
  a call the filter kills for, and no declared descriptor limit starves the lids, which need two.
\<close>

theorem house_starts:
  assumes "willing w c" "entitled p" "w_fds w + 2 \<le> unat (rlim_cur (p_nofile p))"
    and "NW_OOM_ADJ_MIN \<le> c_oom_score_adj c" "c_oom_score_adj c \<le> NW_OOM_ADJ_MAX"
    and "\<forall>l. c_layer c = Some l \<longrightarrow> length l < NW_NAME_LEN" "\<forall>b\<in>set (c_binds c). length b < NW_PATH_LEN"
  shows "\<exists>q. house_start w c p = Inr (c_path c, [c_name c], q)"
  using assms by (rule starts)

text \<open>
  A house that declares everything: both namespaces, two processors, batch scheduling, a limit of two
  descriptors, a brick with a layer, one bind, Landlock, seccomp, and no capability at all.
\<close>

definition house_world :: world where
  "house_world = \<lparr>w_net = True, w_ns = True, w_cpus = True, w_policy = True, w_nice = True, w_oom = True,
     w_getrl = True, w_setrl = (\<lambda>_. True), w_brick = demo_brick, w_call = (\<lambda>_. True),
     w_ll = \<lparr>lk_abi = 3, lk_ruleset = True, lk_open = (\<lambda>_. Some True), lk_nnp = True, lk_restrict = True\<rparr>,
     w_caps = \<lparr>ck_drop = \<lambda>_. True, ck_known = \<lambda>_. True, ck_get = True, ck_set = True\<rparr>,
     w_cap_last = 40, w_nnp = True, w_seccomp = True, w_exec = True, w_fds = 6\<rparr>"

definition house_cfg :: sup_cfg where
  "house_cfg = \<lparr>c_path = ''/bin/web'', c_name = ''web'', c_lids = 15, c_budget = 3, c_complete_on_0 = False,
     c_lock = False, c_stop_signal = SIGTERM, c_grace_period = 0, c_nofile = 2, c_capabilities = 0,
     c_brick = Some ''/i'', c_layer = Some ''web'', c_layer_bytes = 4096, c_cpu_mask = 5, c_mem_high = 0,
     c_mem_max = 0, c_cpu_weight = 0, c_nice = 0, c_sched_policy = 2, c_task_cap = 0,
     c_oom_score_adj = - 500, c_binds = [''/etc'']\<rparr>"

definition child_process :: process where
  "child_process = \<lparr>p_caught = [SIGTERM, SIGINT], p_blocked = [17], p_newnet = False, p_newns = False, p_cpus = [0],
     p_policy = 0, p_nice = 0, p_oom = 0, p_nofile = \<lparr>rlim_cur = 1024, rlim_max = 4096\<rparr>, p_mounts = [], p_rules = None,
     p_caps = \<lparr>cap_bounding = - 1, cap_effective = - 1, cap_permitted = - 1, cap_inheritable = 0\<rparr>,
     p_conf = \<lparr>no_new_privs = False, installed = None\<rparr>\<rparr>"

lemma demo_willing: "willing house_world house_cfg"
proof -
  have "loop_attach (\<lambda>_. demo_att) 0 NW_MAX_UNITS = Inr (loop_name 3)" by code_simp
  then show ?thesis by (simp add: willing_def house_world_def demo_brick_def)
qed

lemma demo_entitled: "entitled child_process"
  by (simp add: entitled_def has_cap_def child_process_def CAP_SETPCAP_def CAP_SYS_ADMIN_def CAP_SYS_NICE_def
      CAP_SYS_RESOURCE_def)

lemmas cfg_limits = NW_OOM_ADJ_MIN_def NW_OOM_ADJ_MAX_def NW_NAME_LEN_def NW_PATH_LEN_def

theorem house_starts_witness:
  "\<exists>q. house_start house_world house_cfg child_process = Inr (''/bin/web'', [''web''], q)"
  using house_starts [OF demo_willing demo_entitled]
  by (simp add: cfg_limits house_cfg_def child_process_def house_world_def)

theorem house_confined_witness:
  "\<exists>q. house_start house_world house_cfg child_process = Inr (''/bin/web'', [''web''], q)
     \<and> p_newnet q \<and> p_newns q \<and> p_oom q = - 500 \<and> rlim_cur (p_nofile q) = 2 \<and> cap_effective (p_caps q) = 0
     \<and> (\<exists>rules. p_rules q = Some rules \<and> map fst rules = [''/'', ''/etc''])
     \<and> no_new_privs (p_conf q) \<and> installed (p_conf q) = Some (emit_filter (map nr_x86_64 strict_allow))"
proof -
  obtain q where q: "house_start house_world house_cfg child_process = Inr (c_path house_cfg, [c_name house_cfg], q)"
    using starts [OF demo_willing demo_entitled]
    by (auto simp: cfg_limits house_cfg_def child_process_def house_world_def)
  have l: "has_lid32 (c_lids house_cfg) NW_LID_NEWNET" "has_lid32 (c_lids house_cfg) NW_LID_NEWNS"
    "has_lid32 (c_lids house_cfg) NW_LID_LANDLOCK" "has_lid32 (c_lids house_cfg) NW_LID_SECCOMP" by code_simp+
  have c: "c_oom_score_adj house_cfg = - 500" "c_nofile house_cfg = 2" "c_capabilities house_cfg = 0" "c_binds house_cfg = [''/etc'']"
    "c_path house_cfg = ''/bin/web''" "c_name house_cfg = ''web''"
    by (simp_all add: house_cfg_def)
  have w: "w_cap_last house_world \<le> 63" "\<forall>b\<le>w_cap_last house_world. ck_known (w_caps house_world) b"
    by (simp_all add: house_world_def)
  have o: "NW_OOM_ADJ_MIN \<le> c_oom_score_adj house_cfg" "c_oom_score_adj house_cfg \<le> NW_OOM_ADJ_MAX"
    by (simp_all add: c cfg_limits)
  note H = house_confined [OF q o w]
  have "rlim_cur (p_nofile q) = 2" using H by (simp add: nofile_cut_def c)
  then show ?thesis using q H l c by (intro exI [of _ q]) simp
qed

end
