(* ===== verification/Dawn.thy ===== *)
theory Dawn
  imports Handoff
begin

text \<open>
  \<^verbatim>\<open>dawn.c\<close>, the mount stage that runs before process 1. Every call is put to the kernel, an argument
  that answers from what has happened so far with success or an error number, and recorded; what a
  successful mount changes is read off the record.
\<close>

subsection \<open>Calls\<close>

datatype mount_flag = ReadOnly | RecPrivate | Move

datatype dcall =
    Mkdir bytes
  | DMount bytes bytes bytes "mount_flag list"
  | DChdir bytes
  | DPivot bytes bytes
  | DChroot bytes
  | DUmount bytes
  | Rmdir bytes
  | DExec bytes "bytes list"

type_synonym errno = nat
type_synonym record_of_calls = "(dcall \<times> errno option) list"
type_synonym dawn_kernel = "record_of_calls \<Rightarrow> dcall \<Rightarrow> errno option"

definition ENOENT :: errno where "ENOENT = 2"
definition EBUSY :: errno where "EBUSY = 16"
definition EEXIST :: errno where "EEXIST = 17"
definition EINVAL :: errno where "EINVAL = 22"
definition ENOTEMPTY :: errno where "ENOTEMPTY = 39"

text \<open>A death carries its words and what had been done.\<close>

type_synonym dawn_res = "(bytes \<times> bytes \<times> record_of_calls) + record_of_calls"

fun next_call :: "dawn_res \<Rightarrow> (record_of_calls \<Rightarrow> dawn_res) \<Rightarrow> dawn_res" where
  "next_call (Inl d) f = Inl d"
| "next_call (Inr h) f = f h"

text \<open>A call that may fail only with the listed errors.\<close>

definition attempt :: "dawn_kernel \<Rightarrow> dcall \<Rightarrow> errno list \<Rightarrow> bytes \<Rightarrow> bytes \<Rightarrow> record_of_calls \<Rightarrow> dawn_res" where
  "attempt k c allowed what arg h =
     (case k h c of None \<Rightarrow> Inr (h @ [(c, None)])
      | Some e \<Rightarrow> if e \<in> set allowed then Inr (h @ [(c, Some e)]) else Inl (what, arg, h @ [(c, Some e)]))"

subsection \<open>The program\<close>

definition NW_ROOT_MNT :: bytes where "NW_ROOT_MNT = ''/sysroot''"
definition NW_OLD_ROOT :: bytes where "NW_OLD_ROOT = ''oldroot''"
definition NW_ESP_AT :: bytes where "NW_ESP_AT = ''/efi''"
definition NW_SLOTS_AT :: bytes where "NW_SLOTS_AT = ''/efi/slots''"
definition NW_INIT_AT :: bytes where "NW_INIT_AT = ''/nw/bin/nw-root''"

definition need_env :: "env \<Rightarrow> bytes \<Rightarrow> (bytes \<times> bytes \<times> record_of_calls) + bytes" where
  "need_env env k =
     (case env k of None \<Rightarrow> Inl (''missing kernel parameter'', k, [])
      | Some v \<Rightarrow> if v = [] then Inl (''missing kernel parameter'', k, []) else Inr v)"

text \<open>The prefixes of a path that end before a slash or at its end, from the second byte on.\<close>

definition path_prefixes :: "bytes \<Rightarrow> bytes list" where
  "path_prefixes p = map (\<lambda>i. take i p) (filter (\<lambda>i. i = length p \<or> p ! i = CHR 0x2F) [1..<Suc (length p)])"

fun mkdirs :: "dawn_kernel \<Rightarrow> bytes list \<Rightarrow> record_of_calls \<Rightarrow> dawn_res" where
  "mkdirs k [] h = Inr h"
| "mkdirs k (d # ds) h = next_call (attempt k (Mkdir d) [EEXIST] ''mkdir'' d h) (mkdirs k ds)"

definition mkpath :: "dawn_kernel \<Rightarrow> bytes \<Rightarrow> record_of_calls \<Rightarrow> dawn_res" where
  "mkpath k p h = (if 256 \<le> length p then Inl (''path too long'', p, h) else mkdirs k (path_prefixes p) h)"

definition do_mount :: "dawn_kernel \<Rightarrow> bytes \<Rightarrow> bytes \<Rightarrow> bytes \<Rightarrow> mount_flag list \<Rightarrow> record_of_calls \<Rightarrow> dawn_res" where
  "do_mount k src tgt fstype flags h =
     next_call (mkpath k tgt h) (attempt k (DMount src tgt fstype flags) [] ''mount'' tgt)"

definition ensure_mount :: "dawn_kernel \<Rightarrow> bytes \<Rightarrow> bytes \<Rightarrow> bytes \<Rightarrow> mount_flag list \<Rightarrow> record_of_calls \<Rightarrow> dawn_res" where
  "ensure_mount k src tgt fstype flags h =
     next_call (mkpath k tgt h) (attempt k (DMount src tgt fstype flags) [EBUSY] ''mount'' tgt)"

text \<open>The pivot, or where the kernel refuses it the move; the flag says which.\<close>

definition swap_root :: "dawn_kernel \<Rightarrow> record_of_calls \<Rightarrow> (bool \<times> dawn_res)" where
  "swap_root k h =
     (let c = DPivot ''.'' NW_OLD_ROOT in
      case k h c of None \<Rightarrow> (True, Inr (h @ [(c, None)]))
      | Some e \<Rightarrow>
        (False, next_call (attempt k (DMount ''.'' ''/'' [] [Move]) [] ''move-root'' [] (h @ [(c, Some e)]))
          (attempt k (DChroot ''.'') [] ''chroot'' [])))"

text \<open>Before the pivot.\<close>

definition dawn_mounts :: "dawn_kernel \<Rightarrow> bytes \<Rightarrow> bytes \<Rightarrow> bytes \<Rightarrow> bytes \<Rightarrow> dawn_res" where
  "dawn_mounts k root rootfs esp espfs =
     next_call (ensure_mount k ''devtmpfs'' ''/dev'' ''devtmpfs'' [] []) (\<lambda>h.
     next_call (do_mount k root NW_ROOT_MNT rootfs [] h) (\<lambda>h.
     next_call (do_mount k esp (NW_ROOT_MNT @ NW_ESP_AT) espfs [ReadOnly] h) (\<lambda>h.
     next_call (mkpath k (NW_ROOT_MNT @ NW_BRICK_DIR) h) (\<lambda>h.
     next_call (mkpath k (NW_ROOT_MNT @ NW_LAYER_DIR) h) (\<lambda>h.
     next_call (mkpath k (NW_ROOT_MNT @ NW_EVIDENCE_DIR) h) (\<lambda>h.
     next_call (mkpath k (NW_ROOT_MNT @ NW_BRICK_MNT) h) (\<lambda>h.
     next_call (mkpath k (NW_ROOT_MNT @ ''/'' @ NW_OLD_ROOT) h) (\<lambda>h.
     next_call (attempt k (DMount [] ''/'' [] [RecPrivate]) [] ''make-private'' ''/'' h) (\<lambda>h.
     attempt k (DChdir NW_ROOT_MNT) [] ''chdir'' NW_ROOT_MNT h)))))))))"

text \<open>After it.\<close>

definition dawn_settles :: "dawn_kernel \<Rightarrow> bool \<Rightarrow> record_of_calls \<Rightarrow> dawn_res" where
  "dawn_settles k oldroot_is_mounted h =
     next_call (attempt k (DChdir ''/'') [] ''chdir'' ''/'' h) (\<lambda>h.
     next_call (ensure_mount k ''proc'' ''/proc'' ''proc'' [] h) (\<lambda>h.
     next_call (ensure_mount k ''sysfs'' ''/sys'' ''sysfs'' [] h) (\<lambda>h.
     next_call (ensure_mount k ''devtmpfs'' ''/dev'' ''devtmpfs'' [] h) (\<lambda>h.
     next_call (do_mount k ''tmpfs'' ''/run'' ''tmpfs'' [] h) (\<lambda>h.
     next_call (do_mount k ''tmpfs'' ''/tmp'' ''tmpfs'' [] h) (\<lambda>h.
     next_call (ensure_mount k ''cgroup2'' ''/sys/fs/cgroup'' ''cgroup2'' [] h) (\<lambda>h.
     next_call (if oldroot_is_mounted then attempt k (DUmount (''/'' @ NW_OLD_ROOT)) [] ''umount oldroot'' [] h else Inr h) (\<lambda>h.
     next_call (attempt k (Rmdir (''/'' @ NW_OLD_ROOT)) [EBUSY, ENOTEMPTY, ENOENT] ''rmdir oldroot'' [] h) (\<lambda>h.
     attempt k (DExec NW_INIT_AT [''nw-root'', ''--slots'', NW_SLOTS_AT]) [] ''exec nw-root'' NW_INIT_AT h)))))))))"

definition dawn :: "dawn_kernel \<Rightarrow> env \<Rightarrow> dawn_res" where
  "dawn k env =
     (case need_env env ''NW_ROOT'' of Inl d \<Rightarrow> Inl d | Inr root \<Rightarrow>
      case need_env env ''NW_ROOT_FSTYPE'' of Inl d \<Rightarrow> Inl d | Inr rootfs \<Rightarrow>
      case need_env env ''NW_ESP'' of Inl d \<Rightarrow> Inl d | Inr esp \<Rightarrow>
      case need_env env ''NW_ESP_FSTYPE'' of Inl d \<Rightarrow> Inl d | Inr espfs \<Rightarrow>
      next_call (dawn_mounts k root rootfs esp espfs) (\<lambda>h.
        let (oldroot_is_mounted, r) = swap_root k h in
        next_call r (dawn_settles k oldroot_is_mounted)))"

subsection \<open>What the calls have done\<close>

text \<open>
  Root, working directory, directories and mounts, newest first, under the names paths had before the
  roots were swapped. A mount is its target, its source and whether it is read-only; the old root is
  mounted by the pivot.
\<close>

record mview =
  mv_root :: bytes
  mv_cwd :: bytes
  mv_dirs :: "bytes set"
  mv_mounts :: "(bytes \<times> bytes \<times> bool) list"

definition old_root_source :: bytes where "old_root_source = ''(old root)''"

definition abs_path :: "mview \<Rightarrow> bytes \<Rightarrow> bytes" where
  "abs_path v p =
     (if p = ''/'' then mv_root v else if p = ''.'' then mv_cwd v
      else if take 1 p = ''/'' then mv_root v @ p else mv_cwd v @ ''/'' @ p)"

fun effect :: "dcall \<Rightarrow> mview \<Rightarrow> mview" where
  "effect (Mkdir p) v = v\<lparr>mv_dirs := insert (abs_path v p) (mv_dirs v)\<rparr>"
| "effect (DMount src tgt fstype flags) v =
     (if RecPrivate \<in> set flags \<or> Move \<in> set flags then v
      else v\<lparr>mv_mounts := (abs_path v tgt, src, ReadOnly \<in> set flags) # mv_mounts v\<rparr>)"
| "effect (DChdir p) v = v\<lparr>mv_cwd := abs_path v p\<rparr>"
| "effect (DPivot new put) v =
     v\<lparr>mv_root := abs_path v new, mv_mounts := (abs_path v put, old_root_source, False) # mv_mounts v\<rparr>"
| "effect (DChroot p) v = v\<lparr>mv_root := abs_path v p\<rparr>"
| "effect (DUmount p) v = v\<lparr>mv_mounts := filter (\<lambda>m. fst m \<noteq> abs_path v p) (mv_mounts v)\<rparr>"
| "effect _ v = v"

text \<open>A directory that is there already is there.\<close>

definition happened :: "dcall \<times> errno option \<Rightarrow> mview \<Rightarrow> mview" where
  "happened cr v = (case cr of (c, r) \<Rightarrow>
     if r = None \<or> (r = Some EEXIST \<and> (\<exists>p. c = Mkdir p)) then effect c v else v)"

definition view :: "record_of_calls \<Rightarrow> mview" where
  "view h = fold happened h \<lparr>mv_root = [], mv_cwd = [], mv_dirs = {}, mv_mounts = []\<rparr>"

lemma view_append [simp]: "view (h @ x) = fold happened x (view h)"
  by (simp add: view_def)

lemma happened_None [simp]: "happened (c, None) v = effect c v"
  by (simp add: happened_def)

lemma next_call_Inr: "next_call r f = Inr h \<longleftrightarrow> (\<exists>h'. r = Inr h' \<and> f h' = Inr h)"
  by (cases r) simp_all

lemma attempt_Inr:
  "attempt k c allowed what arg h = Inr h' \<longleftrightarrow>
     (\<exists>r. k h c = r \<and> h' = h @ [(c, r)] \<and> (r = None \<or> (\<exists>e\<in>set allowed. r = Some e)))"
  by (auto simp: attempt_def split: option.splits if_splits)

lemma mkdirs_view:
  "mkdirs k ds h = Inr h' \<Longrightarrow> \<forall>d\<in>set ds. take 1 d = ''/'' \<and> d \<noteq> ''/'' \<Longrightarrow>
     view h' = (view h)\<lparr>mv_dirs := mv_dirs (view h) \<union> (\<lambda>d. mv_root (view h) @ d) ` set ds\<rparr> \<and> (\<exists>x. h' = h @ x)"
proof (induction ds arbitrary: h)
  case Nil
  then show ?case by simp
next
  case (Cons d ds)
  then obtain h1 where a: "attempt k (Mkdir d) [EEXIST] ''mkdir'' d h = Inr h1" and r: "mkdirs k ds h1 = Inr h'"
    by (auto simp: next_call_Inr)
  have v: "view h1 = (view h)\<lparr>mv_dirs := insert (mv_root (view h) @ d) (mv_dirs (view h))\<rparr> \<and> (\<exists>x. h1 = h @ x)"
    using a Cons.prems(2) by (auto simp: attempt_Inr happened_def abs_path_def)
  then show ?case using Cons.IH [OF r] Cons.prems(2) by auto
qed

text \<open>What every stage but the unmounting does: it keeps the root and adds to the rest.\<close>

definition grows :: "record_of_calls \<Rightarrow> record_of_calls \<Rightarrow> bool" where
  "grows h h' \<longleftrightarrow> (\<exists>x. h' = h @ x) \<and> mv_root (view h') = mv_root (view h) \<and> mv_dirs (view h) \<subseteq> mv_dirs (view h')
     \<and> set (mv_mounts (view h)) \<subseteq> set (mv_mounts (view h'))"

lemma grows_refl: "grows h h"
  by (simp add: grows_def)

lemma grows_trans: "grows h h1 \<Longrightarrow> grows h1 h2 \<Longrightarrow> grows h h2"
  unfolding grows_def by auto

lemma growsD:
  assumes "grows h h'"
  shows "d \<in> mv_dirs (view h) \<Longrightarrow> d \<in> mv_dirs (view h')" "m \<in> set (mv_mounts (view h)) \<Longrightarrow> m \<in> set (mv_mounts (view h'))"
    "mv_root (view h') = mv_root (view h)"
  using assms by (auto simp: grows_def)

definition good_path :: "bytes \<Rightarrow> bool" where
  "good_path p \<longleftrightarrow> p \<noteq> [] \<and> length p < 256 \<and> take 1 p = ''/'' \<and> p \<noteq> ''/''
     \<and> list_all (\<lambda>d. take 1 d = ''/'' \<and> d \<noteq> ''/'') (path_prefixes p)"

lemma good_abs: "good_path p \<Longrightarrow> abs_path v p = mv_root v @ p"
  by (auto simp: good_path_def abs_path_def)

lemma path_in_prefixes: "p \<noteq> [] \<Longrightarrow> p \<in> set (path_prefixes p)"
  by (auto simp: path_prefixes_def image_iff intro!: bexI [of _ "length p"] simp: Suc_le_eq)

lemma mkpath_view:
  assumes "mkpath k p h = Inr h'" "good_path p"
  shows "grows h h' \<and> mv_root (view h) @ p \<in> mv_dirs (view h') \<and> mv_mounts (view h') = mv_mounts (view h)"
proof -
  have "mkdirs k (path_prefixes p) h = Inr h'" using assms by (auto simp: mkpath_def split: if_splits)
  from mkdirs_view [OF this] have "view h' = (view h)\<lparr>mv_dirs := mv_dirs (view h)
      \<union> (\<lambda>d. mv_root (view h) @ d) ` set (path_prefixes p)\<rparr> \<and> (\<exists>x. h' = h @ x)"
    using assms(2) by (auto simp: good_path_def list_all_iff)
  then show ?thesis using path_in_prefixes [of p] assms(2) by (auto simp: grows_def good_path_def)
qed

lemma do_mount_view:
  assumes "do_mount k src tgt fstype flags h = Inr h'" "good_path tgt" "RecPrivate \<notin> set flags" "Move \<notin> set flags"
  shows "grows h h' \<and> (mv_root (view h) @ tgt, src, ReadOnly \<in> set flags) \<in> set (mv_mounts (view h'))"
proof -
  obtain h1 where h1: "mkpath k tgt h = Inr h1" and h': "h' = h1 @ [(DMount src tgt fstype flags, None)]"
    using assms(1) by (auto simp: do_mount_def next_call_Inr attempt_Inr)
  from mkpath_view [OF h1 assms(2)] show ?thesis
    using assms(2-4) by (auto simp: grows_def h' good_abs)
qed

text \<open>The kernel said the file system is there, to a call made from this root.\<close>

definition busy_at :: "record_of_calls \<Rightarrow> bytes \<Rightarrow> bytes \<Rightarrow> bytes \<Rightarrow> bool" where
  "busy_at h root src tgt \<longleftrightarrow>
     (\<exists>pre post. h = pre @ (DMount src tgt src [], Some EBUSY) # post \<and> mv_root (view pre) = root)"

lemma busy_append: "busy_at h root src tgt \<Longrightarrow> busy_at (h @ x) root src tgt"
  unfolding busy_at_def by fastforce

definition present :: "record_of_calls \<Rightarrow> bytes \<Rightarrow> bytes \<Rightarrow> bytes \<Rightarrow> bool" where
  "present h root src tgt \<longleftrightarrow> (root @ tgt, src, False) \<in> set (mv_mounts (view h)) \<or> busy_at h root src tgt"

lemma present_grows: "present h root src tgt \<Longrightarrow> grows h h' \<Longrightarrow> present h' root src tgt"
  unfolding present_def grows_def busy_at_def by fastforce

lemma ensure_mount_view:
  assumes "ensure_mount k src tgt src [] h = Inr h'" "good_path tgt"
  shows "grows h h' \<and> present h' (mv_root (view h)) src tgt"
proof -
  obtain h1 r where h1: "mkpath k tgt h = Inr h1" and h': "h' = h1 @ [(DMount src tgt src [], r)]"
    and r: "r = None \<or> r = Some EBUSY"
    using assms(1) by (auto simp: ensure_mount_def next_call_Inr attempt_Inr)
  note g = mkpath_view [OF h1 assms(2)]
  from r show ?thesis
  proof
    assume "r = None"
    then show ?thesis using g assms(2) by (auto simp: grows_def present_def h' good_abs)
  next
    assume r: "r = Some EBUSY"
    have "view h' = view h1" by (simp add: h' r happened_def EBUSY_def EEXIST_def)
    then have gr: "grows h h'" using g by (auto simp: grows_def h')
    have "busy_at h' (mv_root (view h)) src tgt"
      unfolding busy_at_def using g by (intro exI [of _ h1] exI [of _ "[]"]) (simp add: h' r grows_def)
    with gr show ?thesis by (simp add: present_def)
  qed
qed

lemma swap_root_view:
  assumes "swap_root k h = (pv, Inr h')"
  shows "mv_root (view h') = mv_cwd (view h) \<and> mv_dirs (view h') = mv_dirs (view h)
    \<and> mv_mounts (view h') = (if pv then [(mv_cwd (view h) @ ''/'' @ NW_OLD_ROOT, old_root_source, False)] else [])
        @ mv_mounts (view h)"
proof -
  have o: "abs_path v NW_OLD_ROOT = mv_cwd v @ ''/'' @ NW_OLD_ROOT" "abs_path v ''.'' = mv_cwd v" for v
    by (simp_all add: abs_path_def NW_OLD_ROOT_def)
  show ?thesis
    using assms
    by (auto simp: swap_root_def Let_def next_call_Inr attempt_Inr o happened_def split: option.splits)
qed

lemma good_paths:
  "good_path ''/dev''" "good_path ''/proc''" "good_path ''/sys''" "good_path ''/run''" "good_path ''/tmp''"
  "good_path ''/sys/fs/cgroup''" "good_path NW_ROOT_MNT" "good_path (NW_ROOT_MNT @ NW_ESP_AT)"
  "good_path (NW_ROOT_MNT @ NW_BRICK_DIR)" "good_path (NW_ROOT_MNT @ NW_LAYER_DIR)"
  "good_path (NW_ROOT_MNT @ NW_EVIDENCE_DIR)" "good_path (NW_ROOT_MNT @ NW_BRICK_MNT)"
  "good_path (NW_ROOT_MNT @ ''/'' @ NW_OLD_ROOT)"
  by code_simp+

lemma dawn_mounts_view:
  assumes "dawn_mounts k root rootfs esp espfs = Inr h"
  shows "mv_root (view h) = [] \<and> mv_cwd (view h) = NW_ROOT_MNT
    \<and> (NW_ROOT_MNT, root, False) \<in> set (mv_mounts (view h))
    \<and> (NW_ROOT_MNT @ NW_ESP_AT, esp, True) \<in> set (mv_mounts (view h))
    \<and> (\<forall>d\<in>{NW_BRICK_DIR, NW_LAYER_DIR, NW_EVIDENCE_DIR, NW_BRICK_MNT}. NW_ROOT_MNT @ d \<in> mv_dirs (view h))
    \<and> (\<exists>pre. h = pre @ [(DMount [] ''/'' [] [RecPrivate], None), (DChdir NW_ROOT_MNT, None)])"
proof -
  obtain h1 h2 h3 h4 h5 h6 h7 h8 h9 where
      h1: "ensure_mount k ''devtmpfs'' ''/dev'' ''devtmpfs'' [] [] = Inr h1"
      and h2: "do_mount k root NW_ROOT_MNT rootfs [] h1 = Inr h2"
      and h3: "do_mount k esp (NW_ROOT_MNT @ NW_ESP_AT) espfs [ReadOnly] h2 = Inr h3"
      and h4: "mkpath k (NW_ROOT_MNT @ NW_BRICK_DIR) h3 = Inr h4" and h5: "mkpath k (NW_ROOT_MNT @ NW_LAYER_DIR) h4 = Inr h5"
      and h6: "mkpath k (NW_ROOT_MNT @ NW_EVIDENCE_DIR) h5 = Inr h6" and h7: "mkpath k (NW_ROOT_MNT @ NW_BRICK_MNT) h6 = Inr h7"
      and h8: "mkpath k (NW_ROOT_MNT @ ''/'' @ NW_OLD_ROOT) h7 = Inr h8"
      and h: "h = h8 @ [(DMount [] ''/'' [] [RecPrivate], None), (DChdir NW_ROOT_MNT, None)]"
    using assms by (auto simp: dawn_mounts_def next_call_Inr attempt_Inr)
  have r0: "mv_root (view []) = []" by (simp add: view_def)
  note g1 = ensure_mount_view [OF h1 good_paths(1)]
  have g2: "grows h1 h2 \<and> (mv_root (view h1) @ NW_ROOT_MNT, root, False) \<in> set (mv_mounts (view h2))"
    using do_mount_view [OF h2 good_paths(7)] by simp
  have g3: "grows h2 h3 \<and> (mv_root (view h2) @ NW_ROOT_MNT @ NW_ESP_AT, esp, True) \<in> set (mv_mounts (view h3))"
    using do_mount_view [OF h3 good_paths(8)] by simp
  note g = mkpath_view [OF h4 good_paths(9)] mkpath_view [OF h5 good_paths(10)] mkpath_view [OF h6 good_paths(11)]
    mkpath_view [OF h7 good_paths(12)] mkpath_view [OF h8 good_paths(13)]
  note s = g [THEN conjunct1]
  note t7 = s(5) note t6 = grows_trans [OF s(4) t7] note t5 = grows_trans [OF s(3) t6]
  note t4 = grows_trans [OF s(2) t5] note t3 = grows_trans [OF s(1) t4]
  have g3': "grows h2 h3" using g3 by simp
  note t = t7 t6 t5 t4 t3 grows_trans [OF g3' t3]
  have root: "mv_root (view h1) = []" "mv_root (view h2) = []" "mv_root (view h3) = []" "mv_root (view h4) = []"
    "mv_root (view h5) = []" "mv_root (view h6) = []" "mv_root (view h7) = []" "mv_root (view h8) = []"
    using r0 growsD(3) [OF conjunct1 [OF g1]] growsD(3) [OF conjunct1 [OF g2]] growsD(3) [OF g3'] s [THEN growsD(3)]
    by simp_all
  have v: "view h = (view h8)\<lparr>mv_cwd := NW_ROOT_MNT\<rparr>"
    by (simp add: h good_abs [OF good_paths(7)] root)
  have m: "(NW_ROOT_MNT, root, False) \<in> set (mv_mounts (view h8))" "(NW_ROOT_MNT @ NW_ESP_AT, esp, True) \<in> set (mv_mounts (view h8))"
    using g2 g3 growsD(2) [OF t(6)] growsD(2) [OF t(5)] by (simp_all add: root)
  have d: "NW_ROOT_MNT @ d \<in> mv_dirs (view h8)" if "d \<in> {NW_BRICK_DIR, NW_LAYER_DIR, NW_EVIDENCE_DIR, NW_BRICK_MNT}" for d
    using that g growsD(1) [OF t(1)] growsD(1) [OF t(2)] growsD(1) [OF t(3)] growsD(1) [OF t(4)]
    by (elim insertE emptyE) (simp_all add: root)
  show ?thesis using v m d root h by auto
qed

definition exec_nw_root :: dcall where
  "exec_nw_root = DExec NW_INIT_AT [''nw-root'', ''--slots'', NW_SLOTS_AT]"

lemma dawn_settles_view:
  assumes "dawn_settles k pv h0 = Inr h" "mv_root (view h0) = NW_ROOT_MNT"
  shows "(\<exists>x. h = h0 @ x) \<and> mv_root (view h) = NW_ROOT_MNT \<and> mv_dirs (view h0) \<subseteq> mv_dirs (view h)
    \<and> (\<forall>m\<in>set (mv_mounts (view h0)). fst m \<noteq> NW_ROOT_MNT @ ''/'' @ NW_OLD_ROOT \<longrightarrow> m \<in> set (mv_mounts (view h)))
    \<and> present h NW_ROOT_MNT ''proc'' ''/proc'' \<and> present h NW_ROOT_MNT ''sysfs'' ''/sys''
    \<and> present h NW_ROOT_MNT ''devtmpfs'' ''/dev'' \<and> present h NW_ROOT_MNT ''cgroup2'' ''/sys/fs/cgroup''
    \<and> (NW_ROOT_MNT @ ''/run'', ''tmpfs'', False) \<in> set (mv_mounts (view h))
    \<and> (NW_ROOT_MNT @ ''/tmp'', ''tmpfs'', False) \<in> set (mv_mounts (view h))
    \<and> (pv \<longrightarrow> NW_ROOT_MNT @ ''/'' @ NW_OLD_ROOT \<notin> fst ` set (mv_mounts (view h)))
    \<and> last h = (exec_nw_root, None)"
proof -
  obtain h1 h2 h3 h4 h5 h6 h7 h8 r where
      h1: "h1 = h0 @ [(DChdir ''/'', None)]"
      and h2: "ensure_mount k ''proc'' ''/proc'' ''proc'' [] h1 = Inr h2"
      and h3: "ensure_mount k ''sysfs'' ''/sys'' ''sysfs'' [] h2 = Inr h3"
      and h4: "ensure_mount k ''devtmpfs'' ''/dev'' ''devtmpfs'' [] h3 = Inr h4"
      and h5: "do_mount k ''tmpfs'' ''/run'' ''tmpfs'' [] h4 = Inr h5"
      and h6: "do_mount k ''tmpfs'' ''/tmp'' ''tmpfs'' [] h5 = Inr h6"
      and h7: "ensure_mount k ''cgroup2'' ''/sys/fs/cgroup'' ''cgroup2'' [] h6 = Inr h7"
      and h8: "h8 = (if pv then h7 @ [(DUmount (''/'' @ NW_OLD_ROOT), None)] else h7)"
      and h: "h = h8 @ [(Rmdir (''/'' @ NW_OLD_ROOT), r), (exec_nw_root, None)]"
    using assms(1) by (auto simp: dawn_settles_def next_call_Inr attempt_Inr exec_nw_root_def split: if_splits)
  have g1: "grows h0 h1" by (simp add: grows_def h1)
  note e = ensure_mount_view [OF h2 good_paths(2)] ensure_mount_view [OF h3 good_paths(3)]
    ensure_mount_view [OF h4 good_paths(1)] ensure_mount_view [OF h7 good_paths(6)]
  have d: "grows h4 h5 \<and> (mv_root (view h4) @ ''/run'', ''tmpfs'', False) \<in> set (mv_mounts (view h5))"
    "grows h5 h6 \<and> (mv_root (view h5) @ ''/tmp'', ''tmpfs'', False) \<in> set (mv_mounts (view h6))"
    using do_mount_view [OF h5 good_paths(4)] do_mount_view [OF h6 good_paths(5)] by simp_all
  note s = g1 e(1,2,3) [THEN conjunct1] d [THEN conjunct1] e(4) [THEN conjunct1]
  note root = s [THEN growsD(3)]
  have root': "mv_root (view h1) = NW_ROOT_MNT" "mv_root (view h2) = NW_ROOT_MNT" "mv_root (view h3) = NW_ROOT_MNT"
    "mv_root (view h4) = NW_ROOT_MNT" "mv_root (view h5) = NW_ROOT_MNT" "mv_root (view h6) = NW_ROOT_MNT"
    "mv_root (view h7) = NW_ROOT_MNT"
    using root assms(2) by simp_all
  note t6 = s(7) note t5 = grows_trans [OF s(6) t6] note t4 = grows_trans [OF s(5) t5] note t3 = grows_trans [OF s(4) t4]
  note t2 = grows_trans [OF s(3) t3] note t1 = grows_trans [OF s(2) t2] note t0 = grows_trans [OF s(1) t1]
  have p7: "present h7 NW_ROOT_MNT ''proc'' ''/proc''" "present h7 NW_ROOT_MNT ''sysfs'' ''/sys''"
    "present h7 NW_ROOT_MNT ''devtmpfs'' ''/dev''" "present h7 NW_ROOT_MNT ''cgroup2'' ''/sys/fs/cgroup''"
    "(NW_ROOT_MNT @ ''/run'', ''tmpfs'', False) \<in> set (mv_mounts (view h7))"
    "(NW_ROOT_MNT @ ''/tmp'', ''tmpfs'', False) \<in> set (mv_mounts (view h7))"
    using e d t6 present_grows [OF conjunct2 [OF e(1)] t2] present_grows [OF conjunct2 [OF e(2)] t3]
      present_grows [OF conjunct2 [OF e(3)] t4] growsD(2) [OF t5] growsD(2) [OF t6]
    by (simp_all add: root')
  let ?old = "NW_ROOT_MNT @ ''/'' @ NW_OLD_ROOT"
  have o: "abs_path (view h7) (''/'' @ NW_OLD_ROOT) = ?old"
    using root'(7) by (simp add: abs_path_def NW_OLD_ROOT_def)
  have v: "view h = view h8"
    by (simp add: h happened_def exec_nw_root_def)
  have v8: "view h8 = (if pv then (view h7)\<lparr>mv_mounts := filter (\<lambda>m. fst m \<noteq> ?old) (mv_mounts (view h7))\<rparr> else view h7)"
    using o by (simp add: h8)
  have ne: "NW_ROOT_MNT @ t \<noteq> ?old" if "t \<in> {''/proc'', ''/sys'', ''/dev'', ''/sys/fs/cgroup'', ''/run'', ''/tmp''}" for t
    using that by (auto simp: NW_OLD_ROOT_def)
  have pre: "\<exists>x. h = h7 @ x" by (simp add: h h8)
  have pres: "present h NW_ROOT_MNT s t" if "present h7 NW_ROOT_MNT s t" "NW_ROOT_MNT @ t \<noteq> ?old" for s t
  proof (cases "busy_at h7 NW_ROOT_MNT s t")
    case True
    then show ?thesis using pre busy_append by (auto simp: present_def)
  next
    case False
    then show ?thesis using that by (simp add: present_def v v8)
  qed
  have "\<forall>m\<in>set (mv_mounts (view h0)). fst m \<noteq> ?old \<longrightarrow> m \<in> set (mv_mounts (view h))"
    using growsD(2) [OF t0] by (simp add: v v8)
  moreover have "mv_dirs (view h0) \<subseteq> mv_dirs (view h)"
    using growsD(1) [OF t0] by (auto simp: v v8)
  moreover have "\<exists>x. h = h0 @ x" using t0 pre by (auto simp: grows_def)
  moreover have "mv_root (view h) = NW_ROOT_MNT" by (simp add: v v8 root'(7))
  moreover have "present h NW_ROOT_MNT ''proc'' ''/proc''" "present h NW_ROOT_MNT ''sysfs'' ''/sys''"
    "present h NW_ROOT_MNT ''devtmpfs'' ''/dev''" "present h NW_ROOT_MNT ''cgroup2'' ''/sys/fs/cgroup''"
    using pres [OF p7(1) ne] pres [OF p7(2) ne] pres [OF p7(3) ne] pres [OF p7(4) ne] by simp_all
  moreover have "(NW_ROOT_MNT @ ''/run'', ''tmpfs'', False) \<in> set (mv_mounts (view h))"
    "(NW_ROOT_MNT @ ''/tmp'', ''tmpfs'', False) \<in> set (mv_mounts (view h))"
    using p7(5,6) ne [of "''/run''"] ne [of "''/tmp''"] by (simp_all add: v v8)
  moreover have "pv \<longrightarrow> ?old \<notin> fst ` set (mv_mounts (view h))" by (auto simp: v v8)
  moreover have "last h = (exec_nw_root, None)" by (simp add: h)
  ultimately show ?thesis by blast
qed


subsection \<open>Dawn comes\<close>

text \<open>
  What a healthy machine may answer: a directory may be there, a file system of the kernel may be mounted,
  the pivot may be refused, the old root's directory may stay; the old root can be unmounted just if the
  pivot has mounted it.
\<close>

fun answers_well :: "record_of_calls \<Rightarrow> dcall \<Rightarrow> errno option \<Rightarrow> bool" where
  "answers_well h (Mkdir p) r \<longleftrightarrow> r = None \<or> r = Some EEXIST"
| "answers_well h (DMount src tgt fstype flags) r \<longleftrightarrow> r = None \<or> (r = Some EBUSY
     \<and> (src, tgt) \<in> {(''devtmpfs'', ''/dev''), (''proc'', ''/proc''), (''sysfs'', ''/sys''), (''cgroup2'', ''/sys/fs/cgroup'')})"
| "answers_well h (DPivot new put) r \<longleftrightarrow> True"
| "answers_well h (DUmount p) r \<longleftrightarrow> r = (if (DPivot ''.'' NW_OLD_ROOT, None) \<in> set h then None else Some EINVAL)"
| "answers_well h (Rmdir p) r \<longleftrightarrow> r = None \<or> r \<in> {Some EBUSY, Some ENOTEMPTY, Some ENOENT}"
| "answers_well h c r \<longleftrightarrow> r = None"

definition goes_on :: "record_of_calls \<Rightarrow> dawn_res \<Rightarrow> bool" where
  "goes_on h r \<longleftrightarrow> (\<exists>x. r = Inr (h @ x))"

lemma goes_on_next:
  assumes "goes_on h r" "\<And>x. r = Inr (h @ x) \<Longrightarrow> goes_on (h @ x) (f (h @ x))"
  shows "goes_on h (next_call r f)"
proof -
  from assms(1) obtain x where x: "r = Inr (h @ x)" by (auto simp: goes_on_def)
  then obtain y where "f (h @ x) = Inr ((h @ x) @ y)" using assms(2) by (auto simp: goes_on_def)
  with x show ?thesis by (simp add: goes_on_def)
qed

lemma goes_on_attempt: "k h c = None \<or> (\<exists>e\<in>set allowed. k h c = Some e) \<Longrightarrow> goes_on h (attempt k c allowed w a h)"
  by (auto simp: goes_on_def attempt_def)

lemma goes_on_mkdirs:
  assumes "\<forall>h c. answers_well h c (k h c)"
  shows "goes_on h (mkdirs k ds h)"
proof (induction ds arbitrary: h)
  case Nil
  then show ?case by (simp add: goes_on_def)
next
  case (Cons d ds)
  have "answers_well h (Mkdir d) (k h (Mkdir d))" using assms by blast
  then show ?case using Cons.IH by (auto intro!: goes_on_next goes_on_attempt)
qed

lemma goes_on_mkpath: "\<forall>h c. answers_well h c (k h c) \<Longrightarrow> good_path p \<Longrightarrow> goes_on h (mkpath k p h)"
  by (simp add: mkpath_def good_path_def goes_on_mkdirs)

lemma goes_on_do_mount:
  assumes "\<forall>h c. answers_well h c (k h c)" "good_path tgt"
    and "tgt \<notin> {''/dev'', ''/proc'', ''/sys'', ''/sys/fs/cgroup''}"
  shows "goes_on h (do_mount k src tgt fstype flags h)"
  unfolding do_mount_def
proof (intro goes_on_next goes_on_attempt goes_on_mkpath assms)
  fix x
  have "answers_well (h @ x) (DMount src tgt fstype flags) (k (h @ x) (DMount src tgt fstype flags))" using assms(1) by blast
  then show "k (h @ x) (DMount src tgt fstype flags) = None \<or> (\<exists>e\<in>set []. k (h @ x) (DMount src tgt fstype flags) = Some e)"
    using assms(3) by auto
qed

lemma goes_on_ensure_mount:
  assumes "\<forall>h c. answers_well h c (k h c)" "good_path tgt"
  shows "goes_on h (ensure_mount k src tgt fstype flags h)"
  unfolding ensure_mount_def
proof (intro goes_on_next goes_on_attempt goes_on_mkpath assms)
  fix x
  have "answers_well (h @ x) (DMount src tgt fstype flags) (k (h @ x) (DMount src tgt fstype flags))" using assms(1) by blast
  then show "k (h @ x) (DMount src tgt fstype flags) = None \<or> (\<exists>e\<in>set [EBUSY]. k (h @ x) (DMount src tgt fstype flags) = Some e)"
    by auto
qed

lemma goes_on_plain:
  assumes "\<forall>h c. answers_well h c (k h c)" "\<And>r. answers_well h c r \<Longrightarrow> r = None"
  shows "goes_on h (attempt k c [] w a h)"
  using assms by (intro goes_on_attempt) blast

lemma goes_on_dawn_mounts:
  assumes "\<forall>h c. answers_well h c (k h c)"
  shows "goes_on [] (dawn_mounts k root rootfs esp espfs)"
  unfolding dawn_mounts_def
  by (intro goes_on_next goes_on_mkpath goes_on_ensure_mount goes_on_do_mount goes_on_plain assms good_paths)
    (auto simp: NW_ROOT_MNT_def)

lemma goes_on_dawn_settles:
  assumes "\<forall>h c. answers_well h c (k h c)" "pv \<longrightarrow> (DPivot ''.'' NW_OLD_ROOT, None) \<in> set h"
  shows "goes_on h (dawn_settles k pv h)"
proof -
  have um: "goes_on (h @ x) (attempt k (DUmount p) [] w a (h @ x))" if pv for x p w a
    using assms(2) that by (intro goes_on_plain [OF assms(1)]) auto
  have stay: "goes_on hh (Inr hh)" for hh by (simp add: goes_on_def)
  have rm: "goes_on hh (attempt k (Rmdir p) [EBUSY, ENOTEMPTY, ENOENT] w a hh)" for hh p w a
  proof -
    have "answers_well hh (Rmdir p) (k hh (Rmdir p))" using assms(1) by blast
    then show ?thesis by (intro goes_on_attempt) auto
  qed
  show ?thesis
    unfolding dawn_settles_def
    by (intro goes_on_next goes_on_ensure_mount goes_on_do_mount rm assms(1) good_paths)
      (auto intro: goes_on_plain [OF assms(1)] um stay)
qed

text \<open>
  C39. Dawn comes on a healthy machine, and on both kinds: with the four parameters given it reaches
  process 1 whether the kernel lets it pivot or, running on the initial root, refuses and it moves the
  root; directories and kernel file systems that are there already are no failure, and the old root is
  unmounted just where that can succeed.
\<close>

theorem dawn_comes:
  assumes "\<forall>h c. answers_well h c (k h c)"
    and "\<forall>v\<in>{''NW_ROOT'', ''NW_ROOT_FSTYPE'', ''NW_ESP'', ''NW_ESP_FSTYPE''}. env v \<noteq> None \<and> env v \<noteq> Some []"
  shows "\<exists>h. dawn k env = Inr h"
proof -
  obtain root rootfs esp espfs where env: "need_env env ''NW_ROOT'' = Inr root" "need_env env ''NW_ROOT_FSTYPE'' = Inr rootfs"
    "need_env env ''NW_ESP'' = Inr esp" "need_env env ''NW_ESP_FSTYPE'' = Inr espfs"
    using assms(2) by (auto simp: need_env_def)
  obtain h1 where h1: "dawn_mounts k root rootfs esp espfs = Inr h1"
    using goes_on_dawn_mounts [OF assms(1), of root rootfs esp espfs] by (auto simp: goes_on_def)
  obtain pv r where sw: "swap_root k h1 = (pv, r)" by fastforce
  have "goes_on h1 r \<and> (\<forall>x. r = Inr (h1 @ x) \<longrightarrow> pv \<longrightarrow> (DPivot ''.'' NW_OLD_ROOT, None) \<in> set (h1 @ x))"
  proof (cases "k h1 (DPivot ''.'' NW_OLD_ROOT)")
    case None
    then show ?thesis using sw by (auto simp: swap_root_def goes_on_def)
  next
    case (Some e)
    let ?h = "h1 @ [(DPivot ''.'' NW_OLD_ROOT, Some e)]"
    have "goes_on ?h (next_call (attempt k (DMount ''.'' ''/'' [] [Move]) [] ''move-root'' [] ?h)
        (attempt k (DChroot ''.'') [] ''chroot'' []))"
      by (intro goes_on_next goes_on_plain assms(1)) auto
    then show ?thesis using sw Some by (auto simp: swap_root_def goes_on_def Let_def)
  qed
  then obtain x where x: "r = Inr (h1 @ x)" "pv \<longrightarrow> (DPivot ''.'' NW_OLD_ROOT, None) \<in> set (h1 @ x)"
    by (auto simp: goes_on_def)
  obtain h where "dawn_settles k pv (h1 @ x) = Inr h"
    using goes_on_dawn_settles [OF assms(1) x(2)] by (auto simp: goes_on_def)
  then show ?thesis using env h1 sw x(1) by (simp add: dawn_def)
qed

text \<open>The initial root refuses the pivot; the directories are new and \<^verbatim>\<open>/dev\<close> is mounted already.\<close>

fun lab_kernel :: dawn_kernel where
  "lab_kernel h (DPivot new put) = Some EINVAL"
| "lab_kernel h (DUmount p) = (if (DPivot ''.'' NW_OLD_ROOT, None) \<in> set h then None else Some EINVAL)"
| "lab_kernel h (DMount src tgt fstype flags) = (if (src, tgt) = (''devtmpfs'', ''/dev'') then Some EBUSY else None)"
| "lab_kernel h c = None"

definition demo_params :: env where
  "demo_params = [''NW_ROOT'' \<mapsto> ''/dev/vda'', ''NW_ROOT_FSTYPE'' \<mapsto> ''ext4'', ''NW_ESP'' \<mapsto> ''/dev/vdb'', ''NW_ESP_FSTYPE'' \<mapsto> ''vfat'']"

lemma initrd_healthy: "answers_well h c (lab_kernel h c)"
  by (cases c) auto

theorem dawn_comes_witness: "\<exists>h. dawn lab_kernel demo_params = Inr h"
  using dawn_comes [of lab_kernel demo_params] initrd_healthy by (simp add: demo_params_def)


end
