(* ===== verification/Control.thy ===== *)
theory Control
  imports Handoff Dawn
begin

text \<open>
  What \<^verbatim>\<open>main\<close> of \<^verbatim>\<open>nwsup.c\<close> does between its environment and its loop: the signal mask and handlers, the
  control directory, and the listening socket. The kernel's answers are an argument; what the calls
  change is the state.
\<close>

record ctl_answers =
  ca_mkdir_nw :: "errno option"
  ca_mkdir_ctl :: "errno option"
  ca_open_ctl :: bool
  ca_fchmod :: bool
  ca_socket :: bool
  ca_bind :: bool
  ca_listen :: bool

text \<open>
  The mode of the control directory if there is one, the mask for new files, the sockets with the mask
  they were bound under, the handled and the blocked signals.
\<close>

record ctl_state =
  cs_dir_mode :: "u32 option"
  cs_umask :: u32
  cs_socks :: "(bytes \<times> u32) list"
  cs_listening :: "bytes option"
  cs_handled :: "nat list"
  cs_blocked :: "nat list"

definition sizeof_sockpath :: nat where
  "sizeof_sockpath = Suc (length NW_CTL_DIR) + NW_NAME_LEN + 8"

definition sizeof_sun_path :: nat where "sizeof_sun_path = 108"

definition sockpath :: "bytes \<Rightarrow> bytes" where
  "sockpath nm = NW_CTL_DIR @ ''/'' @ nm @ ''.sock''"

definition mode_0700 :: u32 where "mode_0700 = 448"
definition mask_0077 :: u32 where "mask_0077 = 63"

definition ctl_setup :: "ctl_answers \<Rightarrow> bytes \<Rightarrow> ctl_state \<Rightarrow> ctl_state res" where
  "ctl_setup a nm s0 =
     (let s1 = s0\<lparr>cs_blocked := [], cs_handled := [SIGTERM, SIGINT]\<rparr>;
          made = (case ca_mkdir_ctl a of None \<Rightarrow> Some (and mode_0700 (not (cs_umask s1))) | Some _ \<Rightarrow> cs_dir_mode s1)
      in die_if (ca_mkdir_nw a \<noteq> None \<and> ca_mkdir_nw a \<noteq> Some EEXIST) ''ctl parent'' (
         die_if (ca_mkdir_ctl a \<noteq> None \<and> ca_mkdir_ctl a \<noteq> Some EEXIST) ''ctl dir'' (
         die_if (\<not> ca_open_ctl a) ''open ctl dir'' (
         die_if (\<not> ca_fchmod a) ''ctl dir mode'' (
         let s2 = s1\<lparr>cs_dir_mode := map_option (\<lambda>_. mode_0700) made\<rparr>; path = sockpath nm in
         die_if (sizeof_sockpath \<le> length path) ''ctl path'' (
         let s3 = s2\<lparr>cs_socks := filter (\<lambda>k. fst k \<noteq> path) (cs_socks s2)\<rparr>; old_umask = cs_umask s3;
             s4 = s3\<lparr>cs_umask := mask_0077\<rparr> in
         die_if (\<not> ca_socket a) ''ctl socket'' (
         die_if (sizeof_sun_path \<le> length path) ''ctl path'' (
         die_if (\<not> ca_bind a) ''ctl bind'' (
         let s5 = s4\<lparr>cs_socks := (path, cs_umask s4) # cs_socks s4\<rparr>; s6 = s5\<lparr>cs_umask := old_umask\<rparr> in
         die_if (\<not> ca_listen a) ''ctl listen'' (
         Inr (s6\<lparr>cs_listening := Some path\<rparr>)))))))))))"

text \<open>
  Every name a plan can hold has room, whatever mode the directory had before it has the narrow one, the
  socket is bound under the narrow mask and is the only one of its path, and the mask of the rest of the
  supervisor's life is the one it started with.
\<close>

lemma ctl_setup_leaves:
  assumes "ctl_setup a nm s = Inr s'" "ca_mkdir_ctl a = Some EEXIST \<longrightarrow> cs_dir_mode s \<noteq> None"
  shows "cs_dir_mode s' = Some mode_0700 \<and> cs_umask s' = cs_umask s \<and> cs_listening s' = Some (sockpath nm)
    \<and> filter (\<lambda>k. fst k = sockpath nm) (cs_socks s') = [(sockpath nm, mask_0077)]
    \<and> cs_blocked s' = [] \<and> cs_handled s' = [SIGTERM, SIGINT]"
  using assms by (auto simp: ctl_setup_def Let_def die_if_Inr filter_empty_conv)

lemma ctl_setup_fits:
  assumes "length nm < NW_NAME_LEN" "ca_mkdir_nw a \<in> {None, Some EEXIST}" "ca_mkdir_ctl a \<in> {None, Some EEXIST}"
    and "ca_open_ctl a" "ca_fchmod a" "ca_socket a" "ca_bind a" "ca_listen a"
  shows "\<exists>s'. ctl_setup a nm s = Inr s'"
proof -
  have "length (sockpath nm) < sizeof_sockpath" "length (sockpath nm) < sizeof_sun_path"
    using assms(1) by (simp_all add: sockpath_def sizeof_sockpath_def sizeof_sun_path_def NW_CTL_DIR_def NW_NAME_LEN_def)
  then show ?thesis using assms by (auto simp: ctl_setup_def Let_def die_if_def)
qed

end
