(* ===== verification/Tools.thy ===== *)
theory Tools
  imports HandoffSpec Pid1Args
begin

text \<open>
  The programs that read a plan outside the boot: \<^verbatim>\<open>nw-check\<close> of \<^verbatim>\<open>nwcheck_main.c\<close>, and \<^verbatim>\<open>unit-info\<close>, which prints
  a unit's fields for a relaunch; and \<^verbatim>\<open>rescue.c\<close>, which a failed boot runs. A program is a function to its
  exit code and what it writes; \<^verbatim>\<open>perror\<close>'s text comes from the kernel and is an argument.
\<close>

subsection \<open>Output\<close>

record ending =
  o_code :: int
  o_out :: bytes
  o_err :: bytes

definition fails :: "int \<Rightarrow> bytes \<Rightarrow> ending" where
  "fails code msg = \<lparr>o_code = code, o_out = [], o_err = msg @ ''\<newline>''\<rparr>"

definition prints :: "bytes \<Rightarrow> ending" where
  "prints text = \<lparr>o_code = 0, o_out = text, o_err = []\<rparr>"

definition perror :: "bytes \<Rightarrow> bytes \<Rightarrow> bytes" where
  "perror what strerror = what @ '': '' @ strerror"

definition hex8 :: "u32 \<Rightarrow> bytes" where
  "hex8 w = hex_of (map (\<lambda>k. char_of (unat (drop_bit k w))) [24, 16, 8, 0])"

text \<open>
  What both programs do with the path: the file and its size, the whole of it read, the seal. \<^verbatim>\<open>nw_check\<close>
  reads nothing outside a blob of the length it is told, so the last case does not occur.
\<close>

definition read_sealed :: "bytes \<Rightarrow> bytes \<Rightarrow> plan_file option \<Rightarrow> ending + bytes" where
  "read_sealed path strerror f =
     (case f of None \<Rightarrow> Inl (fails 2 (perror path strerror))
      | Some pf \<Rightarrow>
        case pf_size pf of None \<Rightarrow> Inl (fails 2 (perror ''stat'' strerror))
        | Some sz \<Rightarrow>
          if sz \<le> 0 \<or> uint NW_BLOB_MAX < sz then Inl (fails 1 ''blob size'')
          else let buf = take (nat sz) (pf_bytes pf) in
            if int (length buf) \<noteq> sz then Inl (fails 2 ''short read'')
            else case nw_check buf (of_nat (length buf)) of
              Some e \<Rightarrow>
                if e \<noteq> NW_OK
                then Inl (fails 1 (''REJECT '' @ the (nw_errstr (err_code e)) @ '' ('' @ dec_int (err_code e) @ '')''))
                else Inr buf
            | None \<Rightarrow> Inl (fails 139 []))"

subsection \<open>nw-check\<close>

definition nw_check_main :: "bytes list \<Rightarrow> bytes \<Rightarrow> plan_file option \<Rightarrow> ending" where
  "nw_check_main args strerror f =
     (case args of [path] \<Rightarrow>
        (case read_sealed path strerror f of Inl r \<Rightarrow> r
         | Inr buf \<Rightarrow>
           let h = nw_hdr buf in
           prints (''OK units='' @ dec (unat (h_n_units h)) @ '' binds='' @ dec (unat (h_n_binds h))
             @ '' edges='' @ dec (unat (h_n_edges h)) @ '' crc=0x'' @ hex8 (h_crc32 h) @ ''\<newline>''))
      | _ \<Rightarrow> fails 2 ''usage: nw-check <plan.blob>'')"

subsection \<open>unit-info\<close>

text \<open>\<^verbatim>\<open>strncmp\<close> answers 0, and the lengths agree.\<close>

definition unit_named :: "bytes \<Rightarrow> bytes \<Rightarrow> bool" where
  "unit_named nm want \<longleftrightarrow>
     take NW_NAME_LEN (cstr nm) = take NW_NAME_LEN want \<and> length (take NW_NAME_LEN (cstr nm)) = length want"

text \<open>The lines, each a name and a value.\<close>

definition unit_lines :: "bytes \<Rightarrow> nw_unit \<Rightarrow> bytes list \<Rightarrow> (bytes \<times> bytes) list" where
  "unit_lines want u paths =
     [(''UNIT'', want), (''EXEC_PATH'', cstr (u_exec_path u)), (''KIND'', dec (unat (u_kind u))),
      (''BUDGET'', dec (unat (u_budget u))), (''LIDS'', dec (unat (u_lids u))),
      (''BRICK'', if nw_unit_has_brick u then hex_of (u_brick u) else []), (''LAYER'', cstr (u_layer u)),
      (''LAYER_BYTES'', dec (unat (r_layer_bytes (u_res u))))]
     @ map (\<lambda>k. (''BIND_'' @ dec k, paths ! k)) [0..<length paths]
     @ [(''NBINDS'', dec (length paths))]"

fun find_unit :: "bytes \<Rightarrow> nw_unit list \<Rightarrow> nat \<Rightarrow> (nat \<times> nw_unit) option" where
  "find_unit want [] i = None"
| "find_unit want (u # us) i = (if unit_named (u_name u) want then Some (i, u) else find_unit want us (Suc i))"

definition unit_info :: "bytes list \<Rightarrow> bytes \<Rightarrow> plan_file option \<Rightarrow> ending" where
  "unit_info args strerror f =
     (case args of [path, want] \<Rightarrow>
        (case read_sealed path strerror f of Inl r \<Rightarrow> r
         | Inr buf \<Rightarrow>
           case find_unit want (nw_units buf) 0 of None \<Rightarrow> fails 3 (''no such unit: '' @ want)
           | Some (i, u) \<Rightarrow>
             prints (concat (map (\<lambda>(k, v). k @ ''='' @ v @ ''\<newline>'') (unit_lines want u (binds_of (nw_binds buf) i)))))
      | _ \<Rightarrow> fails 2 ''usage: unit-info <plan.blob> <unit-name>'')"

subsection \<open>rescue\<close>

definition rescue_main :: ending where
  "rescue_main = \<lparr>o_code = 3, o_out = [],
     o_err = ''[rescue] city map not used\<newline>[rescue] this slot is outside the plan\<newline>[rescue] pick yesterday or bake a new slot\<newline>''\<rparr>"

subsection \<open>They read what the boot reads\<close>

text \<open>The checker and process 1 take the same files.\<close>

lemma read_sealed_iff: "read_sealed path es f = Inr buf \<longleftrightarrow> load_plan f = Inr buf"
  by (auto simp: read_sealed_def load_plan_def die_if_def Let_def split: option.splits)

lemma read_sealed_code: "read_sealed path es f = Inl r \<Longrightarrow> o_code r \<noteq> 0"
  by (auto simp: read_sealed_def fails_def Let_def split: option.splits if_splits)

lemma checker_agrees: "o_code (nw_check_main [path] es f) = 0 \<longleftrightarrow> (\<exists>blob. load_plan f = Inr blob)"
  using read_sealed_iff [of path es f] read_sealed_code [of path es f]
  by (cases "read_sealed path es f") (auto simp: nw_check_main_def prints_def Let_def)

lemma find_unit_Some:
  "find_unit want us i = Some (j, u) \<longleftrightarrow>
     (\<exists>d<length us. j = i + d \<and> u = us ! d \<and> unit_named (u_name u) want \<and> (\<forall>k<d. \<not> unit_named (u_name (us ! k)) want))"
proof (induction us arbitrary: i)
  case Nil
  then show ?case by simp
next
  case (Cons x us)
  have ex: "(\<exists>d<Suc n. P d) \<longleftrightarrow> P 0 \<or> (\<exists>d<n. P (Suc d))" for P n by (metis less_Suc_eq_0_disj)
  have al: "(\<forall>k<Suc n. P k) \<longleftrightarrow> P 0 \<and> (\<forall>k<n. P (Suc k))" for P n by (metis less_Suc_eq_0_disj)
  show ?case by (auto simp: Cons.IH ex al)
qed

lemma load_plan_sealed:
  assumes "load_plan f = Inr blob"
  shows "length blob \<le> 35608" "nw_check blob (of_nat (length blob)) = Some NW_OK" "sealed_wf blob"
proof -
  have m: "uint NW_BLOB_MAX = 35608" by (simp add: NW_BLOB_MAX_val)
  from assms show l: "length blob \<le> 35608" and c: "nw_check blob (of_nat (length blob)) = Some NW_OK"
    by (auto simp: load_plan_def die_if_Inr Let_def m split: option.splits)
  have "length blob = unat (of_nat (length blob) :: u32)" using l by (simp add: unat_of_nat)
  from nw_check_decides [OF this] c show "sealed_wf blob" by (auto simp: decides_def)
qed

lemma unit_named_iff:
  "length (cstr nm) < NW_NAME_LEN \<Longrightarrow> unit_named nm want \<longleftrightarrow> cstr nm = want"
  by (auto simp: unit_named_def)



end
