(* ===== verification/Lab.thy ===== *)
theory Lab
  imports Tools Dawn Spawn
begin

text \<open>
  The small programs around the city: \<^verbatim>\<open>initrd-init.c\<close>, which loads the lab kernel's modules and runs
  \<^verbatim>\<open>dawn\<close>; \<^verbatim>\<open>unit_probe.c\<close>, the house that counts what it was handed; \<^verbatim>\<open>bootneed-oracle.c\<close>, which prints
  the boot's descriptor need for the specifications; and \<^verbatim>\<open>cloexec-proof.c\<close>, which tries on the running
  kernel what \<^verbatim>\<open>pack_kit\<close> relies on. None is trusted; each ties a fact of the other theories to a run.
\<close>

subsection \<open>initrd-init\<close>

text \<open>
  The kernel: which files are staged, whether it takes a module after those it has (or an error
  number), and whether the remount and the exec succeed.
\<close>

record initrd_kernel =
  ik_staged :: "bytes \<Rightarrow> bool"
  ik_load :: "bytes list \<Rightarrow> bytes \<Rightarrow> int option"
  ik_private :: bool
  ik_exec :: "bytes \<Rightarrow> bytes list \<Rightarrow> bool"

record initrd =
  in_loaded :: "bytes list"
  in_err :: bytes

definition in_emit :: "bytes \<Rightarrow> initrd \<Rightarrow> initrd" where
  "in_emit s x = x\<lparr>in_err := in_err x @ s\<rparr>"

text \<open>The do-while over the digits, last one first; \<open>room\<close> is what the buffer has left.\<close>

fun low_digits :: "nat \<Rightarrow> nat \<Rightarrow> bytes" where
  "low_digits 0 e = []"
| "low_digits (Suc room) e = digit (e mod 10) # (if 0 < e div 10 then low_digits room (e div 10) else [])"

definition errno_text :: "int \<Rightarrow> bytes" where
  "errno_text e = rev (low_digits 11 (nat (if e < 0 then - e else e)))"

definition load_module :: "initrd_kernel \<Rightarrow> bytes \<Rightarrow> initrd \<Rightarrow> initrd" where
  "load_module k path x =
     (if \<not> ik_staged k path then x
      else case ik_load k (in_loaded x) path of
        None \<Rightarrow> x\<lparr>in_loaded := in_loaded x @ [path]\<rparr>
      | Some e \<Rightarrow> in_emit (''[initrd] FAIL load '' @ path @ '' errno='' @ errno_text e @ ''\<newline>'') x)"

definition lab_modules :: "bytes list" where
  "lab_modules = [''/nls_iso8859_1.ko'', ''/nls_utf8.ko'', ''/overlay.ko'', ''/libcrc32c.ko'', ''/erofs.ko'']"

text \<open>\<open>Inl\<close> is the exit code; \<open>Inr\<close> is \<^verbatim>\<open>dawn\<close> running in its place.\<close>

definition initrd_main :: "initrd_kernel \<Rightarrow> (int + unit) \<times> initrd" where
  "initrd_main k =
     (let x = fold (load_module k) lab_modules \<lparr>in_loaded = [], in_err = []\<rparr> in
      if \<not> ik_private k then (Inl 80, in_emit ''[initrd] FAIL MS_PRIVATE /\<newline>'' x)
      else if \<not> ik_exec k ''/dawn'' [''init''] then (Inl 80, in_emit ''[initrd] FAIL exec /dawn\<newline>'' x)
      else (Inr (), x))"

lemma low_digits_dec: "e < 10 ^ room \<Longrightarrow> 0 < room \<Longrightarrow> rev (low_digits room e) = dec e"
proof (induction room arbitrary: e)
  case (Suc room)
  then have "e div 10 < 10 ^ room" by (simp add: div_less_iff_less_mult mult.commute)
  moreover have "0 < room" if "0 < e div 10" using \<open>e div 10 < 10 ^ room\<close> that by (cases room) simp_all
  ultimately show ?case using Suc.IH [of "e div 10"] by (auto simp: dec.simps [of e] div_eq_0_iff)
qed simp

text \<open>The number in the message is the error, for every error that is an \<^verbatim>\<open>int\<close>.\<close>

lemma errno_text_dec: "- (2 ^ 31) < e \<Longrightarrow> e < 2 ^ 31 \<Longrightarrow> errno_text e = dec (nat \<bar>e\<bar>)"
  unfolding errno_text_def by (subst low_digits_dec) (auto simp: abs_if)

text \<open>A module that is there and refused is named; one that is not there leaves no trace.\<close>

lemma load_module_speaks:
  "in_err (load_module k path x) = in_err x \<longleftrightarrow> \<not> ik_staged k path \<or> ik_load k (in_loaded x) path = None"
  by (auto simp: load_module_def in_emit_def split: option.splits)

lemma initrd_reaches_dawn:
  "fst (initrd_main k) = Inr () \<longleftrightarrow> ik_private k \<and> ik_exec k ''/dawn'' [''init'']"
  by (simp add: initrd_main_def Let_def)

text \<open>
  The order suffices for a kernel that takes a module once those it links against are there, and
  \<^verbatim>\<open>erofs\<close> links against \<^verbatim>\<open>libcrc32c\<close>.
\<close>

definition needs_crc :: "bytes \<Rightarrow> bytes list" where
  "needs_crc path = (if path = ''/erofs.ko'' then [''/libcrc32c.ko''] else [])"

lemma lab_modules_load:
  assumes "\<And>p. p \<in> set lab_modules \<Longrightarrow> ik_staged k p"
    and "\<And>got p. set (needs_crc p) \<subseteq> set got \<Longrightarrow> ik_load k got p = None"
  shows "in_loaded (snd (initrd_main k)) = lab_modules"
  using assms by (simp add: initrd_main_def lab_modules_def load_module_def in_emit_def needs_crc_def Let_def)

subsection \<open>unit-probe\<close>

text \<open>
  The names \<^verbatim>\<open>readdir\<close> gives for \<^verbatim>\<open>/proc/self/fd\<close>, among them the one of the directory's own descriptor.
\<close>

fun count_fds :: "u32 \<Rightarrow> bytes list \<Rightarrow> int \<Rightarrow> int" where
  "count_fds self [] n = n"
| "count_fds self (nm # names) n =
     (if take 1 nm = ''.'' then count_fds self names n
      else let fd = atoi nm in count_fds self names (if 3 \<le> sint fd \<and> fd \<noteq> self then n + 1 else n))"

fun live_fds :: "(bytes list \<times> u32) option \<Rightarrow> int" where
  "live_fds None = - 1"
| "live_fds (Some (names, self)) = count_fds self names 0"

text \<open>
  A line printed into a buffer and written with the length \<^verbatim>\<open>snprintf\<close> answered, which is the length of the
  whole text; \<open>None\<close> is a text longer than the buffer, past whose end \<^verbatim>\<open>write\<close> would read.
\<close>

definition write_line :: "nat \<Rightarrow> bytes \<Rightarrow> bytes option" where
  "write_line cap text = (if cap < length text then None else Some (take (length text) (snprintf cap text @ [NUL])))"

definition probe_line :: "env \<Rightarrow> (bytes list \<times> u32) option \<Rightarrow> int \<Rightarrow> bytes option" where
  "probe_line env dir pid =
     (let name = (case env ''NW_UNIT'' of None \<Rightarrow> ''?'' | Some v \<Rightarrow> v);
          lids = (case env ''NW_LIDS'' of None \<Rightarrow> ''0'' | Some v \<Rightarrow> v)
      in write_line 192 (''house='' @ name @ '' fds_ge3='' @ dec_int (live_fds dir) @ '' lids='' @ lids
            @ '' pid='' @ dec_int pid @ ''\<newline>''))"

lemma write_line_fits: "length s < cap \<Longrightarrow> write_line cap s = Some s"
  by (simp add: write_line_def snprintf_small)

lemma count_fds_filter:
  "count_fds self names n
    = n + int (length (filter (\<lambda>nm. take 1 nm \<noteq> ''.'' \<and> 3 \<le> sint (atoi nm) \<and> atoi nm \<noteq> self) names))"
  by (induction names arbitrary: n) (auto simp: Let_def)

lemma dec_no_dot: "take (Suc 0) (dec k) \<noteq> ''.''"
  using hd_dec [of k] by (cases "dec k") (auto simp: digit_char_def)

text \<open>The directory of a table, once the probe has opened it at \<open>self\<close>, in any order.\<close>

lemma live_fds_counts:
  assumes "set fds = insert self (dom t)" "distinct fds" "\<forall>fd\<in>set fds. fd < 2 ^ 31" "self \<notin> dom t"
  shows "live_fds (Some (''.'' # ''..'' # map dec fds, of_nat self)) = int (card {fd \<in> dom t. 3 \<le> fd})"
proof -
  have small: "atoi (dec fd) = of_nat fd" "sint (of_nat fd :: u32) = int fd" if "fd \<in> set fds" for fd
  proof -
    have "fd < 2 ^ 31" using assms(3) that by blast
    then show "atoi (dec fd) = of_nat fd" "sint (of_nat fd :: u32) = int fd"
      by (auto intro!: atoi_dec sint_small)
  qed
  have same: "(of_nat fd :: u32) = of_nat self \<longleftrightarrow> fd = self" if "fd \<in> set fds" for fd
    using small(2) [OF that] small(2) [of self] assms(1) by (metis insertI1 of_nat_eq_iff)
  have "filter (\<lambda>fd. take 1 (dec fd) \<noteq> ''.'' \<and> 3 \<le> sint (atoi (dec fd)) \<and> atoi (dec fd) \<noteq> of_nat self) fds
      = filter (\<lambda>fd. 3 \<le> fd \<and> fd \<noteq> self) fds"
    by (rule filter_cong [OF refl]) (simp add: small same dec_no_dot)
  moreover have "set (filter (\<lambda>fd. 3 \<le> fd \<and> fd \<noteq> self) fds) = {fd \<in> dom t. 3 \<le> fd}"
    using assms(1,4) by auto
  ultimately show ?thesis
    using distinct_card [of "filter (\<lambda>fd. 3 \<le> fd \<and> fd \<noteq> self) fds"] assms(2)
    by (simp add: count_fds_filter filter_map comp_def)
qed

text \<open>
  A house that starts with its kit counts its wires, so the \<^verbatim>\<open>0\<close> the suite asks for holds of the houses
  without an edge, and of those only.
\<close>

lemma dom_kit: "dom (kit dn lg wires) = {0..<3 + length wires}"
  by (auto simp: kit_def dom_def split: if_splits)

lemma probe_counts_wires:
  assumes "set fds = insert self (dom (kit dn lg wires))" "distinct fds" "\<forall>fd\<in>set fds. fd < 2 ^ 31"
    and "self \<notin> dom (kit dn lg wires)"
  shows "live_fds (Some (''.'' # ''..'' # map dec fds, of_nat self)) = int (length wires)"
proof -
  have "{fd \<in> dom (kit dn lg wires). 3 \<le> fd} = {3..<3 + length wires}" by (auto simp: dom_kit)
  then show ?thesis using live_fds_counts [OF assms] by simp
qed

lemma probe_counts_wires_example:
  "live_fds (Some (''.'' # ''..'' # map dec [0, 1, 2, 3, 4], of_nat 4)) = 1"
  using probe_counts_wires [of "[0, 1, 2, 3, 4]" 4 "0::nat" 1 "[2::nat]", unfolded dom_kit] by force

text \<open>The line fits for every name and lid word the spawner hands out.\<close>

lemma probe_line_fits:
  assumes "env ''NW_UNIT'' = Some name" "length name < NW_NAME_LEN" "env ''NW_LIDS'' = Some (dec (unat (lids :: u32)))"
    and "- (2 ^ 31) \<le> live_fds dir" "live_fds dir < 2 ^ 31" "- (2 ^ 31) \<le> pid" "pid < 2 ^ 31"
  shows "probe_line env dir pid = Some (''house='' @ name @ '' fds_ge3='' @ dec_int (live_fds dir)
    @ '' lids='' @ dec (unat lids) @ '' pid='' @ dec_int pid @ ''\<newline>'')" (is "_ = Some ?t")
proof -
  have "unat lids < 10 ^ Suc 9" using unsigned_less [of lids, where 'a = nat] by simp
  then have "length (dec (unat lids)) \<le> 10" using length_dec [of "unat lids" 9] by simp
  moreover have "length (dec_int (live_fds dir)) \<le> 11" "length (dec_int pid) \<le> 11"
    using assms by (auto intro!: length_dec_int)
  ultimately have short: "length ?t < 192" using assms(2) by (simp add: NW_NAME_LEN_def)
  have "probe_line env dir pid = write_line 192 ?t"
    unfolding probe_line_def Let_def assms(1,3) option.case ..
  then show ?thesis using write_line_fits [OF short] by simp
qed

subsection \<open>bootneed-oracle\<close>

definition atol :: "bytes \<Rightarrow> int" where
  "atol s = strtol s"

definition bootneed_main :: "bytes list \<Rightarrow> ending" where
  "bootneed_main args =
     (case args of [n, e] \<Rightarrow>
        prints (dec_int (sint (NW_BOOT_NEED (word_of_int (atol n)) (word_of_int (atol e)))) @ ''\<newline>'')
      | _ \<Rightarrow> fails 2 ''usage: bootneed-oracle N E'')"

text \<open>For every plan that passes the checker it prints the need itself: nothing wraps.\<close>

lemma bootneed_prints:
  assumes "n \<le> NW_MAX_UNITS" "e \<le> NW_MAX_EDGES"
  shows "bootneed_main [dec n, dec e] = prints (dec (NW_FD_RESERVED + n + 2 * e) @ ''\<newline>'')"
proof -
  have s: "strtol (dec k) = int k" if "k \<le> 128" for k using that by (simp add: strtol_def Let_def)
  have b: "n \<le> 64" "e \<le> 128" using assms by (simp_all add: nw_limits)
  have "(of_nat NW_FD_RESERVED + of_nat n + 2 * of_nat e :: u64) = of_nat (NW_FD_RESERVED + n + 2 * e)" by simp
  moreover have "sint (of_nat (NW_FD_RESERVED + n + 2 * e) :: u64) = int (NW_FD_RESERVED + n + 2 * e)"
    using b by (simp add: signed_of_nat signed_take_bit_int_eq_self nw_limits del: of_nat_add of_nat_mult)
  ultimately show ?thesis
    using b by (simp add: bootneed_main_def atol_def s NW_BOOT_NEED_def dec_int_def del: of_nat_add of_nat_mult)
qed

subsection \<open>cloexec-proof\<close>

text \<open>
  The kernel's \<^verbatim>\<open>dup2\<close> of a descriptor to itself is the argument under test; a call that fails leaves the
  table alone. A failed \<^verbatim>\<open>F_GETFD\<close> is \<open>-1\<close>, which has the bit.
\<close>

definition flag_bit :: "'f fdtab \<Rightarrow> nat \<Rightarrow> bool" where
  "flag_bit t fd = (case t fd of None \<Rightarrow> True | Some d \<Rightarrow> d_cloexec d)"

definition bit_text :: "bool \<Rightarrow> bytes" where
  "bit_text b = (if b then ''1'' else ''0'')"

definition cloexec_proof ::
  "(nat \<Rightarrow> nat \<Rightarrow> nat fdtab \<Rightarrow> nat fdtab option) \<Rightarrow> bytes \<Rightarrow> nat \<Rightarrow> nat fdtab \<Rightarrow> ending" where
  "cloexec_proof dup2 strerror limit t =
     (case fd_open limit 0 t of None \<Rightarrow> fails 1 (perror ''open'' strerror)
      | Some (fd, t1) \<Rightarrow>
        let out1 = ''before: FD_CLOEXEC='' @ bit_text (flag_bit t1 fd) @ ''\<newline>'';
            rc = dup2 fd fd t1;
            t2 = (case rc of None \<Rightarrow> t1 | Some t' \<Rightarrow> t');
            out2 = out1 @ ''dup2(fd,fd) returned '' @ dec_int (if rc = None then - 1 else int fd)
              @ ''; after dup2 alone: FD_CLOEXEC='' @ bit_text (flag_bit t2 fd)
              @ '' (must still be SET -- dup2(fd,fd) is a true no-op)\<newline>''
        in if \<not> flag_bit t2 fd
           then \<lparr>o_code = 1, o_out = out2, o_err = ''FAIL: dup2(fd,fd) cleared FD_CLOEXEC on this ''
             @ ''kernel -- pack_kit()'' @ [CHR 0x27] @ ''s comment'' @ [CHR 0x27] @ ''s premise does not hold here.\<newline>''\<rparr>
           else
             let t3 = (case fd_clear_cloexec fd t2 of None \<Rightarrow> t2 | Some t' \<Rightarrow> t');
                 out3 = out2 @ ''after explicit clear_cloexec(fd): FD_CLOEXEC='' @ bit_text (flag_bit t3 fd)
                   @ '' (must now be CLEAR)\<newline>''
             in if flag_bit t3 fd
                then \<lparr>o_code = 1, o_out = out3, o_err = ''FAIL: clear_cloexec did not clear it.\<newline>''\<rparr>
                else prints (out3 @ ''PASS\<newline>''))"

text \<open>It passes on exactly the kernels whose \<^verbatim>\<open>dup2\<close> keeps the flag, the one of the descriptor model among them.\<close>

lemma cloexec_proof_decides:
  assumes "fd_open limit 0 t = Some (fd, t1)"
  shows "o_code (cloexec_proof dup2 es limit t) = 0 \<longleftrightarrow>
    (case dup2 fd fd t1 of None \<Rightarrow> True | Some t' \<Rightarrow> \<exists>d. t' fd = Some d \<and> d_cloexec d)"
proof -
  have "t1 fd = Some \<lparr>d_file = 0, d_cloexec = True\<rparr>"
    using fd_new_Some [OF assms [unfolded fd_open_def]] by simp
  then show ?thesis
    using assms by (auto simp: cloexec_proof_def fails_def prints_def Let_def fd_clear_cloexec_def flag_bit_def
      split: option.splits)
qed

lemma model_passes_proof: "fd_open limit 0 t \<noteq> None \<Longrightarrow> o_code (cloexec_proof (fd_dup2 limit) es limit t) = 0"
  by (auto simp: cloexec_proof_decides fd_dup2_def split: option.splits)
    (auto simp: fd_open_def dest: fd_new_Some)

end
