(* ===== verification/Harness.thy ===== *)
theory Harness
  imports Seal Decide
begin

text \<open>
  The bounded proofs of \<^verbatim>\<open>proofs/\<close>, without their bounds. Each harness there runs a function on inputs a
  solver leaves free and asserts something of the result, for one unit, two names, no edge. Here the
  assertions are predicates, the runs are functions, and what the solver was asked at a size is proved at
  every size the format allows. \<^verbatim>\<open>caller_nw_check.c\<close> replaces the leaves of the validator by stubs that
  answer anything; so does the model of it.
\<close>

subsection \<open>leaf_name_ok.c and leaf_path_ok.c\<close>

definition byte_at :: "bytes \<Rightarrow> nat \<Rightarrow> byte" where
  "byte_at buf i = (if i < length buf then buf ! i else NUL)"

definition leaf_name_asserts :: "bytes \<Rightarrow> bool" where
  "leaf_name_asserts buf \<longleftrightarrow> byte_at buf 0 \<noteq> NUL \<and> byte_at buf (NW_NAME_LEN - 1) = NUL
     \<and> list_all (\<lambda>i. list_all (\<lambda>j. byte_at buf i \<noteq> NUL \<or> byte_at buf j = NUL) [Suc i..<NW_NAME_LEN]) [0..<NW_NAME_LEN]
     \<and> list_all (\<lambda>i. byte_at buf i = NUL \<or> name_char (byte_at buf i)) [0..<NW_NAME_LEN]"

definition leaf_path_asserts :: "bytes \<Rightarrow> bool" where
  "leaf_path_asserts buf \<longleftrightarrow> byte_at buf 0 = CHR ''/''
     \<and> list_ex (\<lambda>i. byte_at buf i = NUL) [0..<NW_PATH_LEN]
     \<and> list_all (\<lambda>i. \<not> (byte_at buf i = CHR ''/'' \<and> byte_at buf (i + 1) = CHR ''.'' \<and> byte_at buf (i + 2) = CHR ''.''
          \<and> (byte_at buf (i + 3) = CHR ''/'' \<or> byte_at buf (i + 3) = NUL))) [0..<NW_PATH_LEN - 3]"

text \<open>In a padded field every byte from the terminator on is zero.\<close>

lemma byte_at_padded: "padded s \<Longrightarrow> byte_at s i = (if i < length (cstr s) then cstr s ! i else NUL)"
proof -
  assume "padded s"
  then have s: "s = cstr s @ replicate (length s - length (cstr s)) NUL" using padded_eq by blast
  show ?thesis
  proof (cases "i < length s")
    case True
    then show ?thesis by (subst s) (simp add: byte_at_def nth_append)
  next
    case False
    then show ?thesis using length_cstr [of s] by (simp add: byte_at_def)
  qed
qed

lemma cstr_nth: "i < length (cstr s) \<Longrightarrow> cstr s ! i \<noteq> NUL"
  using cstr_no_NUL nth_mem by metis

lemma name_wf_asserts:
  assumes "length s = NW_NAME_LEN" "name_wf s"
  shows "leaf_name_asserts s"
proof -
  have p: "padded s" "cstr s \<noteq> []" "list_all name_char (cstr s)" using assms(2) by (simp_all add: name_wf_def)
  have "length (cstr s) < NW_NAME_LEN" using p(1) assms(1) by (simp add: padded_def)
  then show ?thesis
    using p cstr_nth by (auto simp: leaf_name_asserts_def byte_at_padded list_all_iff list_all_length)
qed

lemma path_wf_asserts:
  assumes "length s = NW_PATH_LEN" "path_wf s"
  shows "leaf_path_asserts s"
proof -
  let ?c = "cstr s"
  have p: "padded s" "2 \<le> length ?c" "hd ?c = CHR ''/''" and u: "\<forall>j<length ?c. \<not> updir_at ?c j"
    using assms(2) by (simp_all add: path_wf_alt)
  have len: "length ?c < NW_PATH_LEN" using p(1) assms(1) by (simp add: padded_def)
  have "\<not> (byte_at s i = CHR ''/'' \<and> byte_at s (i + 1) = CHR ''.'' \<and> byte_at s (i + 2) = CHR ''.''
      \<and> (byte_at s (i + 3) = CHR ''/'' \<or> byte_at s (i + 3) = NUL))" for i
  proof
    assume a: "byte_at s i = CHR ''/'' \<and> byte_at s (i + 1) = CHR ''.'' \<and> byte_at s (i + 2) = CHR ''.''
      \<and> (byte_at s (i + 3) = CHR ''/'' \<or> byte_at s (i + 3) = NUL)"
    then have l: "i < length ?c" "i + 1 < length ?c" "i + 2 < length ?c"
      and n: "?c ! i = CHR ''/''" "?c ! (i + 1) = CHR ''.''" "?c ! (i + 2) = CHR ''.''"
      by (auto simp: byte_at_padded [OF p(1)] split: if_splits)
    have "take 3 (drop i ?c) = ''/..''"
      using l n by (simp add: numeral_3_eq_3 Cons_nth_drop_Suc [symmetric])
    moreover have "drop (i + 3) ?c = [] \<or> hd (drop (i + 3) ?c) = CHR ''/''"
      using a cstr_nth [of "i + 3" s] by (auto simp: byte_at_padded [OF p(1)] hd_drop_conv_nth split: if_splits)
    ultimately show False using u l(1) by (simp add: updir_at_def)
  qed
  moreover have "byte_at s 0 = CHR ''/''" using p by (auto simp: byte_at_padded hd_conv_nth)
  moreover have "byte_at s (length ?c) = NUL" using p(1) by (simp add: byte_at_padded)
  ultimately show ?thesis using len by (auto simp: leaf_path_asserts_def list_all_iff list_ex_iff)
qed

lemma leaves_hold:
  "length s = NW_NAME_LEN \<Longrightarrow> \<exists>r. name_ok s NW_NAME_LEN = Some r \<and> (r \<longrightarrow> leaf_name_asserts s)"
  "length s = NW_PATH_LEN \<Longrightarrow> \<exists>r. path_ok s = Some r \<and> (r \<longrightarrow> leaf_path_asserts s)"
  by (simp_all add: name_ok_spec path_ok_def path_ok_len_spec name_wf_asserts path_wf_asserts nw_limits)

subsection \<open>leaf_name_dup.c\<close>

text \<open>
  The run: the units in order, against a table that starts empty, stopping at the first report. The outer
  \<open>None\<close> is an access outside an array.
\<close>

fun dup_scan :: "(nw_unit \<Rightarrow> bytes) \<Rightarrow> nw_unit list \<Rightarrow> nw_dup_tab \<Rightarrow> nat list \<Rightarrow> bool option" where
  "dup_scan f us t [] = Some False"
| "dup_scan f us t (i # is) =
     (case field_dup f t us i of None \<Rightarrow> None
      | Some (d, t') \<Rightarrow> if d then Some True else dup_scan f us t' is)"

definition fields_equal :: "bytes \<Rightarrow> bytes \<Rightarrow> bool" where
  "fields_equal a b \<longleftrightarrow> list_all (\<lambda>k. byte_at a k = byte_at b k) [0..<NW_NAME_LEN]"

definition dup_exists :: "(nw_unit \<Rightarrow> bytes) \<Rightarrow> nw_unit list \<Rightarrow> bool" where
  "dup_exists f us \<longleftrightarrow>
     list_ex (\<lambda>a. list_ex (\<lambda>b. fields_equal (f (us ! a)) (f (us ! b))) [Suc a..<length us]) [0..<length us]"

text \<open>What the harness assumes of a field: not empty, and padded to its width.\<close>

definition dup_assumes :: "bytes \<Rightarrow> bool" where
  "dup_assumes s \<longleftrightarrow> byte_at s 0 \<noteq> NUL \<and> byte_at s (NW_NAME_LEN - 1) = NUL
     \<and> list_all (\<lambda>k. byte_at s (k - 1) \<noteq> NUL \<or> byte_at s k = NUL) [1..<NW_NAME_LEN]"

lemma zero_from:
  assumes "\<forall>k\<in>{1..<n}. byte_at s (k - 1) \<noteq> NUL \<or> byte_at s k = NUL" "byte_at s i = NUL" "i \<le> j" "j < n"
  shows "byte_at s j = NUL"
  using assms(3,4)
proof (induction rule: dec_induct)
  case base
  then show ?case using assms(2) by simp
next
  case (step m)
  then show ?case using assms(1) by (metis Suc_lessD atLeastLessThan_iff diff_Suc_1 le_add1 plus_1_eq_Suc)
qed

lemma dup_assumes_padded:
  assumes "length s = NW_NAME_LEN" "dup_assumes s"
  shows "padded s"
proof -
  have step: "\<forall>k\<in>{1..<NW_NAME_LEN}. byte_at s (k - 1) \<noteq> NUL \<or> byte_at s k = NUL"
    using assms(2) by (auto simp: dup_assumes_def list_all_iff)
  let ?n = "length (cstr s)"
  have "NUL \<in> set s"
    using assms nth_mem [of "NW_NAME_LEN - 1" s] by (simp add: dup_assumes_def byte_at_def NW_NAME_LEN_def)
  then have lt: "?n < length s"
    using takeWhile_eq_all_conv [of "\<lambda>c. c \<noteq> NUL" s] length_cstr [of s] takeWhile_eq_take [of "\<lambda>c. c \<noteq> NUL" s]
    by (auto simp: cstr_def order.order_iff_strict)
  then have "byte_at s ?n = NUL"
    using nth_length_takeWhile [of "\<lambda>c. c \<noteq> NUL" s] by (simp add: byte_at_def cstr_def)
  then have "byte_at s j = NUL" if "?n \<le> j" "j < length s" for j
    using zero_from [OF step _ that(1)] that(2) assms(1) by simp
  then have "\<forall>c\<in>set (drop ?n s). c = NUL"
    using lt by (auto simp: in_set_conv_nth byte_at_def)
  then show ?thesis using lt by (simp add: padded_def)
qed

lemma fields_equal_cstr:
  assumes "length a = NW_NAME_LEN" "length b = NW_NAME_LEN" "padded a" "padded b"
  shows "fields_equal a b \<longleftrightarrow> cstr a = cstr b"
proof -
  have "fields_equal a b \<longleftrightarrow> a = b"
    using assms(1,2) by (auto simp: fields_equal_def list_all_iff byte_at_def intro!: nth_equalityI)
  then show ?thesis using padded_inj assms by simp
qed

lemma dup_scan_from:
  assumes len: "\<forall>j<length us. length (f (us ! j)) = NW_NAME_LEN" and "length us \<le> NW_DUP_SLOTS"
  shows "tab_inv f us {..<i} t \<Longrightarrow> i \<le> length us \<Longrightarrow>
    dup_scan f us t [i..<length us] =
      Some (\<exists>b\<in>{i..<length us}. \<exists>a<b. cstr (f (us ! a)) = cstr (f (us ! b)))"
proof (induction "length us - i" arbitrary: i t)
  case 0
  then show ?case by simp
next
  case (Suc n)
  then have i: "i < length us" by simp
  let ?d = "\<exists>j\<in>{..<i}. cstr (f (us ! j)) = cstr (f (us ! i))"
  obtain t' where t': "field_dup f t us i = Some (?d, t')" "?d \<or> tab_inv f us (insert i {..<i}) t'"
    using field_dup_spec [OF len Suc.prems(1) i] i assms(2) by auto
  have split: "{i..<length us} = insert i {Suc i..<length us}" using i by auto
  show ?case
  proof (cases ?d)
    case True
    then show ?thesis using t' i by (auto simp: upt_conv_Cons)
  next
    case False
    then have "tab_inv f us {..<Suc i} t'" using t'(2) by (simp add: lessThan_Suc)
    then have "dup_scan f us t' [Suc i..<length us] =
        Some (\<exists>b\<in>{Suc i..<length us}. \<exists>a<b. cstr (f (us ! a)) = cstr (f (us ! b)))"
      using Suc.hyps(2) i by (intro Suc.hyps(1)) simp_all
    then show ?thesis using t'(1) False i by (auto simp: upt_conv_Cons split)
  qed
qed

text \<open>
  C6. A duplicate is reported exactly when one exists: for any number of units up to the slots of the
  table, with colliding hashes or without, and for either field the validator scans, the run over the
  table answers what the comparison of every pair of whole fields answers, and touches no slot outside
  the table. The harness in the repository asks this of two units.
\<close>

theorem dup_reported_iff_exists:
  assumes "length us \<le> NW_DUP_SLOTS"
    and "\<forall>u\<in>set us. length (f u) = NW_NAME_LEN \<and> dup_assumes (f u)"
  shows "dup_scan f us name_dup_init [0..<length us] = Some (dup_exists f us)"
proof -
  have len: "\<forall>j<length us. length (f (us ! j)) = NW_NAME_LEN" using assms(2) by simp
  have eq: "fields_equal (f (us ! a)) (f (us ! b)) \<longleftrightarrow> cstr (f (us ! a)) = cstr (f (us ! b))"
    if "a < length us" "b < length us" for a b
    using assms(2) that by (intro fields_equal_cstr dup_assumes_padded) simp_all
  have "dup_exists f us \<longleftrightarrow>
      (\<exists>a<length us. \<exists>b<length us. a < b \<and> fields_equal (f (us ! a)) (f (us ! b)))"
    unfolding dup_exists_def list_ex_iff set_upt by (meson Suc_le_eq atLeastLessThan_iff le0 less_trans)
  also have "\<dots> \<longleftrightarrow> (\<exists>a<length us. \<exists>b<length us. a < b \<and> cstr (f (us ! a)) = cstr (f (us ! b)))"
    using eq by blast
  also have "\<dots> \<longleftrightarrow> (\<exists>b\<in>{0..<length us}. \<exists>a<b. cstr (f (us ! a)) = cstr (f (us ! b)))"
    by (meson atLeastLessThan_iff le0 less_trans)
  finally have "dup_exists f us \<longleftrightarrow> (\<exists>b\<in>{0..<length us}. \<exists>a<b. cstr (f (us ! a)) = cstr (f (us ! b)))" .
  moreover have "tab_inv f us {..<0} name_dup_init" using tab_inv_init by simp
  ultimately show ?thesis using dup_scan_from [OF len assms(1), of 0] by simp
qed

text \<open>The two units of the demo plan with one more that repeats the first one's name.\<close>

theorem dup_reported_iff_exists_witness:
  "dup_scan u_name (demo_units @ [demo_units ! 0]) name_dup_init [0..<3] = Some True"
proof -
  let ?us = "demo_units @ [demo_units ! 0]"
  have "length ?us = 3" by (simp add: demo_units_def)
  moreover have "list_all (\<lambda>u. length (u_name u) = NW_NAME_LEN \<and> dup_assumes (u_name u)) ?us" by code_simp
  moreover have "dup_exists u_name ?us" by code_simp
  ultimately show ?thesis
    using dup_reported_iff_exists [of ?us u_name] by (simp add: NW_DUP_SLOTS_def list_all_iff)
qed

subsection \<open>caller_decide.c\<close>

text \<open>Its assertions, of one call; \<open>d\<close> is the decision and the last two are for a START flag set and unset.\<close>

definition decide_asserts ::
  "bool \<Rightarrow> bool \<Rightarrow> bool \<Rightarrow> bool \<Rightarrow> bool \<Rightarrow> bool \<Rightarrow> wstatus \<Rightarrow> nw_decision \<Rightarrow> nw_decision \<Rightarrow> nw_decision \<Rightarrow> bool" where
  "decide_asserts lk c0 stopping stopr hc ce st d with_start without_start \<longleftrightarrow>
     (hc \<and> ce \<and> stopr \<longrightarrow> d \<noteq> NW_DECIDE_RESTART \<and> d \<noteq> NW_DECIDE_SPENT)
   \<and> (hc \<and> ce \<and> \<not> lk \<longrightarrow> d \<noteq> NW_DECIDE_RESTART \<and> d \<noteq> NW_DECIDE_SPENT)
   \<and> (d = NW_DECIDE_SPENT \<longrightarrow> lk)
   \<and> (d = NW_DECIDE_RESTART \<or> d = NW_DECIDE_SPENT \<longrightarrow>
        hc \<and> ce \<and> lk \<and> \<not> stopr \<and> \<not> (c0 \<and> WIFEXITED st \<and> WEXITSTATUS st = 0))
   \<and> (stopping \<longrightarrow> d \<noteq> NW_DECIDE_FORK \<and> d \<noteq> NW_DECIDE_RESTART)
   \<and> (hc \<and> \<not> ce \<longrightarrow> with_start = without_start)"

lemma decide_harness:
  "decide_asserts lk c0 stopping stopr hc ce st
     (nw_decide lk c0 stopping stopr startr hc ce st deaths budget)
     (nw_decide lk c0 stopping stopr True hc ce st deaths budget)
     (nw_decide lk c0 stopping stopr False hc ce st deaths budget)"
  by (simp add: decide_asserts_def nw_decide_def)

subsection \<open>caller_nw_check.c\<close>

text \<open>
  The validator with stubs for leaves. A stub's answers are arbitrary: a function of the call, which the
  unit or bind and the field number, so that no two calls need agree. The hash and the table fall away
  with \<open>field_dup\<close>.
\<close>

datatype call = NameOf nat | LayerOf nat | ExecOf nat | BindOf nat

record stubs =
  st_name :: "call \<Rightarrow> bytes \<Rightarrow> bool"
  st_path :: "call \<Rightarrow> bytes \<Rightarrow> bool"
  st_dup :: "call \<Rightarrow> bool"
  st_crc :: u32

text \<open>What a stub assumes when it accepts, and no more.\<close>

definition stubs_assume :: "stubs \<Rightarrow> bool" where
  "stubs_assume L \<longleftrightarrow>
     (\<forall>c s. length s = NW_NAME_LEN \<longrightarrow> st_name L c s \<longrightarrow> byte_at s 0 \<noteq> NUL \<and> NUL \<in> set s)
   \<and> (\<forall>c s. length s = NW_PATH_LEN \<longrightarrow> st_path L c s \<longrightarrow> byte_at s 0 = CHR ''/'' \<and> NUL \<in> set s)"

definition comp_unit :: "stubs \<Rightarrow> nat \<Rightarrow> nw_unit \<Rightarrow> nw_err option" where
  "comp_unit L i u =
     require (Some (st_name L (NameOf i) (u_name u))) NW_E_NAME (
     require (Some (st_path L (ExecOf i) (u_exec_path u))) NW_E_PATH (
     refuse_if (u_kind u \<noteq> NW_KIND_ONESHOT \<and> u_kind u \<noteq> NW_KIND_LONGRUN) NW_E_KIND (
     let has_brick = nw_unit_has_brick u in
     refuse_if (has_lid (u_lids u) NW_LID_LANDLOCK \<and> \<not> has_brick) NW_E_LLBRICK (
     refuse_if (has_brick \<and> \<not> has_lid (u_lids u) NW_LID_NEWNS) NW_E_BRICKNS (
     case idx (u_layer u) 0 of None \<Rightarrow> None | Some l0 \<Rightarrow>
     let has_layer = (l0 \<noteq> NUL) in
     require (Some (\<not> has_layer \<or> st_name L (LayerOf i) (u_layer u))) NW_E_LAYER (
     require (if \<not> has_layer then zero_tail (u_layer u) NW_NAME_LEN 0 else Some True) NW_E_LAYER (
     refuse_if (has_layer \<noteq> has_brick) NW_E_LAYERPAIR (
     check_res (u_res u) has_layer (
     check_closed u)))))))))"

fun comp_units :: "stubs \<Rightarrow> nat \<Rightarrow> nw_unit list \<Rightarrow> nw_err option" where
  "comp_units L i [] = Some NW_OK"
| "comp_units L i (u # rest) =
     (case comp_unit L i u of None \<Rightarrow> None | Some e \<Rightarrow>
      if e \<noteq> NW_OK then Some e
      else if st_dup L (NameOf i) then Some NW_E_DUPNAME
      else case idx (u_layer u) 0 of None \<Rightarrow> None | Some l0 \<Rightarrow>
      if l0 \<noteq> NUL \<and> st_dup L (LayerOf i) then Some NW_E_LAYERDUP
      else comp_units L (Suc i) rest)"

fun comp_binds :: "stubs \<Rightarrow> nw_unit list \<Rightarrow> nat \<Rightarrow> nw_bind list \<Rightarrow> nw_err option" where
  "comp_binds L us k [] = Some NW_OK"
| "comp_binds L us k (b # rest) =
     refuse_if (length us \<le> unat (b_unit b)) NW_E_BINDIDX (
     require (Some (st_path L (BindOf k) (b_path b))) NW_E_BINDPATH (
     case idx us (unat (b_unit b)) of None \<Rightarrow> None | Some u \<Rightarrow>
     refuse_if (\<not> nw_unit_has_brick u) NW_E_BINDIDX (
     comp_binds L us (Suc k) rest)))"

definition comp_check :: "stubs \<Rightarrow> bytes \<Rightarrow> u32 \<Rightarrow> nw_err option" where
  "comp_check L blob len =
     (if len < of_nat sizeof_hdr then Some NW_E_SIZE
      else let h = nw_hdr blob in
        refuse_if (h_magic h \<noteq> NW_MAGIC) NW_E_MAGIC (
        refuse_if (h_n_units h < 1 \<or> of_nat NW_MAX_UNITS < h_n_units h) NW_E_UNITS (
        refuse_if (of_nat NW_MAX_BINDS < h_n_binds h) NW_E_BINDS (
        refuse_if (of_nat NW_MAX_EDGES < h_n_edges h) NW_E_EDGES (
        let need = ucast (NW_BLOB_SIZE (ucast (h_n_units h)) (ucast (h_n_binds h))
                     (ucast (h_n_edges h))) :: u32 in
        refuse_if (len \<noteq> need) NW_E_SIZE (
        refuse_if (st_crc L \<noteq> h_crc32 h) NW_E_CRC (
        let us = nw_units blob in
        case comp_units L 0 us of None \<Rightarrow> None | Some e \<Rightarrow>
        if e \<noteq> NW_OK then Some e
        else case comp_binds L us 0 (nw_binds blob) of None \<Rightarrow> None | Some e \<Rightarrow>
        if e \<noteq> NW_OK then Some e
        else check_edges us [] (nw_edges blob))))))))"

text \<open>What the harness asserts of an accepted blob. The brick is scanned here once more, on purpose.\<close>

definition open_coded_brick :: "nw_unit \<Rightarrow> bool" where
  "open_coded_brick u \<longleftrightarrow> list_ex (\<lambda>i. byte_at (u_brick u) i \<noteq> NUL) [0..<NW_BRICK_HASH]"

definition caller_unit_asserts :: "nw_unit \<Rightarrow> bool" where
  "caller_unit_asserts u \<longleftrightarrow> list_ex (\<lambda>i. byte_at (u_name u) i = NUL) [0..<NW_NAME_LEN]
     \<and> byte_at (u_exec_path u) 0 = CHR ''/'' \<and> u_lock u \<le> NW_LOCK_MAX
     \<and> (open_coded_brick u \<longrightarrow> has_lid (u_lids u) NW_LID_NEWNS)
     \<and> (has_lid (u_lids u) NW_LID_LANDLOCK \<longrightarrow> open_coded_brick u)
     \<and> (u_kind u = NW_KIND_ONESHOT \<or> u_kind u = NW_KIND_LONGRUN)
     \<and> u_lids u AND NOT (NW_LID_SECCOMP OR NW_LID_LANDLOCK OR NW_LID_NEWNS OR NW_LID_NEWNET) = 0"

definition caller_asserts :: "nw_unit list \<Rightarrow> nw_bind list \<Rightarrow> bool" where
  "caller_asserts us bs \<longleftrightarrow> list_all caller_unit_asserts us
     \<and> list_all (\<lambda>b. unat (b_unit b) < length us \<and> open_coded_brick (us ! unat (b_unit b))) bs"

text \<open>The stub that answers what the leaves answer.\<close>

definition real_stubs :: "bytes \<Rightarrow> stubs" where
  "real_stubs blob = (let us = nw_units blob in
     \<lparr>st_name = \<lambda>c s. name_wf s, st_path = \<lambda>c s. path_wf s,
      st_dup = \<lambda>c. (case c of
          NameOf i \<Rightarrow> \<exists>j\<in>{..<i}. cstr (u_name (us ! j)) = cstr (u_name (us ! i))
        | LayerOf i \<Rightarrow> \<exists>j\<in>layered us i. cstr (u_layer (us ! j)) = cstr (u_layer (us ! i))
        | _ \<Rightarrow> False),
      st_crc = crc_of blob\<rparr>)"

lemma real_stubs_assume: "stubs_assume (real_stubs blob)"
proof -
  have "NUL \<in> set s" if "padded s" for s
    using that padded_eq [of s] by (metis Suc_diff_Suc Un_iff insertI1 list.simps(15) padded_def replicate_Suc set_append)
  moreover have "byte_at s 0 \<noteq> NUL" if "padded s" "cstr s \<noteq> []" for s
    using that cstr_nth [of 0 s] by (simp add: byte_at_padded)
  moreover have "byte_at s 0 = CHR ''/''" if "padded s" "2 \<le> length (cstr s)" "hd (cstr s) = CHR ''/''" for s
    using that by (auto simp: byte_at_padded hd_conv_nth)
  ultimately show ?thesis
    by (simp add: stubs_assume_def real_stubs_def Let_def name_wf_def path_wf_def)
qed

lemma comp_unit_real:
  assumes "unit_extents u"
  shows "comp_unit (real_stubs blob) i u = check_unit u"
proof -
  have "name_ok (u_name u) NW_NAME_LEN = Some (name_wf (u_name u))" "path_ok (u_exec_path u) = Some (path_wf (u_exec_path u))"
    "name_ok (u_layer u) NW_NAME_LEN = Some (name_wf (u_layer u))"
    using assms by (simp_all add: name_ok_spec path_ok_def path_ok_len_spec unit_extents_def nw_limits)
  then show ?thesis
    by (simp add: comp_unit_def check_unit_def real_stubs_def Let_def split: option.splits if_splits)
qed

lemma comp_units_real:
  fixes blob
  defines "us \<equiv> nw_units blob"
  assumes ext: "\<forall>j<length us. unit_extents (us ! j)" and small: "length us \<le> NW_MAX_UNITS"
  shows "rest = drop i us \<Longrightarrow> tab_inv u_name us {..<i} dup \<Longrightarrow> tab_inv u_layer us (layered us i) lay \<Longrightarrow>
    check_units us i rest dup lay = comp_units (real_stubs blob) i rest"
proof (induction rest arbitrary: i dup lay)
  case Nil
  then show ?case by simp
next
  case (Cons u rest)
  have i: "i < length us" using Cons.prems(1) by (metis drop_eq_Nil2 leI list.distinct(1))
  have u: "us ! i = u" and rest: "rest = drop (Suc i) us"
    using Cons.prems(1) i by (simp_all add: Cons_nth_drop_Suc [symmetric])
  have room: "card {..<i} < NW_DUP_SLOTS" "card (layered us i) < NW_DUP_SLOTS"
    using i small card_layered [of us i] by (simp_all add: nw_limits)
  have wid: "\<forall>j<length us. length (u_name (us ! j)) = NW_NAME_LEN"
    "\<forall>j<length us. length (u_layer (us ! j)) = NW_NAME_LEN"
    using ext by (simp_all add: unit_extents_def nw_limits)
  let ?n = "\<exists>j\<in>{..<i}. cstr (u_name (us ! j)) = cstr (u_name u)"
  let ?l = "\<exists>j\<in>layered us i. cstr (u_layer (us ! j)) = cstr (u_layer u)"
  obtain dup' where d: "field_dup u_name dup us i = Some (?n, dup')" "?n \<or> tab_inv u_name us {..<Suc i} dup'"
    using field_dup_spec [OF wid(1) Cons.prems(2) i _ room(1)] u by (auto simp: lessThan_Suc)
  obtain lay' where l: "field_dup u_layer lay us i = Some (?l, lay')"
    "?l \<or> tab_inv u_layer us (insert i (layered us i)) lay'"
    using field_dup_spec [OF wid(2) Cons.prems(3) i _ room(2)] u by (auto simp: layered_def)
  obtain l0 where l0: "idx (u_layer u) 0 = Some l0" "has_layer u \<longleftrightarrow> l0 \<noteq> NUL"
    using ext i u by (cases "u_layer u") (auto simp: unit_extents_def idx_def has_layer_def cstr_def)
  have s: "st_dup (real_stubs blob) (NameOf i) \<longleftrightarrow> ?n" "st_dup (real_stubs blob) (LayerOf i) \<longleftrightarrow> ?l"
    using u by (simp_all add: real_stubs_def Let_def us_def)
  have c: "comp_unit (real_stubs blob) i u = check_unit u" using ext i u by (intro comp_unit_real) auto
  have go: "check_units us (Suc i) rest dup' lay2 = comp_units (real_stubs blob) (Suc i) rest"
    if "\<not> ?n" "lay2 = (if l0 = NUL then lay else lay')" "l0 \<noteq> NUL \<longrightarrow> \<not> ?l" for lay2
    using that Cons.prems(3) d(2) l(2) l0(2) u rest by (intro Cons.IH) (auto simp: layered_Suc split: if_splits)
  show ?case
    by (cases ?n; cases "l0 = NUL"; cases ?l) (simp_all add: c d(1) l(1) s l0(1) go split: option.splits)
qed

lemma comp_binds_real:
  assumes "\<forall>b\<in>set bs. bind_extents b"
  shows "comp_binds (real_stubs blob) us k bs = check_binds us bs"
  using assms
proof (induction bs arbitrary: k)
  case (Cons b bs)
  then have "path_ok (b_path b) = Some (path_wf (b_path b))"
    by (simp add: path_ok_def path_ok_len_spec bind_extents_def nw_limits)
  moreover have "st_path (real_stubs blob) c s = path_wf s" for c s by (simp add: real_stubs_def Let_def)
  ultimately show ?case using Cons by (simp add: require_def split: option.splits)
qed simp

lemma refuse_if_cong: "(\<not> bad \<Longrightarrow> k = k') \<Longrightarrow> refuse_if bad e k = refuse_if bad e k'"
  by (simp add: refuse_if_def)

text \<open>With the real answers the stubbed validator is the validator, error for error.\<close>

lemma comp_check_real:
  assumes "length blob = unat len"
  shows "comp_check (real_stubs blob) blob len = nw_check blob len"
proof -
  let ?h = "nw_hdr blob" and ?us = "nw_units blob"
  have crc: "st_crc (real_stubs blob) = crc_of blob" by (simp add: real_stubs_def Let_def)
  have tables: "comp_units (real_stubs blob) 0 ?us = check_units ?us 0 ?us name_dup_init name_dup_init
      \<and> comp_binds (real_stubs blob) ?us 0 (nw_binds blob) = check_binds ?us (nw_binds blob)"
    if h: "\<not> of_nat NW_MAX_UNITS < h_n_units ?h" "\<not> of_nat NW_MAX_BINDS < h_n_binds ?h"
      "\<not> of_nat NW_MAX_EDGES < h_n_edges ?h"
      and n: "len = ucast (NW_BLOB_SIZE (ucast (h_n_units ?h)) (ucast (h_n_binds ?h)) (ucast (h_n_edges ?h)))"
  proof -
    have b: "unat (h_n_units ?h) \<le> 64" "unat (h_n_binds ?h) \<le> 128" "unat (h_n_edges ?h) \<le> 128"
      using h by (simp_all add: word_less_nat_alt nw_limits not_less)
    have size: "length blob = sizeof_hdr + unat (h_n_units ?h) * NW_UNIT_SIZE + unat (h_n_binds ?h) * sizeof_bind
        + unat (h_n_edges ?h) * sizeof_edge"
      using n unfolding size_check [OF b] assms .
    have "\<forall>j<length ?us. unit_extents (?us ! j)" "\<forall>b\<in>set (nw_binds blob). bind_extents b"
      using size unit_table_extents [of blob] bind_table_extents [of blob] by simp_all
    moreover have "length ?us \<le> NW_MAX_UNITS" using b(1) by (simp add: NW_MAX_UNITS_def)
    moreover have "layered ?us 0 = {}" by (simp add: layered_def)
    ultimately show ?thesis
      using comp_units_real [of blob ?us 0 name_dup_init name_dup_init] tab_inv_init
      by (simp add: comp_binds_real)
  qed
  show ?thesis
    unfolding comp_check_def nw_check_def Let_def crc
  proof (intro if_cong refl refuse_if_cong, goal_cases)
    case 1
    then have "\<not> of_nat NW_MAX_UNITS < h_n_units ?h" and
      "len = ucast (NW_BLOB_SIZE (ucast (h_n_units ?h)) (ucast (h_n_binds ?h)) (ucast (h_n_edges ?h)))" by simp_all
    from tables [OF this(1) 1(4,5) this(2)] show ?case by (simp only:)
  qed
qed

lemma open_coded_brick_iff:
  assumes "length (u_brick u) = NW_BRICK_HASH"
  shows "open_coded_brick u = nw_unit_has_brick u"
proof -
  have "open_coded_brick u \<longleftrightarrow> (\<exists>i<length (u_brick u). u_brick u ! i \<noteq> NUL)"
    unfolding open_coded_brick_def list_ex_iff assms [symmetric] by (auto simp: byte_at_def)
  then show ?thesis unfolding has_brick_iff by (metis in_set_conv_nth)
qed

lemma require_OK: "require c e k = Some NW_OK \<Longrightarrow> e \<noteq> NW_OK \<Longrightarrow> c = Some True \<and> k = Some NW_OK"
  by (auto simp: require_def split: option.splits if_splits)

lemma refuse_if_OK: "refuse_if bad e k = Some NW_OK \<Longrightarrow> e \<noteq> NW_OK \<Longrightarrow> \<not> bad \<and> k = Some NW_OK"
  by (simp add: refuse_if_def split: if_splits)

lemmas accepts = require_OK refuse_if_OK

lemma check_closed_OK: "check_closed u = Some NW_OK \<longleftrightarrow> closed_wf u"
  using decides_closed [of u] by (auto simp: decides_def)

lemma check_res_OK: "check_res r hl k = Some NW_OK \<Longrightarrow> k = Some NW_OK"
  unfolding check_res_def
  apply (drule refuse_if_OK, simp)
  apply (elim conjE)
  apply (drule refuse_if_OK, simp, elim conjE)+
  apply assumption
  done

lemma comp_unit_asserts:
  assumes "stubs_assume L" "unit_extents u" "comp_unit L i u = Some NW_OK"
  shows "caller_unit_asserts u"
proof -
  have len: "length (u_name u) = NW_NAME_LEN" "length (u_exec_path u) = NW_PATH_LEN" "length (u_brick u) = NW_BRICK_HASH"
    using assms(2) by (simp_all add: unit_extents_def nw_limits)
  obtain l0 where "idx (u_layer u) 0 = Some l0"
    using assms(2) by (cases "u_layer u") (auto simp: unit_extents_def idx_def)
  from assms(3) [unfolded comp_unit_def Let_def this option.case]
  have a: "st_name L (NameOf i) (u_name u)" "st_path L (ExecOf i) (u_exec_path u)"
    "\<not> (u_kind u \<noteq> NW_KIND_ONESHOT \<and> u_kind u \<noteq> NW_KIND_LONGRUN)"
    "\<not> (has_lid (u_lids u) NW_LID_LANDLOCK \<and> \<not> nw_unit_has_brick u)"
    "\<not> (nw_unit_has_brick u \<and> \<not> has_lid (u_lids u) NW_LID_NEWNS)"
    and c: "check_res (u_res u) (l0 \<noteq> NUL) (check_closed u) = Some NW_OK"
    by - ((drule accepts, simp, elim conjE)+, simp)+
  have c: "closed_wf u" using check_res_OK [OF c] by (simp add: check_closed_OK)
  have "NUL \<in> set (u_name u)" "byte_at (u_exec_path u) 0 = CHR ''/''"
    using assms(1) a(1,2) len by (auto simp: stubs_assume_def)
  then have "list_ex (\<lambda>i. byte_at (u_name u) i = NUL) [0..<NW_NAME_LEN]"
    using len(1) by (auto simp: list_ex_iff byte_at_def in_set_conv_nth)
  then show ?thesis
    using a(3-5) c \<open>byte_at (u_exec_path u) 0 = CHR ''/''\<close>
    unfolding caller_unit_asserts_def open_coded_brick_iff [OF len(3)] closed_wf_def by blast
qed

lemma comp_units_asserts:
  assumes "stubs_assume L" "\<forall>u\<in>set us. unit_extents u" "comp_units L i us = Some NW_OK"
  shows "\<forall>u\<in>set us. caller_unit_asserts u"
  using assms
proof (induction us arbitrary: i)
  case (Cons u us)
  then have "comp_unit L i u = Some NW_OK" "comp_units L (Suc i) us = Some NW_OK"
    by (auto split: option.splits if_splits)
  with Cons show ?case using comp_unit_asserts by auto
qed simp

lemma comp_binds_asserts:
  assumes "\<forall>u\<in>set us. unit_extents u" "comp_binds L us k bs = Some NW_OK"
  shows "\<forall>b\<in>set bs. unat (b_unit b) < length us \<and> open_coded_brick (us ! unat (b_unit b))"
  using assms(2)
proof (induction bs arbitrary: k)
  case (Cons b bs)
  then have b: "unat (b_unit b) < length us" "nw_unit_has_brick (us ! unat (b_unit b))"
    "comp_binds L us (Suc k) bs = Some NW_OK"
    by (auto dest!: accepts simp: idx_def split: option.splits if_splits)
  then have "length (u_brick (us ! unat (b_unit b))) = NW_BRICK_HASH"
    using assms(1) by (simp add: unit_extents_def nw_limits)
  with b Cons.IH show ?case by (simp add: open_coded_brick_iff)
qed simp



end
