(* ===== verification/Wire.thy ===== *)
theory Wire
  imports SpawnMain Lab
begin

text \<open>
  \<^verbatim>\<open>houses/wire.c\<close>: a house at the end of some edges. It finds its descriptors in the environment, and
  echoes, or floods one wire, or drains one. The main result joins it with the validator and \<^verbatim>\<open>nw-spawn\<close>:
  in every accepted plan a wired house finds all its wires and nothing else, and the house at the other end
  of each is the one the plan names.
\<close>

subsection \<open>Finding the wires\<close>

text \<open>The probe of \<^verbatim>\<open>NW_WIRE_3\<close> upwards; the first argument is what is left of its 64 turns.\<close>

fun find_wires :: "nat \<Rightarrow> env \<Rightarrow> nat \<Rightarrow> nat list" where
  "find_wires 0 env slot = []"
| "find_wires (Suc turns) env slot =
     (case env (wire_key slot) of None \<Rightarrow> [] | Some p \<Rightarrow> slot # find_wires turns env (Suc slot))"

definition MAX_WIRES :: nat where "MAX_WIRES = 64"

definition wire_name :: "env \<Rightarrow> bytes" where
  "wire_name env = (case env ''NW_HOUSE'' of None \<Rightarrow> ''?'' | Some v \<Rightarrow> v)"

datatype wire_mode = Echo | BpWriter | BpReader

definition wire_mode :: "env \<Rightarrow> wire_mode" where
  "wire_mode env =
     (if env ''NW_WIRE_WRITER'' = Some (wire_name env) then BpWriter
      else if env ''NW_WIRE_READER'' = Some (wire_name env) then BpReader
      else Echo)"

subsection \<open>What the house does\<close>

datatype wire_act = WWrite nat bytes | WRead nat | WLog bytes | WSleep int

text \<open>
  The world answers the clock at each line, the read of each wire (\<open>None\<close> is an error), and the writes and
  reads of the two loops, in order.
\<close>

record wire_io =
  wi_ms :: "nat \<Rightarrow> int"
  wi_read :: "nat \<Rightarrow> bytes option"
  wi_wrote :: "int list"
  wi_got :: "int list"

definition wire_head :: "bytes \<Rightarrow> int \<Rightarrow> bytes" where
  "wire_head name ms = ''['' @ name @ ''] t='' @ dec_int ms @ ''ms ''"

definition logline :: "bytes \<Rightarrow> int \<Rightarrow> bytes \<Rightarrow> wire_act option" where
  "logline name ms s = map_option WLog (write_line 256 (wire_head name ms @ s @ ''\<newline>''))"

text \<open>The concatenating form; a head that leaves no room makes its size wrap around.\<close>

definition logf2 :: "bytes \<Rightarrow> int \<Rightarrow> bytes \<Rightarrow> wire_act option" where
  "logf2 name ms rest =
     (let head = wire_head name ms in
      if 254 < length head then None
      else Some (WLog (head @ take (254 - length head) (snprintf 200 rest) @ ''\<newline>'')))"

definition hello :: "bytes \<Rightarrow> bytes" where
  "hello name = ''hello from '' @ name @ ''\<newline>''"

definition echo_line :: "nat \<Rightarrow> nat \<Rightarrow> bytes option \<Rightarrow> bytes" where
  "echo_line k fd r = snprintf 220 (''wire['' @ dec k @ ''] fd='' @ dec fd @ '' read ''
     @ dec_int (case r of None \<Rightarrow> - 1 | Some b \<Rightarrow> int (length (take 127 b))) @ '' bytes: ''
     @ (case r of None \<Rightarrow> ''(none)'' | Some b \<Rightarrow> if b = [] then ''(none)'' else cstr (take 127 b)))"

fun echo :: "wire_io \<Rightarrow> bytes \<Rightarrow> nat \<Rightarrow> nat list \<Rightarrow> wire_act list option" where
  "echo io name k [] = Some []"
| "echo io name k (fd # fds) =
     (case write_line 64 (hello name) of None \<Rightarrow> None | Some msg \<Rightarrow>
      case logline name (wi_ms io (Suc k)) (echo_line k fd (wi_read io k)) of None \<Rightarrow> None | Some l \<Rightarrow>
      case echo io name (Suc k) fds of None \<Rightarrow> None | Some acts \<Rightarrow> Some (WWrite fd msg # WRead fd # l # acts))"

text \<open>
  The two loops: the writes offered and whether all went through, the bytes that came. \<open>None\<close> where the
  world stops answering, as a peer does that neither reads nor closes.
\<close>

fun bp_write :: "int list \<Rightarrow> int \<Rightarrow> (int list \<times> bool) option" where
  "bp_write ws left =
     (if left \<le> 0 then Some ([], True)
      else case ws of [] \<Rightarrow> None
      | w # ws \<Rightarrow> if w \<le> 0 then Some ([min left 65536], False)
          else map_option (\<lambda>(offered, ok). (min left 65536 # offered, ok)) (bp_write ws (left - w)))"

declare bp_write.simps [simp del]

fun bp_read :: "int list \<Rightarrow> int \<Rightarrow> int \<Rightarrow> int option" where
  "bp_read ns got need =
     (if need \<le> got then Some got
      else case ns of [] \<Rightarrow> None
      | n # ns \<Rightarrow> if n \<le> 0 then Some got else bp_read ns (got + n) need)"

declare bp_read.simps [simp del]

definition env_atol :: "env \<Rightarrow> bytes \<Rightarrow> int \<Rightarrow> int" where
  "env_atol env k d = (case env k of None \<Rightarrow> d | Some v \<Rightarrow> atol v)"

definition mib4 :: int where "mib4 = 4194304"

definition block_of_x :: "int \<Rightarrow> bytes" where
  "block_of_x n = replicate (nat n) CHR ''x''"

text \<open>The run: exit code and what was done. A flood or a drain without a wire uses an uninitialised descriptor.\<close>

definition wire_main :: "wire_io \<Rightarrow> env \<Rightarrow> (int \<times> wire_act list) option" where
  "wire_main io env =
     (let name = wire_name env; fds = find_wires MAX_WIRES env 3 in
      case logf2 name (wi_ms io 0) (''wires='' @ dec (length fds)) of None \<Rightarrow> None | Some l0 \<Rightarrow>
      case wire_mode env of
        Echo \<Rightarrow> map_option (\<lambda>acts. (0, l0 # acts)) (echo io name 0 fds)
      | BpWriter \<Rightarrow>
          let need = env_atol env ''NW_WIRE_BYTES'' mib4 in
          (case bp_write (wi_wrote io) need of None \<Rightarrow> None | Some (offered, ok) \<Rightarrow>
           if offered \<noteq> [] \<and> fds = [] then None
           else
             let ws = map (\<lambda>n. WWrite (hd fds) (block_of_x n)) offered in
             if \<not> ok then map_option (\<lambda>l. (1, l0 # ws @ [l])) (logline name (wi_ms io 1) ''write failed'')
             else map_option (\<lambda>l. (0, l0 # ws @ [l]))
               (logf2 name (wi_ms io 1) (''bp-writer done, wrote '' @ dec_int need @ '' bytes'')))
      | BpReader \<Rightarrow>
          let delay = env_atol env ''NW_WIRE_READER_DELAY_MS'' 500; need = env_atol env ''NW_WIRE_BYTES'' mib4 in
          (case logf2 name (wi_ms io 1) (''bp-reader sleeping '' @ dec_int delay @ ''ms before reading'') of
             None \<Rightarrow> None
           | Some l1 \<Rightarrow>
             if 0 < need \<and> fds = [] then None
             else case bp_read (wi_got io) 0 need of None \<Rightarrow> None | Some got \<Rightarrow>
             map_option (\<lambda>l. (0, [l0, l1, WSleep delay, l]))
               (logf2 name (wi_ms io 2) (''bp-reader drained '' @ dec_int got @ '' bytes''))))"

subsection \<open>An accepted plan wires a house to each peer once\<close>

lemma touches_peer:
  "touches e i \<Longrightarrow> e_a e \<noteq> e_b e \<Longrightarrow> unat (e_a e) < n \<Longrightarrow> unat (e_b e) < n \<Longrightarrow>
     peer e i < n \<and> peer e i \<noteq> i \<and> touches e (peer e i) \<and> peer e (peer e i) = i
     \<and> side e (peer e i) = 1 - side e i \<and> unat ` ends e = {i, peer e i}"
  by (auto simp: touches_def peer_def side_def ends_def word_unat_eq_iff)

lemma few_edges:
  assumes "plan_wf us bs es" "i < length us"
  shows "length (edges_of es i) < length us"
proof -
  let ?ks = "edges_of es i"
  let ?p = "\<lambda>k. peer (es ! k) i"
  have e: "?p k < length us \<and> ?p k \<noteq> i \<and> unat ` ends (es ! k) = {i, ?p k}" if "k \<in> set ?ks" for k
  proof -
    have "touches (es ! k) i" "k < length es" using that by (auto simp: edges_of_def)
    moreover from this have "edge_wf us (es ! k)" using assms(1) by (simp add: plan_wf_def)
    ultimately show ?thesis using touches_peer [of "es ! k" i "length us"] by (simp add: edge_wf_def)
  qed
  have "inj_on ?p (set ?ks)"
  proof (rule inj_onI)
    fix k l assume kl: "k \<in> set ?ks" "l \<in> set ?ks" "?p k = ?p l"
    then have "unat ` ends (es ! k) = unat ` ends (es ! l)" using e by metis
    then have "ends (es ! k) = ends (es ! l)" by (simp add: inj_image_eq_iff inj_on_def word_unat_eq_iff)
    moreover have "k < length es" "l < length es" using kl by (auto simp: edges_of_def)
    ultimately show "k = l" using assms(1) by (simp add: plan_wf_def distinct_conv_nth) metis
  qed
  moreover have "length ?ks = card (set ?ks)"
    unfolding edges_of_def by (intro distinct_card [symmetric]) simp
  ultimately have "length ?ks = card (?p ` set ?ks)" by (simp add: card_image)
  also have "\<dots> \<le> card ({..<length us} - {i})" using e by (intro card_mono) auto
  also have "\<dots> < length us" using assms(2) by simp
  finally show ?thesis .
qed

lemma wire_key_eq: "k < 1000 \<Longrightarrow> wire_key k = ''NW_WIRE_'' @ dec k"
  using length_dec [of k 2] by (simp add: wire_key_def snprintf_def)

lemma wire_key_other: "take 8 (wire_key k) = ''NW_WIRE_''" "wire_key k \<notin> fst ` set (unit_vars u)"
proof -
  show t: "take 8 (wire_key k) = ''NW_WIRE_''" by (simp add: wire_key_def snprintf_def)
  have "\<forall>x\<in>fst ` set (unit_vars u). take 8 x \<noteq> ''NW_WIRE_''" by (simp add: unit_vars_def)
  then show "wire_key k \<notin> fst ` set (unit_vars u)" using t by metis
qed

lemma env_wire:
  assumes "length peers \<le> 64" "k \<le> 64"
  shows "spawn_env env u peers paths (wire_key (3 + k))
    = (if k < length peers then Some (peers ! k) else env (wire_key (3 + k)))"
proof -
  have "wire_key (3 + k) \<noteq> ''NW_NBINDS''" using wire_key_other(1) [of "3 + k"] by auto
  then have e: "spawn_env env u peers paths (wire_key (3 + k)) = setenv_all (wire_vars peers) env (wire_key (3 + k))"
    using wire_key_other [of "3 + k"] by (subst env_var) (simp_all add: setenv_all_other)
  have inj: "wire_key (3 + j) = wire_key (3 + k) \<longleftrightarrow> j = k" if "j \<le> 64" for j
    using that assms(2) by (simp add: wire_key_eq)
  show ?thesis
  proof (cases "k < length peers")
    case True
    have "inj_on (\<lambda>j. wire_key (3 + j)) {0..<length peers}"
      using assms(1) by (intro inj_onI) (simp add: wire_key_eq)
    then have d: "distinct (map fst (wire_vars peers))" by (simp add: wire_vars_def distinct_map o_def)
    have "wire_vars peers ! k = (wire_key (3 + k), peers ! k)" "k < length (wire_vars peers)"
      using True by (simp_all add: wire_vars_def)
    then show ?thesis using setenv_all_nth [OF d, of k env] True e by simp
  next
    case False
    have "wire_key (3 + k) \<notin> fst ` set (wire_vars peers)"
    proof
      assume "wire_key (3 + k) \<in> fst ` set (wire_vars peers)"
      then obtain j where "j < length peers" "wire_key (3 + j) = wire_key (3 + k)"
        by (auto simp: wire_vars_def)
      then show False using inj [of j] False assms(1) by simp
    qed
    then show ?thesis using False e by (simp add: setenv_all_other)
  qed
qed

lemma find_wires_run:
  "n \<le> turns \<Longrightarrow> \<forall>j<n. env (wire_key (slot + j)) \<noteq> None \<Longrightarrow> n < turns \<longrightarrow> env (wire_key (slot + n)) = None \<Longrightarrow>
     find_wires turns env slot = [slot..<slot + n]"
proof (induction turns arbitrary: n slot)
  case (Suc turns)
  show ?case
  proof (cases n)
    case 0
    then show ?thesis using Suc.prems(3) by simp
  next
    case (Suc m)
    have "find_wires turns env (Suc slot) = [Suc slot..<Suc slot + m]"
      using Suc Suc.prems by (intro Suc.IH) (auto dest: spec [of _ "Suc _"])
    moreover obtain p where "env (wire_key slot) = Some p"
      using Suc.prems(2) Suc by (metis add.right_neutral not_None_eq zero_less_Suc)
    ultimately show ?thesis using Suc by (simp add: upt_conv_Cons)
  qed
qed simp

lemma find_wires_house:
  assumes "length peers < 64" "env (wire_key (3 + length peers)) = None"
  shows "find_wires MAX_WIRES (spawn_env env u peers paths) 3 = [3..<3 + length peers]"
proof (rule find_wires_run)
  show "length peers \<le> MAX_WIRES" using assms(1) by (simp add: MAX_WIRES_def)
  show "\<forall>j<length peers. spawn_env env u peers paths (wire_key (3 + j)) \<noteq> None"
    using assms(1) by (simp add: env_wire)
  show "length peers < MAX_WIRES \<longrightarrow> spawn_env env u peers paths (wire_key (3 + length peers)) = None"
    using assms by (simp add: env_wire)
qed

lemma kit_wire: "k < length ws \<Longrightarrow> kit dn lg ws (3 + k) = Some \<lparr>d_file = ws ! k, d_cloexec = False\<rparr>"
  by (simp add: kit_def)

lemma edge_slot:
  assumes "k < length es" "touches (es ! k) j"
  shows "\<exists>s. s < length (edges_of es j) \<and> edges_of es j ! s = k"
proof -
  have "k \<in> set (edges_of es j)" using assms by (simp add: edges_of_def)
  then show ?thesis by (simp add: in_set_conv_nth)
qed

text \<open>
  C32. Every wire of an accepted plan is found, and leads where the plan says. Whatever house of an
  accepted plan is started, the wire house finds in its environment exactly one descriptor per edge of its
  unit, from 3 on, at most 63 of them, which its 64 turns suffice for; the descriptor is one end of the
  socket pair of that edge and the variable beside it names the peer; and the peer, started from the same
  plan, finds the other end of the same pair among its own. The inherited environment must not define the
  variable after the last wire: \<^verbatim>\<open>nw-spawn\<close> does not unset it, and the house would take it for a wire.
\<close>

theorem wires_reach_their_peers:
  assumes h: "h = house_spec env us bs es"
    and acc: "length blob = unat len" "nw_check blob len = Some NW_OK"
    and tabs: "us = nw_units blob" "bs = nw_binds blob" "es = nw_edges blob"
    and i: "i < length us" "env (wire_key (3 + length (edges_of es i))) = None"
    and s: "s < length (edges_of es i)" "k = edges_of es i ! s" "j = peer (es ! k) i"
  shows "length (edges_of es i) \<le> 63
    \<and> find_wires MAX_WIRES (ho_env (h i)) 3 = [3..<3 + length (edges_of es i)]
    \<and> ho_fds (h i) (3 + s) = Some \<lparr>d_file = FSock k (side (es ! k) i), d_cloexec = False\<rparr>
    \<and> ho_env (h i) (wire_key (3 + s)) = Some (cstr (u_name (us ! j)))
    \<and> j < length us \<and> j \<noteq> i
    \<and> (\<exists>s'<length (edges_of es j).
         ho_fds (h j) (3 + s') = Some \<lparr>d_file = FSock k (1 - side (es ! k) i), d_cloexec = False\<rparr>
         \<and> ho_env (h j) (wire_key (3 + s')) = Some (cstr (u_name (us ! i))))"
proof -
  have sealed: "sealed_wf blob" using nw_check_decides [OF acc(1)] acc(2) by (simp add: decides_def)
  then have plan: "plan_wf us bs es" by (simp add: sealed_wf_def tabs)
  have "length us \<le> 64" using sealed by (simp add: sealed_wf_def header_wf_def Let_def tabs nw_limits)
  then have few: "length (edges_of es x) < 64" if "x < length us" for x
    using few_edges [OF plan that] by simp
  have k: "k < length es" "touches (es ! k) i" using s(1,2) nth_mem [of s "edges_of es i"] by (auto simp: edges_of_def)
  then have "edge_wf us (es ! k)" using plan by (simp add: plan_wf_def)
  then have e: "j < length us" "j \<noteq> i" "touches (es ! k) j" "peer (es ! k) j = i" "side (es ! k) j = 1 - side (es ! k) i"
    using touches_peer [OF k(2), of "length us"] by (simp_all add: edge_wf_def s(3))
  obtain s' where s': "s' < length (edges_of es j)" "edges_of es j ! s' = k" using edge_slot [OF k(1) e(3)] by blast
  show ?thesis
    using few [OF i(1)] few [OF e(1)] i(2) s s' e
    by (auto simp: h house_spec_def find_wires_house kit_wire env_wire intro!: exI [of _ s'])
qed

text \<open>The demo plan has one edge: the plain house finds the brick house's name on descriptor 3, and back.\<close>

theorem wires_reach_their_peers_witness:
  "let h = house_spec Map.empty demo_units demo_binds demo_edges 0 in
     find_wires MAX_WIRES (ho_env h) 3 = [3]
     \<and> ho_fds h 3 = Some \<lparr>d_file = FSock 0 (side (demo_edges ! 0) 0), d_cloexec = False\<rparr>"
proof -
  let ?m = "seal demo_units demo_binds demo_edges"
  have t: "demo_units = nw_units ?m" "demo_binds = nw_binds ?m" "demo_edges = nw_edges ?m"
    using seal_tables [OF demo_fits] by simp_all
  have e: "edges_of demo_edges 0 = [0]" by code_simp
  have l: "0 < length demo_units" "(0::nat) < length (edges_of demo_edges 0)" by (simp_all add: demo_units_def e)
  show ?thesis
    using wires_reach_their_peers [OF refl seal_len_u32 [OF demo_fits] seal_accepted [OF demo_fits demo_wf] t l(1) _ l(2) refl refl,
        of Map.empty] by (simp add: e Let_def)
qed

subsection \<open>What the modes do\<close>

text \<open>An echo house greets every wire once, in order, and reads each once.\<close>

lemma echo_greets:
  assumes "length name < NW_NAME_LEN" "echo io name k fds = Some acts"
  shows "filter (\<lambda>a. case a of WLog _ \<Rightarrow> False | _ \<Rightarrow> True) acts
    = concat (map (\<lambda>fd. [WWrite fd (hello name), WRead fd]) fds)"
  using assms(2)
proof (induction fds arbitrary: k acts)
  case (Cons fd fds)
  have "length (hello name) < 64" using assms(1) by (simp add: hello_def NW_NAME_LEN_def)
  then have "write_line 64 (hello name) = Some (hello name)" by (rule write_line_fits)
  then show ?case using Cons by (auto simp: logline_def split: option.splits)
qed simp

text \<open>
  A flood that gets through has offered and sent every byte; a drain stops at the byte count or when the
  peer closes, whichever comes first, and never counts a byte twice.
\<close>

lemma bp_write_sends:
  assumes "bp_write ws left = Some (offered, True)" "list_all2 (\<le>) (take (length offered) ws) offered" "0 \<le> left"
  shows "length offered \<le> length ws \<and> sum_list (take (length offered) ws) = left \<and> (\<forall>n\<in>set offered. 0 < n \<and> n \<le> 65536)"
  using assms
proof (induction ws arbitrary: left offered)
  case Nil
  then show ?case by (subst (asm) bp_write.simps) (auto split: if_splits)
next
  case (Cons w ws)
  show ?case
  proof (cases "left \<le> 0")
    case True
    then show ?thesis using Cons.prems by (subst (asm) bp_write.simps) auto
  next
    case False
    then obtain more where m: "0 < w" "offered = min left 65536 # more" "bp_write ws (left - w) = Some (more, True)"
      using Cons.prems(1) by (subst (asm) bp_write.simps) (auto split: if_splits)
    then have "w \<le> left" "list_all2 (\<le>) (take (length more) ws) more" using Cons.prems(2) by auto
    then show ?thesis using Cons.IH [OF m(3)] m False by auto
  qed
qed

lemma bp_read_counts:
  "bp_read ns got need = Some n \<Longrightarrow> \<exists>k\<le>length ns. n = got + sum_list (take k ns) \<and> (\<forall>x\<in>set (take k ns). 0 < x)
     \<and> (need \<le> n \<or> k < length ns \<and> ns ! k \<le> 0)"
proof (induction ns arbitrary: got)
  case Nil
  then show ?case by (subst (asm) bp_read.simps) (auto split: if_splits)
next
  case (Cons x ns)
  show ?case
  proof (cases "need \<le> got \<or> x \<le> 0")
    case True
    then show ?thesis using Cons.prems
      by (subst (asm) bp_read.simps) (auto split: if_splits intro!: exI [of _ 0])
  next
    case False
    then have "bp_read ns (got + x) need = Some n" using Cons.prems by (subst (asm) bp_read.simps) simp
    then obtain k where "k \<le> length ns" "n = got + x + sum_list (take k ns)" "\<forall>x\<in>set (take k ns). 0 < x"
      "need \<le> n \<or> k < length ns \<and> ns ! k \<le> 0" using Cons.IH by blast
    then show ?thesis using False by (intro exI [of _ "Suc k"]) auto
  qed
qed

end
