(* ===== verification/Fixtures.thy ===== *)
theory Fixtures
  imports Logger SpawnMain Supervisor House Lab
begin

text \<open>
  Houses of \<^verbatim>\<open>houses/\<close> that a test city runs: what each writes and how it ends. They exist to make the init
  show something, so the lemmas join each with the part it is about: the padded lines with the logger's
  reads, the failing houses with the restart decision.
\<close>

subsection \<open>Padded lines\<close>

definition WIDTH :: nat where "WIDTH = 64"

text \<open>\<^verbatim>\<open>memset\<close>, \<^verbatim>\<open>memcpy\<close> of what fits, and the newline in the last place.\<close>

definition padded_with :: "byte \<Rightarrow> bytes \<Rightarrow> bytes" where
  "padded_with fill s = (let n = min (length s) (WIDTH - 1) in take n s @ replicate (WIDTH - 1 - n) fill @ ''\<newline>'')"

text \<open>\<open>say\<close> of \<^verbatim>\<open>layer.c\<close>, \<^verbatim>\<open>layer-fill.c\<close> and \<^verbatim>\<open>bindfile.c\<close>; \<open>say_padded\<close> of \<^verbatim>\<open>orphan.c\<close>, printed into the line.\<close>

definition say_line :: "bytes \<Rightarrow> bytes" where
  "say_line s = padded_with CHR '' '' (cstr s)"

definition say_padded :: "bytes \<Rightarrow> bytes" where
  "say_padded text = padded_with CHR ''.'' (snprintf WIDTH text)"

text \<open>\<open>nw_emit\<close> of \<^verbatim>\<open>brick.c\<close>: printed into 256 bytes, and a marker where the line was cut.\<close>

definition nw_emit :: "bytes \<Rightarrow> bytes" where
  "nw_emit text =
     (let t = snprintf (WIDTH * 4) text; b = padded_with CHR '' '' t
      in if WIDTH - 1 < length t then b[WIDTH - 2 := CHR ''>''] else b)"

text \<open>
  What the logger's pipe does with such writes: a write of at most \<^verbatim>\<open>PIPE_BUF\<close> bytes goes in whole, and a
  read takes what is there, up to 256 bytes. At the end the pipe is drained.
\<close>

datatype pipe_event = Wr bytes | Rd

function pipe_drain :: "bytes \<Rightarrow> bytes list" where
  "pipe_drain pend = (if pend = [] then [] else take 256 pend # pipe_drain (drop 256 pend))"
  by pat_completeness auto
termination by (relation "measure length") auto

declare pipe_drain.simps [simp del]

fun pipe_run :: "pipe_event list \<Rightarrow> bytes \<Rightarrow> bytes list" where
  "pipe_run [] pend = pipe_drain pend"
| "pipe_run (Wr b # es) pend = pipe_run es (pend @ b)"
| "pipe_run (Rd # es) pend = (if pend = [] then pipe_run es pend else take 256 pend # pipe_run es (drop 256 pend))"

fun written :: "pipe_event list \<Rightarrow> bytes list" where
  "written [] = []"
| "written (Wr b # es) = b # written es"
| "written (Rd # es) = written es"

text \<open>
  The contract of a padded writer: whatever it is given, a line of 64 bytes, a quarter of a read, that
  ends in the newline.
\<close>

locale padded_line =
  fixes line :: "bytes \<Rightarrow> bytes"
  assumes line_length: "length (line s) = 64"
    and line_end: "last (line s) = CHR 0x0A"
begin

lemma lines_length: "set ls \<subseteq> range line \<Longrightarrow> length (concat ls) = 64 * length ls"
  by (induction ls) (auto simp: line_length)

lemma take_lines: "set ls \<subseteq> range line \<Longrightarrow> take (64 * k) (concat ls) = concat (take k ls)
    \<and> drop (64 * k) (concat ls) = concat (drop k ls)"
proof (induction k arbitrary: ls)
  case (Suc k)
  show ?case
  proof (cases ls)
    case (Cons l ls')
    then have "length l = 64" using Suc.prems by (auto simp: line_length)
    then show ?thesis using Suc Cons by simp
  qed simp
qed simp

lemma relay_lines:
  assumes "set ls \<subseteq> range line" "ls \<noteq> []"
  shows "relay p (concat ls) = p @ concat ls"
proof -
  obtain init l where l: "ls = init @ [l]" using assms(2) by (metis rev_exhaust)
  then have "length l = 64" "last l = CHR 0x0A" using assms(1) by (auto simp: line_length line_end)
  then have "last (concat ls) = CHR 0x0A" using l by (auto simp: last_append)
  then show ?thesis by (simp add: relay_def)
qed

lemma drain_lines:
  "set ls \<subseteq> range line \<Longrightarrow> \<exists>gs. pipe_drain (concat ls) = map concat gs \<and> concat gs = ls \<and> (\<forall>g\<in>set gs. g \<noteq> [] \<and> length g \<le> 4)"
proof (induction ls rule: length_induct)
  case (1 ls)
  show ?case
  proof (cases "ls = []")
    case True
    then show ?thesis by (intro exI [of _ "[]"]) (simp add: pipe_drain.simps)
  next
    case False
    have t: "take 256 (concat ls) = concat (take 4 ls)" "drop 256 (concat ls) = concat (drop 4 ls)"
      using take_lines [OF 1(2), of 4] by simp_all
    have "set (drop 4 ls) \<subseteq> range line" using 1(2) set_drop_subset by fast
    moreover have "length (drop 4 ls) < length ls" using False by simp
    ultimately obtain gs where gs: "pipe_drain (concat (drop 4 ls)) = map concat gs" "concat gs = drop 4 ls"
      "\<forall>g\<in>set gs. g \<noteq> [] \<and> length g \<le> 4"
      using 1(1) by blast
    have "concat ls \<noteq> []" using lines_length [OF 1(2)] False by (metis length_0_conv mult_eq_0_iff zero_neq_numeral)
    then have "pipe_drain (concat ls) = map concat (take 4 ls # gs)" by (subst pipe_drain.simps) (simp add: t gs(1))
    then show ?thesis using gs False by (intro exI [of _ "take 4 ls # gs"]) auto
  qed
qed

lemma run_lines:
  "set ls \<subseteq> range line \<Longrightarrow> set (written es) \<subseteq> range line \<Longrightarrow>
     \<exists>gs. pipe_run es (concat ls) = map concat gs \<and> concat gs = ls @ written es \<and> (\<forall>g\<in>set gs. g \<noteq> [] \<and> length g \<le> 4)"
proof (induction es arbitrary: ls)
  case Nil
  then show ?case using drain_lines by simp
next
  case (Cons e es)
  show ?case
  proof (cases e)
    case (Wr b)
    have "set (ls @ [b]) \<subseteq> range line" using Cons.prems Wr by auto
    then show ?thesis using Cons.IH [of "ls @ [b]"] Cons.prems(2) Wr by auto
  next
    case Rd
    show ?thesis
    proof (cases "concat ls = []")
      case True
      then have "ls = []" using lines_length [OF Cons.prems(1)] by (metis length_0_conv mult_eq_0_iff zero_neq_numeral)
      then show ?thesis using Cons.IH [of "[]"] Cons.prems Rd by auto
    next
      case False
      have t: "take 256 (concat ls) = concat (take 4 ls)" "drop 256 (concat ls) = concat (drop 4 ls)"
        using take_lines [OF Cons.prems(1), of 4] by simp_all
      have "set (drop 4 ls) \<subseteq> range line" using Cons.prems(1) set_drop_subset by fast
      then obtain gs where gs: "pipe_run es (concat (drop 4 ls)) = map concat gs" "concat gs = drop 4 ls @ written es"
        "\<forall>g\<in>set gs. g \<noteq> [] \<and> length g \<le> 4"
        using Cons.IH Cons.prems(2) Rd by (metis written.simps(3))
      have "ls \<noteq> []" using False by auto
      then have "take 4 ls \<noteq> [] \<and> length (take 4 ls) \<le> 4" by simp
      then show ?thesis
        using gs False Rd t by (intro exI [of _ "take 4 ls # gs"]) auto
    qed
  qed
qed

end

lemma padded_with_line: "length (padded_with c s) = 64 \<and> last (padded_with c s) = CHR 0x0A"
  by (simp add: padded_with_def WIDTH_def Let_def)

interpretation say: padded_line say_line
  by unfold_locales (simp_all add: say_line_def padded_with_line)

interpretation orphan: padded_line say_padded
  by unfold_locales (simp_all add: say_padded_def padded_with_line)

interpretation emit: padded_line nw_emit
proof
  fix s
  let ?b = "padded_with CHR '' '' (snprintf (WIDTH * 4) s)"
  have l: "length ?b = 64" "last ?b = CHR 0x0A" using padded_with_line by simp_all
  then have "?b \<noteq> []" by auto
  then have "last (?b[WIDTH - 2 := CHR ''>'']) = CHR 0x0A"
    using l by (subst last_list_update) (auto simp: WIDTH_def)
  then show "length (nw_emit s) = 64" "last (nw_emit s) = CHR 0x0A"
    using l by (simp_all add: nw_emit_def Let_def)
qed

text \<open>
  Padded lines reach the console whole, whatever the reads: however the writes of a house that pads
  its lines interleave with the logger's reads, every relayed chunk is some whole lines of it, at most four,
  the lines arrive in order, none is lost or split, and the logger adds its prefix in front of a chunk and
  no newline of its own.
\<close>

theorem padded_lines_stay_whole:
  assumes "line \<in> {say_line, say_padded, nw_emit}" "set (written es) \<subseteq> range line"
  shows "\<exists>gs. concat gs = written es \<and> (\<forall>g\<in>set gs. g \<noteq> [] \<and> length g \<le> 4)
    \<and> lg_console (run_logger name garbage opened (map (Pair io) (pipe_run es [])) fin)
      = concat (map (\<lambda>g. log_prefix name @ concat g) gs)"
proof -
  have pl: "padded_line line"
    using assms(1) say.padded_line_axioms orphan.padded_line_axioms emit.padded_line_axioms by auto
  obtain gs where gs: "pipe_run es [] = map concat gs" "concat gs = written es" "\<forall>g\<in>set gs. g \<noteq> [] \<and> length g \<le> 4"
    using padded_line.run_lines [OF pl, of "[]" es] assms(2) by auto
  have "relay p (concat g) = p @ concat g" if "g \<in> set gs" for p g
  proof -
    have "set g \<subseteq> set (concat gs)" using that by auto
    then have "set g \<subseteq> range line" using assms(2) gs(2) by simp
    then show ?thesis using padded_line.relay_lines [OF pl] gs(3) that by blast
  qed
  then have "concat (map (\<lambda>(_, buf). relay (log_prefix name) buf) (map (Pair io) (pipe_run es [])))
      = concat (map (\<lambda>g. log_prefix name @ concat g) gs)"
    by (simp add: gs(1) comp_def cong: map_cong)
  moreover have "lg_console (run_logger name garbage opened cs fin) = concat (map (\<lambda>(_, buf). relay (log_prefix name) buf) cs)" for cs
    by (simp add: run_logger_def Let_def fold_log_console logger_start_def split: option.split)
  ultimately show ?thesis using gs by auto
qed

text \<open>Five lines are written before the first read: two chunks, of four lines and one.\<close>

theorem padded_lines_stay_whole_example:
  "\<exists>gs. concat gs = replicate 5 (say_line ''[layer] write=ok'')
     \<and> lg_console (run_logger ''web'' [] True (map (Pair io) (pipe_run (replicate 5 (Wr (say_line ''[layer] write=ok'')) @ [Rd]) [])) fin)
       = concat (map (\<lambda>g. log_prefix ''web'' @ concat g) gs)"
proof -
  let ?es = "replicate 5 (Wr (say_line ''[layer] write=ok'')) @ [Rd]"
  have w: "written ?es = replicate 5 (say_line ''[layer] write=ok'')" by (simp add: eval_nat_numeral)
  then have "set (written ?es) \<subseteq> range say_line" by auto
  from padded_lines_stay_whole [OF _ this, where name = "''web''" and garbage = "[]" and opened = True and io = io and fin = fin]
  show ?thesis unfolding w by blast
qed

subsection \<open>Houses that end, and how often they run\<close>

text \<open>A run of a house: its exit status and what it leaves, from what it finds.\<close>

type_synonym 's house_run = "'s \<Rightarrow> wstatus \<times> 's"

definition boom_out :: bytes where "boom_out = ''boom\<newline>''"

definition boom_run :: "unit house_run" where
  "boom_run s = (exited 99, s)"

definition slowdie_run :: "unit house_run" where
  "slowdie_run s = (exited 1, s)"

text \<open>\<^verbatim>\<open>firstfail.c\<close>: the state is whether the marker is there, the argument whether it can be created.\<close>

definition firstfail_run :: "bool \<Rightarrow> bool house_run" where
  "firstfail_run creatable marker = (if creatable \<and> \<not> marker then (exited 17, True) else (exited 0, marker))"

text \<open>\<^verbatim>\<open>layer.c\<close>: the brick's \<^verbatim>\<open>/id\<close>, the layer's \<^verbatim>\<open>/state\<close>; \<open>denied\<close> is the error of opening it for appending.\<close>

definition slurp :: "nat \<Rightarrow> bytes option \<Rightarrow> bytes option" where
  "slurp n f = map_option (\<lambda>c. map (\<lambda>x. if x = CHR 0x0A then CHR '','' else x) (cstr (take (n - 1) c))) f"

definition or_absent :: "bytes option \<Rightarrow> bytes" where
  "or_absent f = (case f of None \<Rightarrow> ''absent'' | Some c \<Rightarrow> c)"

definition layer_main :: "bytes option \<Rightarrow> nat option \<Rightarrow> bytes option \<Rightarrow> bytes list \<times> nat \<times> bytes option" where
  "layer_main id_file denied state =
     (let found = [say_line (snprintf 128 (''[layer] id='' @ or_absent (slurp 64 id_file))),
                   say_line (snprintf 128 (''[layer] state='' @ or_absent (slurp 128 state)))]
      in case denied of
        Some e \<Rightarrow> (found @ [say_line (snprintf 128 (''[layer] write=denied('' @ dec e @ '')''))], 9, state)
      | None \<Rightarrow> (found @ [say_line ''[layer] write=ok''], 7,
          Some ((case state of None \<Rightarrow> [] | Some c \<Rightarrow> c) @ ''r'')))"

definition layer_run :: "bytes option \<Rightarrow> bytes option house_run" where
  "layer_run id_file state = (case layer_main id_file None state of (_, code, state') \<Rightarrow> (exited code, state'))"

text \<open>
  \<^verbatim>\<open>orphan.c\<close>: the run number is kept in a file, which opens, read and written at its start; each fork that
  succeeds leaves a child behind, and the parent does not sleep. \<open>pids\<close> are the answers of the three forks.
\<close>

definition KIDS :: nat where "KIDS = 3"

definition orphan_number :: "bytes option \<Rightarrow> u32" where
  "orphan_number marker = (case marker of None \<Rightarrow> 0 | Some c \<Rightarrow> if c = [] then 0 else atoi (cstr (take 15 c))) + 1"

definition orphan_mark :: "bytes option \<Rightarrow> bytes" where
  "orphan_mark marker =
     (let t = dec_int (sint (orphan_number marker)) in t @ drop (length t) (case marker of None \<Rightarrow> [] | Some c \<Rightarrow> c))"

definition orphan_lines :: "u32 \<Rightarrow> int list \<Rightarrow> bytes list" where
  "orphan_lines r pids =
     (let run = dec_int (sint r) in
      say_padded (''[orphan] run='' @ run @ '' forking '' @ dec KIDS @ '' children'')
      # map (\<lambda>i. say_padded (''[orphan] run='' @ run @ '' child='' @ dec i @ '' pid='' @ dec_int (pids ! i)))
          (filter (\<lambda>i. 0 < pids ! i) [0..<KIDS])
      @ [say_padded (''[orphan] run='' @ run @ '' leaving '' @ dec KIDS @ '' behind'')])"

text \<open>The state: the marker, and the children left so far.\<close>

definition orphan_run :: "(nat \<Rightarrow> int list) \<Rightarrow> (bytes option \<times> int list) house_run" where
  "orphan_run forks s = (case s of (marker, left) \<Rightarrow>
     (exited 1, Some (orphan_mark marker), left @ filter (\<lambda>p. 0 < p) (take KIDS (forks (unat (orphan_number marker))))))"

text \<open>
  The generations of a house as \<^verbatim>\<open>nw_decide\<close> chains them: no request comes in, every generation runs to its
  end. The result: how many ran, the last decision, what they left. \<open>fuel\<close> bounds the generations.
\<close>

fun lives :: "bool \<Rightarrow> bool \<Rightarrow> u32 \<Rightarrow> 's house_run \<Rightarrow> nat \<Rightarrow> 's \<Rightarrow> nat \<Rightarrow> (nat \<times> nw_decision \<times> 's) option" where
  "lives lk c0 budget run 0 s d = None"
| "lives lk c0 budget run (Suc fuel) s d =
     (case run s of (st, s') \<Rightarrow>
      let dec = nw_decide lk c0 False False False True True st (of_nat d) budget in
      if dec = NW_DECIDE_RESTART then lives lk c0 budget run fuel s' (Suc d) else Some (Suc d, dec, s'))"

text \<open>A locked house that always fails runs once more than its budget, and never again.\<close>

lemma lives_spend:
  assumes "\<And>s. \<not> (c0 \<and> WIFEXITED (fst (run s)) \<and> WEXITSTATUS (fst (run s)) = 0)" "b \<le> 255"
  shows "d \<le> b \<Longrightarrow> b - d < fuel \<Longrightarrow>
    lives True c0 (of_nat b) run fuel s d = Some (Suc b, NW_DECIDE_SPENT, ((\<lambda>s. snd (run s)) ^^ (Suc b - d)) s)"
proof (induction fuel arbitrary: s d)
  case (Suc fuel)
  obtain st s' where r: "run s = (st, s')" by fastforce
  have sm: "sint (of_nat d :: u32) = int d" "sint (of_nat b :: u32) = int b"
    using Suc.prems(1) assms(2) by (simp_all add: sint_small)
  have dec: "nw_decide True c0 False False False True True st (of_nat d) (of_nat b)
      = (if b \<le> d then NW_DECIDE_SPENT else NW_DECIDE_RESTART)"
    using assms(1) [of s] by (auto simp: nw_decide_def sm r)
  show ?case
  proof (cases "b \<le> d")
    case True
    then have "nw_decide True c0 False False False True True st (of_nat d) (of_nat b) = NW_DECIDE_SPENT" "d = b"
      using Suc.prems(1) dec by auto
    then show ?thesis by (simp add: r)
  next
    case False
    then have "lives True c0 (of_nat b) run fuel s' (Suc d)
        = Some (Suc b, NW_DECIDE_SPENT, ((\<lambda>s. snd (run s)) ^^ (Suc b - Suc d)) s')"
      using Suc.prems by (intro Suc.IH) simp_all
    moreover have "Suc b - d = Suc (Suc b - Suc d)" using False by simp
    then have "((\<lambda>s. snd (run s)) ^^ (Suc b - d)) s = ((\<lambda>s. snd (run s)) ^^ (Suc b - Suc d)) s'"
      by (simp only: funpow_Suc_right o_apply r snd_conv)
    moreover have "nw_decide True c0 False False False True True st (of_nat d) (of_nat b) = NW_DECIDE_RESTART"
      using dec False by simp
    ultimately show ?thesis by (simp only: lives.simps r prod.case Let_def if_True refl)
  qed
qed simp

lemma boom_spends: "b \<le> 255 \<Longrightarrow> lives True c0 (of_nat b) boom_run (Suc b) () 0 = Some (Suc b, NW_DECIDE_SPENT, ())"
  using lives_spend [of c0 boom_run b 0 "Suc b" "()"] by (simp add: boom_run_def)

text \<open>A oneshot that fails once is run twice, if it has a restart at all, and then is done.\<close>

lemma firstfail_recovers:
  "0 < b \<Longrightarrow> b \<le> 255 \<Longrightarrow> lives True True (of_nat b) (firstfail_run True) 2 False 0 = Some (2, NW_DECIDE_EXIT_SUP, True)"
proof -
  assume b: "0 < b" "b \<le> 255"
  have s: "sint (of_nat b :: u32) = int b" using b by (simp add: sint_small)
  have "nw_decide True True False False False True True (exited 17) (of_nat 0) (of_nat b) = NW_DECIDE_RESTART"
    using b s by (simp add: nw_decide_def)
  moreover have "nw_decide True True False False False True True (exited 0) (of_nat 1) (of_nat b) = NW_DECIDE_EXIT_SUP"
    by (simp add: nw_decide_def)
  ultimately show ?thesis
    by (simp add: numeral_2_eq_2 firstfail_run_def Let_def del: of_nat_0 of_nat_1 of_nat_Suc)
qed

text \<open>What the layer house wrote survives its deaths: each generation finds the marks of all before it.\<close>

lemma layer_marks: "((\<lambda>s. snd (layer_run f s)) ^^ n) (Some (replicate k CHR ''r'')) = Some (replicate (k + n) CHR ''r'')"
proof (induction n arbitrary: k)
  case (Suc n)
  have "snd (layer_run f (Some (replicate k CHR ''r''))) = Some (replicate (Suc k) CHR ''r'')"
    by (simp add: layer_run_def layer_main_def Let_def replicate_append_same)
  then show ?case using Suc [of "Suc k"] by (simp only: funpow_Suc_right o_apply add_Suc_right add_Suc)
qed simp

lemma layer_persists:
  assumes "b \<le> 255"
  shows "lives True c0 (of_nat b) (layer_run f) (Suc b) None 0
    = Some (Suc b, NW_DECIDE_SPENT, Some (replicate (Suc b) CHR ''r''))"
proof -
  have "fst (layer_run f s) = exited 7" for s by (simp add: layer_run_def layer_main_def Let_def)
  moreover have "snd (layer_run f None) = Some (replicate 1 CHR ''r'')"
    by (simp add: layer_run_def layer_main_def Let_def)
  ultimately show ?thesis
    using lives_spend [of c0 "layer_run f" b 0 "Suc b" None] layer_marks [where f = f and n = b and k = 1] assms
    by (simp add: funpow_Suc_right del: funpow.simps)
qed

lemma layer_reports:
  assumes "n \<le> 49"
  shows "fst (layer_main f denied (Some (replicate n CHR ''r''))) ! 1
    = ''[layer] state='' @ replicate n CHR ''r'' @ replicate (49 - n) CHR '' '' @ ''\<newline>''"
proof -
  have "cstr (replicate n CHR ''r'') = replicate n CHR ''r''" "slurp 128 (Some (replicate n CHR ''r'')) = Some (replicate n CHR ''r'')"
    using assms by (simp_all add: slurp_def cstr_def)
  moreover have "cstr (''[layer] state='' @ replicate n CHR ''r'') = ''[layer] state='' @ replicate n CHR ''r''"
    by (simp add: cstr_def)
  ultimately show ?thesis
    using assms by (simp add: layer_main_def or_absent_def say_line_def padded_with_def snprintf_small WIDTH_def Let_def
        split: option.split)
qed

end
