(* ===== verification/BrickHouse.thy ===== *)
theory BrickHouse
  imports Fixtures "HOL-Library.List_Lexorder" "HOL-Library.Char_ord"
begin

text \<open>
  \<^verbatim>\<open>houses/brick.c\<close>: the house that reports which root it lives in and what it may do there. It is modelled
  as the calls it makes, each answered from the calls before it. Its two results join it with the lids it
  measures: under Landlock it prints just the table the suite reads, and under the seccomp filter it
  survives unless it was given a bind.
\<close>

subsection \<open>Calls and answers\<close>

datatype oflag = O_RDONLY | O_WRONLY | O_CREAT | O_TRUNC

datatype node = CharDev | BlockDev | Fifo | Sock

datatype bcall =
    Emit bytes | OpenAt bytes "oflag list" | ReadFd | WriteFd bytes | CloseFd | ReadDirectory bytes | ReadLink bytes
  | Mknod bytes node | Mkdir bytes | Symlink bytes bytes | Unlink bytes | Rmdir bytes

text \<open>
  The kernel: what a call returns after the calls before it, with the error negated; what a read and a
  link hold; the entries of a directory with the descriptor it was opened at, \<open>None\<close> when it does not open.
\<close>

record brick_kernel =
  bk_ret :: "bcall list \<Rightarrow> bcall \<Rightarrow> int"
  bk_data :: "bcall list \<Rightarrow> bcall \<Rightarrow> bytes"
  bk_dir :: "bytes \<Rightarrow> (bytes list \<times> u32) option"

text \<open>A part of the program takes the calls so far and gives the calls so far.\<close>

type_synonym part = "bcall list \<Rightarrow> bcall list"

definition say_as :: "bytes \<Rightarrow> bytes \<Rightarrow> part" where
  "say_as me text h = h @ [Emit (nw_emit (me @ '' '' @ text))]"

definition verdict :: "bool \<Rightarrow> int \<Rightarrow> bytes" where
  "verdict ok r = (if ok then ''ok(0)'' else ''denied('' @ dec_int (- r) @ '')'')"

subsection \<open>The reports\<close>

definition rstrip :: "bytes \<Rightarrow> bytes" where
  "rstrip s = rev (dropWhile (\<lambda>c. c = CHR 0x0A \<or> c = CHR '' '') (rev s))"

definition report_file :: "brick_kernel \<Rightarrow> bytes \<Rightarrow> bytes \<Rightarrow> bytes \<Rightarrow> part" where
  "report_file k me key path h =
     (let c = OpenAt path [O_RDONLY]; h1 = h @ [c] in
      if bk_ret k h c < 0 then say_as me (key @ ''=absent'') h1
      else let got = (if bk_ret k h1 ReadFd < 0 then [] else take 127 (bk_data k h1 ReadFd))
        in say_as me (key @ ''='' @ cstr (rstrip got)) (h1 @ [ReadFd, CloseFd]))"

text \<open>The row of names: \<open>n\<close> is what the prints so far would have taken, \<open>row\<close> what the buffer holds of it.\<close>

fun add_names :: "bool \<Rightarrow> bytes list \<Rightarrow> bytes \<Rightarrow> nat \<Rightarrow> bytes" where
  "add_names later [] row n = row"
| "add_names later (nm # nms) row n =
     (if n < WIDTH * 4 then
        let t = (if later then '','' else []) @ nm
        in add_names True nms (row @ snprintf (WIDTH * 4 - n) t) (n + length t)
      else row)"

definition root_row :: "bytes \<Rightarrow> bytes list \<Rightarrow> bytes" where
  "root_row me entries =
     (let names = sort (take 64 (filter (\<lambda>e. e \<noteq> ''.'' \<and> e \<noteq> ''..'') entries)); start = me @ '' root=''
      in add_names False names (snprintf (WIDTH * 4) start) (length start))"

definition report_root :: "brick_kernel \<Rightarrow> bytes \<Rightarrow> part" where
  "report_root k me h =
     (let h1 = h @ [ReadDirectory ''/''] in
      case bk_dir k ''/'' of None \<Rightarrow> say_as me ''root=unreadable'' h1
      | Some (entries, self) \<Rightarrow> h1 @ [Emit (nw_emit (root_row me entries))])"

definition report_fds :: "brick_kernel \<Rightarrow> bytes \<Rightarrow> part" where
  "report_fds k me h =
     (let h1 = h @ [ReadDirectory ''/proc/self/fd''] in
      case bk_dir k ''/proc/self/fd'' of None \<Rightarrow> say_as me ''fds=noproc'' h1
      | Some (entries, self) \<Rightarrow> say_as me (''fds_ge3='' @ dec_int (count_fds self entries 0)) h1)"

fun census :: "brick_kernel \<Rightarrow> bytes \<Rightarrow> u32 \<Rightarrow> bytes list \<Rightarrow> part" where
  "census k me self [] h = h"
| "census k me self (e # es) h =
     (let fd = atoi e in
      if take 1 e = ''.'' \<or> fd = self then census k me self es h
      else let c = ReadLink (snprintf 256 (''/proc/self/fd/'' @ dec_int (sint fd)));
             target = (if bk_ret k h c < 0 then [] else cstr (take 255 (bk_data k h c)))
        in census k me self es (say_as me (''fd'' @ dec_int (sint fd) @ ''='' @ target) (h @ [c])))"

definition report_census :: "brick_kernel \<Rightarrow> bytes \<Rightarrow> part" where
  "report_census k me h =
     (let h1 = h @ [ReadDirectory ''/proc/self/fd''] in
      case bk_dir k ''/proc/self/fd'' of None \<Rightarrow> say_as me ''census=noproc'' h1
      | Some (entries, self) \<Rightarrow> census k me self entries h1)"

definition report_write :: "brick_kernel \<Rightarrow> bytes \<Rightarrow> bytes \<Rightarrow> bytes \<Rightarrow> part" where
  "report_write k me key dir h =
     (let c = OpenAt (snprintf 512 (dir @ ''/probe.tmp'')) [O_WRONLY, O_CREAT, O_TRUNC]; r = bk_ret k h c; h1 = h @ [c] in
      if r < 0 then say_as me (key @ ''=denied('' @ dec_int (- r) @ '')'') h1
      else say_as me (key @ ''='' @ (if bk_ret k h1 (WriteFd ''x'') = 1 then ''ok'' else ''openonly''))
             (h1 @ [WriteFd ''x'', CloseFd]))"

text \<open>A short write that is no error leaves the \<^verbatim>\<open>errno\<close> it found, taken as 0.\<close>

definition report_write_existing :: "brick_kernel \<Rightarrow> bytes \<Rightarrow> bytes \<Rightarrow> bytes \<Rightarrow> part" where
  "report_write_existing k me key path h =
     (let c = OpenAt path [O_WRONLY]; r = bk_ret k h c; h1 = h @ [c] in
      if r < 0 then say_as me (key @ ''=denied('' @ dec_int (- r) @ '')'') h1
      else let w = bk_ret k h1 (WriteFd ''x'')
        in say_as me (key @ ''='' @ (if w = 1 then ''ok(0)'' else ''writefail('' @ dec_int (- min w 0) @ '')''))
             (h1 @ [WriteFd ''x'', CloseFd]))"

definition lids_of :: "env \<Rightarrow> u32" where
  "lids_of env = (case env ''NW_LIDS'' of None \<Rightarrow> 0 | Some v \<Rightarrow> atoi v)"

text \<open>One call whose answer is its line.\<close>

definition try_call :: "brick_kernel \<Rightarrow> bytes \<Rightarrow> bytes \<Rightarrow> bcall \<Rightarrow> part" where
  "try_call k me key c h = say_as me (key @ ''='' @ verdict (bk_ret k h c = 0) (bk_ret k h c)) (h @ [c])"

definition gated :: "env \<Rightarrow> bool \<Rightarrow> bytes \<Rightarrow> bytes \<Rightarrow> part \<Rightarrow> part" where
  "gated env seccomp_too me key go h =
     (if \<not> bit (lids_of env) 1 then say_as me (key @ ''=skipped-nolandlock'') h
      else if seccomp_too \<and> bit (lids_of env) 0 then say_as me (key @ ''=skipped-seccomp'') h
      else go h)"

text \<open>The device prints no number when it is made, the other two do.\<close>

definition report_mknod :: "env \<Rightarrow> brick_kernel \<Rightarrow> bytes \<Rightarrow> bytes \<Rightarrow> bytes \<Rightarrow> part" where
  "report_mknod env k me key path = gated env True me key (\<lambda>h.
     let c = Mknod path CharDev; r = bk_ret k h c;
       h1 = say_as me (key @ ''='' @ (if r = 0 then ''ok'' else ''denied('' @ dec_int (- r) @ '')'')) (h @ [c])
     in try_call k me (key @ ''_sock'') (Mknod (snprintf 512 (path @ ''.sock'')) Sock)
          (try_call k me (key @ ''_fifo'') (Mknod (snprintf 512 (path @ ''.fifo'')) Fifo) h1))"

definition report_truncate :: "env \<Rightarrow> brick_kernel \<Rightarrow> bytes \<Rightarrow> bytes \<Rightarrow> bytes \<Rightarrow> part" where
  "report_truncate env k me key path = gated env False me key (\<lambda>h.
     let c = OpenAt path [O_WRONLY]; r = bk_ret k h c; h1 = h @ [c] in
     if r < 0 then say_as me (key @ ''=unprobed('' @ dec_int (- r) @ '')'') h1
     else let w = bk_ret k h1 (WriteFd ''z''); h2 = h1 @ [WriteFd ''z'', CloseFd] in
     if w \<noteq> 1 then say_as me (key @ ''=unprobed('' @ dec_int (- min w 0) @ '')'') h2
     else let t = OpenAt path [O_WRONLY, O_TRUNC]; rt = bk_ret k h2 t; h3 = h2 @ [t] in
     if rt < 0 then say_as me (key @ ''=denied('' @ dec_int (- rt) @ '')'') h3
     else say_as me (key @ ''=ok(0)'') (h3 @ [CloseFd]))"

definition report_structure :: "env \<Rightarrow> brick_kernel \<Rightarrow> bytes \<Rightarrow> bytes \<Rightarrow> bytes \<Rightarrow> bytes \<Rightarrow> bytes \<Rightarrow> part" where
  "report_structure env k me key dir unlink_me rmdir_me = gated env True me key (\<lambda>h.
     try_call k me (key @ ''_rmdir'') (Rmdir rmdir_me)
     (try_call k me (key @ ''_unlink'') (Unlink unlink_me)
     (try_call k me (key @ ''_mkblock'') (Mknod (snprintf 512 (dir @ ''/probe.blk'')) BlockDev)
     (try_call k me (key @ ''_symlink'') (Symlink ''/id'' (snprintf 512 (dir @ ''/probe.lnk'')))
     (try_call k me (key @ ''_mkdir'') (Mkdir (snprintf 512 (dir @ ''/probe.d''))) h)))))"

subsection \<open>The house\<close>

definition var_of :: "env \<Rightarrow> bytes \<Rightarrow> bytes option" where
  "var_of env key = (case env key of None \<Rightarrow> None | Some [] \<Rightarrow> None | Some v \<Rightarrow> Some v)"

definition in_bind :: "env \<Rightarrow> brick_kernel \<Rightarrow> bytes \<Rightarrow> bytes \<Rightarrow> part" where
  "in_bind env k me b h =
     (let q = snprintf 512 (b @ ''/mk.tmp''); c = OpenAt q [O_WRONLY, O_CREAT, O_TRUNC]; r = bk_ret k h c;
       h1 = say_as me (''mk_bind='' @ verdict (0 \<le> r) r) (h @ [c]);
       h2 = (if 0 \<le> r then report_truncate env k me ''trunc_bind'' q (h1 @ [CloseFd]) else h1);
       h3 = report_mknod env k me ''mknod_bind'' (snprintf 512 (b @ ''/probe.dev'')) h2;
       um = snprintf 512 (b @ ''/probe.rm''); o_um = OpenAt um [O_WRONLY, O_CREAT];
       h4 = (if 0 \<le> bk_ret k h3 o_um then h3 @ [o_um, CloseFd] else h3 @ [o_um]);
       rd = snprintf 512 (b @ ''/probe.rmd'')
     in report_structure env k me ''st_bind'' b um rd (h4 @ [Mkdir rd]))"

definition before_bind :: "env \<Rightarrow> brick_kernel \<Rightarrow> bytes \<Rightarrow> part" where
  "before_bind env k me h =
     (let b = var_of env ''NW_BIND_0''; b1 = var_of env ''NW_BIND_1'';
       h1 = report_fds k me (report_root k me (report_file k me ''id'' ''/id'' (report_census k me h)));
       h2 = (case b of None \<Rightarrow> say_as me ''bind=none'' h1
             | Some d \<Rightarrow> report_file k me ''bind'' (snprintf 512 (d @ ''/token'')) h1);
       h3 = report_write k me ''wr_root'' [] h2;
       h4 = (case b of None \<Rightarrow> h3 | Some d \<Rightarrow> report_write k me ''wr_bind'' d h3);
       h5 = (case b1 of None \<Rightarrow> h4 | Some d \<Rightarrow> report_write k me ''wr_bind1'' d h4);
       h6 = report_truncate env k me ''trunc_root'' ''/w'' (report_write_existing k me ''wr_existing'' ''/w'' h5)
     in report_structure env k me ''st_root'' [] ''/u'' ''/d'' (report_mknod env k me ''mknod_root'' ''/probe.dev'' h6))"

definition brick_name :: "bytes list \<Rightarrow> bytes" where
  "brick_name argv = (case argv of [] \<Rightarrow> ''?'' | a # _ \<Rightarrow> if a = [] then ''?'' else a)"

text \<open>Every call of a run; the house then ends with status 0.\<close>

definition brick_main :: "env \<Rightarrow> brick_kernel \<Rightarrow> bytes list \<Rightarrow> bcall list" where
  "brick_main env k argv =
     (let me = brick_name argv; h = before_bind env k me [] in
      case var_of env ''NW_BIND_0'' of None \<Rightarrow> h | Some b \<Rightarrow> in_bind env k me b h)"

subsection \<open>Under the filter\<close>

text \<open>The system calls behind each call, by their number on x86-64.\<close>

fun issues :: "bcall \<Rightarrow> u32 list" where
  "issues (Emit l) = [1]"
| "issues (OpenAt p fl) = [257]"
| "issues ReadFd = [0]"
| "issues (WriteFd b) = [1]"
| "issues CloseFd = [3]"
| "issues (ReadDirectory p) = [257, 5, 217, 3]"
| "issues (ReadLink p) = [267]"
| "issues (Mknod p n) = [259]"
| "issues (Mkdir p) = [83]"
| "issues (Symlink t p) = [88]"
| "issues (Unlink p) = [87]"
| "issues (Rmdir p) = [84]"

fun mild :: "bcall \<Rightarrow> bool" where
  "mild (Mknod p n) = False"
| "mild (Mkdir p) = False"
| "mild (Symlink t p) = False"
| "mild (Unlink p) = False"
| "mild (Rmdir p) = False"
| "mild _ = True"

text \<open>What a process with its filter gets through of a run, and whether it gets to the end.\<close>

definition run_under :: "process \<Rightarrow> bcall list \<Rightarrow> bcall list \<times> bool" where
  "run_under q cs = (let ok = (\<lambda>c. list_all (passes q) (issues c)) in (takeWhile ok cs, list_all ok cs))"

lemma passes_strict:
  assumes "installed (p_conf q) = Some (emit_filter (map nr_x86_64 strict_allow))"
  shows "passes q nr \<longleftrightarrow> nr \<in> nr_x86_64 ` set strict_allow"
proof -
  have "length (map nr_x86_64 strict_allow) \<le> 255" using NALLOW_val by (simp add: NALLOW_def)
  then show ?thesis
    by (simp add: passes_def assms bpf.filter_decides SECCOMP_RET_ALLOW_def SECCOMP_RET_KILL_PROCESS_def)
qed

lemma mild_passes:
  assumes "installed (p_conf q) = Some (emit_filter (map nr_x86_64 strict_allow))"
  shows "list_all (passes q) (issues c) \<longleftrightarrow> mild c"
  by (cases c) (simp_all add: passes_strict [OF assms] strict_allow_def)

text \<open>Under the filter's lid every report keeps to the mild calls.\<close>

named_theorems mild_parts

lemma mild_say [mild_parts]: "list_all mild h \<Longrightarrow> list_all mild (say_as me t h)"
  by (simp add: say_as_def)

lemma mild_file [mild_parts]: "list_all mild h \<Longrightarrow> list_all mild (report_file k me key p h)"
  by (simp add: report_file_def Let_def say_as_def)

lemma mild_root [mild_parts]: "list_all mild h \<Longrightarrow> list_all mild (report_root k me h)"
  by (simp add: report_root_def Let_def say_as_def split: option.split)

lemma mild_fds [mild_parts]: "list_all mild h \<Longrightarrow> list_all mild (report_fds k me h)"
  by (simp add: report_fds_def Let_def say_as_def split: option.split)

lemma mild_entries: "list_all mild h \<Longrightarrow> list_all mild (census k me self es h)"
  by (induction es arbitrary: h) (simp_all add: Let_def say_as_def)

lemma mild_census [mild_parts]: "list_all mild h \<Longrightarrow> list_all mild (report_census k me h)"
  by (simp add: report_census_def Let_def say_as_def mild_entries split: option.split)

lemma mild_write [mild_parts]: "list_all mild h \<Longrightarrow> list_all mild (report_write k me key d h)"
  by (simp add: report_write_def Let_def say_as_def)

lemma mild_existing [mild_parts]: "list_all mild h \<Longrightarrow> list_all mild (report_write_existing k me key p h)"
  by (simp add: report_write_existing_def Let_def say_as_def)

lemma mild_truncate [mild_parts]: "list_all mild h \<Longrightarrow> list_all mild (report_truncate env k me key p h)"
  by (simp add: report_truncate_def gated_def Let_def say_as_def)

lemma gated_filtered:
  assumes "bit (lids_of env) 0"
  shows "report_mknod env k me key p h
      = say_as me (key @ (if bit (lids_of env) 1 then ''=skipped-seccomp'' else ''=skipped-nolandlock'')) h"
    and "report_structure env k me key d u r h
      = say_as me (key @ (if bit (lids_of env) 1 then ''=skipped-seccomp'' else ''=skipped-nolandlock'')) h"
  using assms by (simp_all add: report_mknod_def report_structure_def gated_def)

lemma mild_before: "bit (lids_of env) 0 \<Longrightarrow> list_all mild (before_bind env k me [])"
  by (simp add: before_bind_def Let_def gated_filtered mild_parts split: option.split)

text \<open>
  The reporting house and the filter it wears: a brick house behind the seccomp filter that is told so
  in \<^verbatim>\<open>NW_LIDS\<close> makes only calls the filter passes, and reaches its end, if it was given no bind. If it was
  given one, the filter ends it at the \<^verbatim>\<open>mkdir\<close> before its last line, the one of the skipped probes, which is
  not gated as those are.
\<close>

theorem filter_ends_bound_brick:
  assumes "installed (p_conf q) = Some (emit_filter (map nr_x86_64 strict_allow))" "bit (lids_of env) 0"
  shows "case var_of env ''NW_BIND_0'' of
      None \<Rightarrow> run_under q (brick_main env k argv) = (brick_main env k argv, True)
    | Some b \<Rightarrow> \<exists>pre l. run_under q (brick_main env k argv) = (pre, False)
        \<and> brick_main env k argv = pre @ [Mkdir (snprintf 512 (b @ ''/probe.rmd'')), Emit l]"
proof -
  have ru: "run_under q cs = (takeWhile mild cs, list_all mild cs)" for cs
    by (simp add: run_under_def mild_passes [OF assms(1)])
  have all: "takeWhile mild cs = cs" if "list_all mild cs" for cs
    using that by (simp add: list_all_iff takeWhile_eq_all_conv)
  note before = mild_before [OF assms(2)]
  show ?thesis
  proof (cases "var_of env ''NW_BIND_0''")
    case None
    then show ?thesis by (simp add: ru brick_main_def Let_def all [OF before] before)
  next
    case (Some b)
    let ?h = "before_bind env k (brick_name argv) []"
    obtain pre l where p: "in_bind env k (brick_name argv) b ?h = pre @ [Mkdir (snprintf 512 (b @ ''/probe.rmd'')), Emit l]"
      "list_all mild pre"
    proof -
      have "\<exists>pre. list_all mild pre \<and> in_bind env k (brick_name argv) b ?h
          = say_as (brick_name argv) (''st_bind'' @ (if bit (lids_of env) 1 then ''=skipped-seccomp'' else ''=skipped-nolandlock''))
             (pre @ [Mkdir (snprintf 512 (b @ ''/probe.rmd''))])"
        unfolding in_bind_def Let_def gated_filtered [OF assms(2)]
        by (rule exI, rule conjI [OF _ refl]) (simp add: before mild_parts)
      then show ?thesis using that by (auto simp: say_as_def)
    qed
    then show ?thesis using Some all
      by (auto simp: ru brick_main_def Let_def takeWhile_append2 list_all_iff)
  qed
qed

text \<open>With the filter and two lids declared; \<^verbatim>\<open>/proc\<close> is not there to look at.\<close>

definition plain_kernel :: brick_kernel where
  "plain_kernel = \<lparr>bk_ret = (\<lambda>h c. case c of WriteFd b \<Rightarrow> int (length b) | _ \<Rightarrow> 0), bk_data = (\<lambda>h c. ''brick-one''),
     bk_dir = [''/'' \<mapsto> ([''.'', ''..'', ''w'', ''id'', ''bin''], 3)]\<rparr>"

theorem filter_ends_bound_brick_example:
  "\<exists>q pre l. run_under q (brick_main [''NW_LIDS'' \<mapsto> ''5'', ''NW_BIND_0'' \<mapsto> ''/data''] plain_kernel [''one'']) = (pre, False)
     \<and> brick_main [''NW_LIDS'' \<mapsto> ''5'', ''NW_BIND_0'' \<mapsto> ''/data''] plain_kernel [''one'']
       = pre @ [Mkdir ''/data/probe.rmd'', Emit l]"
proof -
  let ?env = "[''NW_LIDS'' \<mapsto> ''5'', ''NW_BIND_0'' \<mapsto> ''/data'']"
  let ?q = "child_process\<lparr>p_conf := (p_conf child_process)\<lparr>installed := Some (emit_filter (map nr_x86_64 strict_allow))\<rparr>\<rparr>"
  have "atoi ''5'' = 5" by code_simp
  then have "bit (lids_of ?env) 0" by (simp add: lids_of_def)
  moreover have "var_of ?env ''NW_BIND_0'' = Some ''/data''" by (simp add: var_of_def)
  moreover have "snprintf 512 (''/data'' @ ''/probe.rmd'') = ''/data/probe.rmd''" by (simp add: snprintf_small)
  ultimately show ?thesis
    using filter_ends_bound_brick [of ?q ?env plain_kernel "[''one'']"] by auto
qed

subsection \<open>Under Landlock\<close>

text \<open>What a call asks of the lid, and of which path; a file that is not there yet is made.\<close>

fun asks :: "bcall \<Rightarrow> bytes \<times> ll_right list" where
  "asks (OpenAt p fl) = (p, (if O_WRONLY \<in> set fl then [WriteFile] else [ReadFile])
     @ (if O_CREAT \<in> set fl then [MakeReg] else []) @ (if O_TRUNC \<in> set fl then [Truncate] else []))"
| "asks (ReadDirectory p) = (p, [ReadDir])"
| "asks (Mknod p n) = (p, [case n of CharDev \<Rightarrow> MakeChar | BlockDev \<Rightarrow> MakeBlock | Fifo \<Rightarrow> MakeFifo | Sock \<Rightarrow> MakeSock])"
| "asks (Mkdir p) = (p, [MakeDir])"
| "asks (Symlink t p) = (p, [MakeSym])"
| "asks (Unlink p) = (p, [RemoveFile])"
| "asks (Rmdir p) = (p, [RemoveDir])"
| "asks c = ([], [])"

definition lid_allows :: "(bytes \<Rightarrow> ll_right \<Rightarrow> bool) \<Rightarrow> bcall \<Rightarrow> bool" where
  "lid_allows may c = list_all (may (fst (asks c))) (snd (asks c))"

text \<open>A kernel that has no reason but the lid to refuse; \<^verbatim>\<open>EACCES\<close> is 13.\<close>

definition obeys :: "brick_kernel \<Rightarrow> (bytes \<Rightarrow> ll_right \<Rightarrow> bool) \<Rightarrow> bool" where
  "obeys k may \<longleftrightarrow> (\<forall>h c. if lid_allows may c
     then (case c of WriteFd b \<Rightarrow> bk_ret k h c = int (length b) | OpenAt p fl \<Rightarrow> 0 \<le> bk_ret k h c | _ \<Rightarrow> bk_ret k h c = 0)
     else bk_ret k h c = - 13)"

fun said :: "bcall list \<Rightarrow> bytes list" where
  "said [] = []"
| "said (Emit l # cs) = l # said cs"
| "said (c # cs) = said cs"

lemma said_append [simp]: "said (a @ b) = said a @ said b"
  by (induction a rule: said.induct) simp_all

lemma said_say [simp]: "said (say_as me t h) = said h @ [nw_emit (me @ '' '' @ t)]"
  by (simp add: say_as_def)

text \<open>The root listing is the sorted names joined by commas, cut where the buffer ends.\<close>

definition joined :: "bytes list \<Rightarrow> bytes" where
  "joined names = concat (map (\<lambda>nm. '','' @ nm) names)"

lemma append_cut: "length row \<le> m \<Longrightarrow> take m ((row @ take (m - length row) t) @ j) = take m (row @ t @ j)"
  by (cases "length t \<le> m - length row") simp_all

lemma add_later: "length row = min n 255 \<Longrightarrow> add_names True names row n = take 255 (row @ joined names)"
proof (induction names arbitrary: row n)
  case (Cons nm nms)
  show ?case
  proof (cases "n < 256")
    case True
    have "add_names True nms (row @ snprintf (256 - n) ('','' @ nm)) (n + length ('','' @ nm))
        = take 255 ((row @ snprintf (256 - n) ('','' @ nm)) @ joined nms)"
      using Cons.prems True by (intro Cons.IH) (auto simp: snprintf_def)
    also have "\<dots> = take 255 (row @ ('','' @ nm) @ joined nms)"
      using Cons.prems True append_cut [of row 255 "'','' @ nm"] by (simp only: snprintf_def min_def) simp
    finally show ?thesis using True by (simp add: WIDTH_def joined_def Let_def)
  qed (use Cons.prems in \<open>simp add: WIDTH_def\<close>)
qed (simp add: joined_def)

lemma root_row_is_joined:
  "root_row me entries = snprintf 256 (me @ '' root='' @ drop 1 (joined (sort (take 64 (filter (\<lambda>e. e \<noteq> ''.'' \<and> e \<noteq> ''..'') entries)))))"
proof -
  have "add_names False names (snprintf 256 start) (length start) = snprintf 256 (start @ drop 1 (joined names))" for start names
  proof (cases names)
    case (Cons nm nms)
    show ?thesis
    proof (cases "length start < 256")
      case True
      then have row: "snprintf 256 start = start" by (simp add: snprintf_def)
      have "add_names True nms (start @ snprintf (256 - length start) nm) (length start + length nm)
          = take 255 ((start @ snprintf (256 - length start) nm) @ joined nms)"
        using True by (intro add_later) (auto simp: snprintf_def)
      also have "\<dots> = take 255 (start @ nm @ joined nms)"
        using True append_cut [of start 255 nm] by (simp only: snprintf_def) simp
      finally show ?thesis unfolding row using True Cons by (simp add: WIDTH_def joined_def Let_def snprintf_def)
    qed (simp add: Cons WIDTH_def snprintf_def)
  qed (simp add: joined_def)
  then show ?thesis by (simp add: root_row_def Let_def WIDTH_def)
qed

text \<open>Each report's line under the lid.\<close>

definition mark :: "bool \<Rightarrow> bytes" where
  "mark ok = (if ok then ''ok(0)'' else ''denied(13)'')"

lemma dec_13: "dec_int 13 = ''13''" by code_simp

lemma obeys_open:
  assumes "obeys k may"
  shows "bk_ret k h (OpenAt p fl) < 0 \<longleftrightarrow> \<not> lid_allows may (OpenAt p fl)"
    and "\<not> lid_allows may (OpenAt p fl) \<Longrightarrow> bk_ret k h (OpenAt p fl) = - 13"
proof -
  have "if lid_allows may (OpenAt p fl) then 0 \<le> bk_ret k h (OpenAt p fl) else bk_ret k h (OpenAt p fl) = - 13"
    using assms [unfolded obeys_def, rule_format, of "OpenAt p fl" h] by (simp split: if_splits)
  then show "bk_ret k h (OpenAt p fl) < 0 \<longleftrightarrow> \<not> lid_allows may (OpenAt p fl)"
    "\<not> lid_allows may (OpenAt p fl) \<Longrightarrow> bk_ret k h (OpenAt p fl) = - 13" by (simp_all split: if_splits)
qed

lemma obeys_write: "obeys k may \<Longrightarrow> bk_ret k h (WriteFd b) = int (length b)"
  unfolding obeys_def by (drule spec [of _ h], drule spec [of _ "WriteFd b"]) (simp add: lid_allows_def)

fun plain_call :: "bcall \<Rightarrow> bool" where
  "plain_call (OpenAt p fl) = False"
| "plain_call (WriteFd b) = False"
| "plain_call c = True"

lemma obeys_plain: "obeys k may \<Longrightarrow> plain_call c \<Longrightarrow> bk_ret k h c = (if lid_allows may c then 0 else - 13)"
  unfolding obeys_def by (drule spec [of _ h], drule spec [of _ c]) (cases c; simp split: if_splits)

lemmas lid_lines = say_as_def Let_def obeys_open obeys_write dec_13 mark_def

lemma said_write:
  "obeys k may \<Longrightarrow> said (report_write k me key d h) = said h @ [nw_emit (me @ '' '' @ key
     @ (if lid_allows may (OpenAt (snprintf 512 (d @ ''/probe.tmp'')) [O_WRONLY, O_CREAT, O_TRUNC]) then ''=ok'' else ''=denied(13)''))]"
  by (simp add: report_write_def lid_lines)

lemma said_existing:
  "obeys k may \<Longrightarrow> said (report_write_existing k me key p h)
     = said h @ [nw_emit (me @ '' '' @ key @ ''='' @ mark (lid_allows may (OpenAt p [O_WRONLY])))]"
  by (simp add: report_write_existing_def lid_lines)

lemma said_try:
  "obeys k may \<Longrightarrow> plain_call c \<Longrightarrow> \<forall>l. c \<noteq> Emit l \<Longrightarrow>
     said (try_call k me key c h) = said h @ [nw_emit (me @ '' '' @ key @ ''='' @ mark (lid_allows may c))]"
  by (cases c) (simp_all add: try_call_def verdict_def obeys_plain lid_lines)

definition looking :: "env \<Rightarrow> bool" where
  "looking env \<longleftrightarrow> bit (lids_of env) 1 \<and> \<not> bit (lids_of env) 0"

lemma gated_looking: "looking env \<Longrightarrow> gated env s me key go h = go h"
  by (simp add: looking_def gated_def)

lemma said_truncate:
  assumes "looking env" "obeys k may" "lid_allows may (OpenAt p [O_WRONLY])"
  shows "said (report_truncate env k me key p h)
     = said h @ [nw_emit (me @ '' '' @ key @ ''='' @ mark (lid_allows may (OpenAt p [O_WRONLY, O_TRUNC])))]"
  using assms by (simp add: report_truncate_def gated_looking lid_lines)

lemma said_mknod:
  assumes "looking env" "obeys k may" "length p < 500"
  shows "said (report_mknod env k me key p h) = said h
     @ [nw_emit (me @ '' '' @ key @ (if lid_allows may (Mknod p CharDev) then ''=ok'' else ''=denied(13)'')),
        nw_emit (me @ '' '' @ key @ ''_fifo='' @ mark (lid_allows may (Mknod (p @ ''.fifo'') Fifo))),
        nw_emit (me @ '' '' @ key @ ''_sock='' @ mark (lid_allows may (Mknod (p @ ''.sock'') Sock)))]"
  using assms by (simp add: report_mknod_def gated_looking said_try obeys_plain snprintf_small lid_lines)

lemma said_structure:
  assumes "looking env" "obeys k may" "length d < 500"
  shows "said (report_structure env k me key d u r h) = said h @ map (\<lambda>(w, c). nw_emit (me @ '' '' @ key @ w @ mark (lid_allows may c)))
     [(''_mkdir='', Mkdir (d @ ''/probe.d'')), (''_symlink='', Symlink ''/id'' (d @ ''/probe.lnk'')),
      (''_mkblock='', Mknod (d @ ''/probe.blk'') BlockDev), (''_unlink='', Unlink u), (''_rmdir='', Rmdir r)]"
  using assms by (simp add: report_structure_def gated_looking said_try snprintf_small)

text \<open>
  The table the suite reads: what the lid leaves to a house at its root, and in a bound directory.
\<close>

definition lid_table :: "int \<Rightarrow> bytes list" where
  "lid_table abi =
     [''wr_root=denied(13)'', ''wr_bind=ok'', ''wr_existing=ok(0)'',
      (if abi < 3 then ''trunc_root=ok(0)'' else ''trunc_root=denied(13)''),
      ''mknod_root=denied(13)'', ''mknod_root_fifo=denied(13)'', ''mknod_root_sock=denied(13)'',
      ''st_root_mkdir=denied(13)'', ''st_root_symlink=denied(13)'', ''st_root_mkblock=denied(13)'',
      ''st_root_unlink=denied(13)'', ''st_root_rmdir=denied(13)'',
      ''mk_bind=ok(0)'', ''trunc_bind=ok(0)'',
      ''mknod_bind=denied(13)'', ''mknod_bind_fifo=ok(0)'', ''mknod_bind_sock=ok(0)'',
      ''st_bind_mkdir=ok(0)'', ''st_bind_symlink=ok(0)'', ''st_bind_mkblock=denied(13)'',
      ''st_bind_unlink=ok(0)'', ''st_bind_rmdir=ok(0)'']"

definition root_targets :: "bytes list" where
  "root_targets = [''/probe.tmp'', ''/w'', ''/probe.dev'', ''/probe.dev.fifo'', ''/probe.dev.sock'', ''/probe.d'',
     ''/probe.lnk'', ''/probe.blk'', ''/u'', ''/d'']"

text \<open>
  C35. The lid, as a house sees it: in a house whose Landlock lid went through, with one bound directory, no
  seccomp filter, and a kernel that refuses for no other reason, the lines the brick house prints about its
  rights are just those of the table: nothing made or removed at the root and nothing truncated there, on a
  kernel that knows the right; files, directories, links, fifos and sockets made and removed in the bind;
  a device node in neither.
\<close>

theorem brick_shows_the_lid:
  assumes "lid_landlock kl binds = Inr rules" "0 \<le> lk_abi kl" "lk_ruleset kl" "lk_nnp kl" "lk_restrict kl"
    and "lk_open kl ''/'' = Some True" "\<And>path. beneath path ''/''"
    and "b \<in> set binds" "lk_open kl b = Some True" "\<And>x. beneath (b @ ''/'' @ x) b" "b \<noteq> []" "length b < 400"
    and "\<And>p b'. p \<in> set root_targets \<Longrightarrow> b' \<in> set binds \<Longrightarrow> \<not> beneath p b'"
    and "env ''NW_BIND_0'' = Some b" "env ''NW_BIND_1'' = None" "looking env"
    and "obeys k (ll_allows beneath (lk_abi kl) rules)"
  shows "\<exists>start. said (brick_main env k argv)
    = start @ map (\<lambda>t. nw_emit (brick_name argv @ '' '' @ t)) (lid_table (lk_abi kl))"
proof -
  let ?may = "ll_allows beneath (lk_abi kl) rules"
  note grants = landlock_grants [where beneath = beneath and binds = binds, OF assms(2-7)]
  have opened: "\<not> (\<exists>b\<in>set binds. lk_open kl b = None)"
    using grants assms(1) by (auto split: if_splits)
  have may: "?may path right = (case right of
              Execute \<Rightarrow> True | ReadFile \<Rightarrow> True | ReadDir \<Rightarrow> True | WriteFile \<Rightarrow> True
            | MakeChar \<Rightarrow> False | MakeBlock \<Rightarrow> False
            | Truncate \<Rightarrow> lk_abi kl < 3 \<or> (\<exists>b\<in>set binds. beneath path b)
            | _ \<Rightarrow> \<exists>b\<in>set binds. beneath path b \<and> lk_open kl b = Some True)" for path right
    using grants [unfolded if_not_P [OF opened] assms(1)] by simp
  have root: "?may p right = (right \<in> {Execute, ReadFile, ReadDir, WriteFile} \<or> right = Truncate \<and> lk_abi kl < 3)"
    if "p \<in> set root_targets" for p right
    using assms(13) [OF that] by (auto simp: may split: ll_right.split)
  have bind: "?may (b @ CHR ''/'' # x) right = (right \<noteq> MakeChar \<and> right \<noteq> MakeBlock)" for x right
    using assms(8,9) assms(10) [of x] by (auto simp: may split: ll_right.split)
  note roots = root [of "''/probe.tmp''"] root [of "''/w''"] root [of "''/probe.dev''"] root [of "''/probe.dev.fifo''"]
    root [of "''/probe.dev.sock''"] root [of "''/probe.d''"] root [of "''/probe.lnk''"] root [of "''/probe.blk''"]
    root [of "''/u''"] root [of "''/d''"]
  have v: "var_of env ''NW_BIND_0'' = Some b" "var_of env ''NW_BIND_1'' = None"
    using assms(11,14,15) by (simp_all add: var_of_def split: list.split)
  have "\<exists>start. said (before_bind env k me []) = start @ map (\<lambda>t. nw_emit (me @ '' '' @ t)) (take 12 (lid_table (lk_abi kl)))" for me
    using assms(12)
    by (simp add: before_bind_def v said_structure [OF assms(16,17)] said_mknod [OF assms(16,17)] said_truncate [OF assms(16,17)]
        said_existing [OF assms(17)] said_write [OF assms(17)] snprintf_small Let_def lid_allows_def roots bind root_targets_def
        mark_def lid_table_def)
  moreover have mk: "0 \<le> bk_ret k h (OpenAt (b @ ''/mk.tmp'') [O_WRONLY, O_CREAT, O_TRUNC])" for h
  proof -
    have "lid_allows ?may (OpenAt (b @ ''/mk.tmp'') [O_WRONLY, O_CREAT, O_TRUNC])" by (simp add: lid_allows_def bind)
    then show ?thesis using obeys_open(1) [OF assms(17)] by (simp add: not_less [symmetric])
  qed
  have "said (in_bind env k me b h) = said h @ map (\<lambda>t. nw_emit (me @ '' '' @ t)) (drop 12 (lid_table (lk_abi kl)))" for me h
    using assms(12) mk
    by (simp add: in_bind_def said_structure [OF assms(16,17)] said_mknod [OF assms(16,17)] said_truncate [OF assms(16,17)]
        snprintf_small Let_def lid_allows_def bind mark_def lid_table_def verdict_def)
  ultimately show ?thesis
    by (simp add: brick_main_def v Let_def) (metis append.assoc append_take_drop_id map_append)
qed

text \<open>The bound directory of \<open>demo_ll\<close>, and a kernel that answers as the lid says.\<close>

definition lid_kernel :: "(bytes \<Rightarrow> ll_right \<Rightarrow> bool) \<Rightarrow> brick_kernel" where
  "lid_kernel may = plain_kernel\<lparr>bk_ret := (\<lambda>h c. if lid_allows may c then bk_ret plain_kernel h c else - 13)\<rparr>"

lemma lid_kernel_obeys: "obeys (lid_kernel may) may"
  by (auto simp: obeys_def lid_kernel_def plain_kernel_def split: bcall.split)

theorem brick_shows_the_lid_witness:
  "\<exists>k start. said (brick_main [''NW_LIDS'' \<mapsto> ''6'', ''NW_BIND_0'' \<mapsto> ''/data''] k [''sealed''])
     = start @ map (\<lambda>t. nw_emit (''sealed '' @ t)) (lid_table 3)"
proof -
  let ?env = "[''NW_LIDS'' \<mapsto> ''6'', ''NW_BIND_0'' \<mapsto> ''/data'']"
  have k: "0 \<le> lk_abi demo_ll" "lk_ruleset demo_ll" "lk_nnp demo_ll" "lk_restrict demo_ll" "lk_open demo_ll ''/'' = Some True"
    "lk_open demo_ll ''/data'' = Some True" "lk_abi demo_ll = 3"
    by (simp_all add: demo_ll_def)
  obtain rules where r: "lid_landlock demo_ll [''/data''] = Inr rules"
    using landlock_grants [OF k(1-5), of "\<lambda>_ _. True" "[''/data'']"] k(6) by auto
  have b: "demo_beneath path ''/''" "demo_beneath (''/data'' @ ''/'' @ x) ''/data''" for path x
    by (simp_all add: demo_beneath_def)
  have n: "p \<in> set root_targets \<Longrightarrow> b' \<in> set [''/data''] \<Longrightarrow> \<not> demo_beneath p b'" for p b'
    by (auto simp: root_targets_def demo_beneath_def)
  have "atoi ''6'' = 6" by code_simp
  then have l: "looking ?env" by (simp add: looking_def lids_of_def)
  have e: "?env ''NW_BIND_0'' = Some ''/data''" "?env ''NW_BIND_1'' = None" by simp_all
  have d: "''/data'' \<in> set [''/data'']" "''/data'' \<noteq> []" "length ''/data'' < 400" by simp_all
  have "brick_name [''sealed''] @ '' '' @ t = ''sealed '' @ t" for t by (simp add: brick_name_def)
  then show ?thesis
    using brick_shows_the_lid [where beneath = demo_beneath and kl = demo_ll and b = "''/data''" and env = ?env
        and argv = "[''sealed'']", OF r k(1-5) b(1) d(1) k(6) b(2) d(2,3) n e l lid_kernel_obeys]
    unfolding k(7) by (simp only:) blast
qed

end
