(* ===== verification/Probes.thy ===== *)
theory Probes
  imports BrickHouse FdTable
begin

text \<open>
  The rest of \<^verbatim>\<open>houses/\<close>: the ones that wait for a signal, make a forbidden call, write without end, fill
  their layer, read a bound file, take over a terminal, or reach for other processes.
\<close>

subsection \<open>Waiting for a signal\<close>

text \<open>
  A wait of at most so many naps of 20 ms, each with the caught signals that come in during it; the result is
  the handler's calls, in order. A nap that caught something is the last.
\<close>

fun naps :: "nat \<Rightarrow> nat list list \<Rightarrow> nat list" where
  "naps 0 _ = []"
| "naps (Suc n) [] = []"
| "naps (Suc n) (sigs # rest) = (if sigs = [] then naps n rest else sigs)"

definition term_main :: "bool \<Rightarrow> nat list list \<Rightarrow> bytes list \<times> nat" where
  "term_main blocked arrivals =
     (let caught = naps 300 (map (filter (\<lambda>s. s = SIGTERM)) arrivals);
        head = ''[term-house] sigterm_blocked='' @ dec (if blocked then 1 else 0) @ ''\<newline>'';
        heard = map (\<lambda>s. ''[term-house] SIGTERM handler ran\<newline>'') caught
      in if caught \<noteq> [] then (head # heard @ [''[term-house] exiting cleanly after TERM\<newline>''], 0)
         else (head # heard @ [''[term-house] never got TERM\<newline>''], 3))"

definition anysig_main :: "nat list list \<Rightarrow> bytes list \<times> nat" where
  "anysig_main arrivals =
     (let caught = naps 300 (map (filter (\<lambda>s. s \<in> {SIGTERM, SIGINT, SIGHUP, SIGQUIT})) arrivals);
        got = (if caught = [] then 0 else last caught)
      in (map (\<lambda>s. ''[anysig-house] handler ran\<newline>'') caught @ [''[anysig-house] got='' @ dec got @ ''\<newline>''],
          if got \<noteq> 0 then 0 else 3))"

text \<open>\<^verbatim>\<open>dieterm.c\<close>: \<open>marked\<close> says whether the marker file is there already, or cannot be made.\<close>

definition dieterm_main :: "bool \<Rightarrow> nat list list \<Rightarrow> bytes list \<times> nat" where
  "dieterm_main marked arrivals =
     (if \<not> marked then ([''[dieterm] first run, dying to bank a death\<newline>''], 1)
      else let caught = naps 300 (map (filter (\<lambda>s. s = SIGTERM)) arrivals);
             out = ''[dieterm] restarted, now waiting for TERM\<newline>'' # map (\<lambda>s. ''[dieterm] SIGTERM handler ran\<newline>'') caught
        in if caught \<noteq> [] then (out @ [''[dieterm] exiting cleanly after TERM\<newline>''], 0)
           else (out @ [''[dieterm] never got TERM\<newline>''], 3))"

text \<open>\<^verbatim>\<open>lastwords.c\<close>: the lines are built at the start, and the handler writes them all.\<close>

definition LINES :: nat where "LINES = 5"

definition lastwords_lines :: "bytes list" where
  "lastwords_lines = map (\<lambda>i. say_padded (''[lastwords] bye '' @ dec (i + 1) @ '' of '' @ dec LINES @ '' '')) [0..<LINES]"

definition lastwords_main :: "nat list list \<Rightarrow> bytes list \<times> nat" where
  "lastwords_main arrivals =
     (let caught = naps 600 (map (filter (\<lambda>s. s = SIGTERM)) arrivals)
      in (''[lastwords] up, waiting for TERM\<newline>'' # concat (map (\<lambda>s. lastwords_lines) caught), if caught \<noteq> [] then 0 else 3))"

text \<open>\<^verbatim>\<open>ignoreterm.c\<close>: what it has written after some naps; nothing ends it.\<close>

definition ignoreterm_said :: "nat list list \<Rightarrow> bytes list" where
  "ignoreterm_said arrivals = map (\<lambda>s. padded_with CHR '' '' ''[ignoreterm-house] handler ran, ignoring'')
     (filter (\<lambda>s. s \<in> {SIGTERM, SIGINT, SIGHUP, SIGQUIT}) (concat arrivals))"

lemma naps_sub: "set (naps n as) \<subseteq> set (concat as)"
  by (induction n as rule: naps.induct) auto

lemma naps_empty: "naps n as = [] \<longleftrightarrow> (\<forall>a\<in>set (take n as). a = [])"
  by (induction n as rule: naps.induct) auto

lemma term_cleanly: "snd (term_main blocked arrivals) = 0 \<longleftrightarrow> (\<exists>a\<in>set (take 300 arrivals). SIGTERM \<in> set a)"
proof -
  have "naps 300 (map (filter (\<lambda>s. s = SIGTERM)) arrivals) = [] \<longleftrightarrow> (\<forall>a\<in>set (take 300 arrivals). SIGTERM \<notin> set a)"
    by (auto simp: naps_empty take_map filter_empty_conv)
  then show ?thesis by (auto simp: term_main_def Let_def)
qed

text \<open>The stop signal a plan declares is the one the house reports.\<close>

lemma anysig_tells:
  assumes "sig \<in> {SIGTERM, SIGINT, SIGHUP, SIGQUIT}" "n < 300"
  shows "anysig_main (replicate n [] @ [sig] # rest)
    = ([''[anysig-house] handler ran\<newline>'', ''[anysig-house] got='' @ dec sig @ ''\<newline>''], 0)"
proof -
  have "naps m (replicate n [] @ [sig] # as) = [sig]" if "n < m" for m as
    using that by (induction n arbitrary: m) (case_tac m; simp)+
  moreover have "sig \<noteq> 0" using assms(1) by (auto simp: SIGTERM_def SIGINT_def SIGHUP_def SIGQUIT_def)
  ultimately show ?thesis using assms by (simp add: anysig_main_def Let_def)
qed

text \<open>
  A house that has died once and then leaves on the stop signal is not brought up again: its death counts,
  its end after the signal does not.
\<close>

lemma dieterm_stays_down:
  assumes "snd (dieterm_main False as) = c1" "snd (dieterm_main True arrivals) = c2" "0 < b" "b \<le> 255"
  shows "nw_decide True c0 False False False True True (exited c1) 0 (of_nat b) = NW_DECIDE_RESTART"
    and "nw_decide True c0 True False False True True (exited c2) 1 (of_nat b) = NW_DECIDE_EXIT_SUP"
proof -
  have "sint (of_nat b :: u32) = int b" using assms(4) by (simp add: sint_small)
  then show "nw_decide True c0 False False False True True (exited c1) 0 (of_nat b) = NW_DECIDE_RESTART"
    using assms(1,3) by (simp add: nw_decide_def dieterm_main_def)
  show "nw_decide True c0 True False False True True (exited c2) 1 (of_nat b) = NW_DECIDE_EXIT_SUP"
    by (simp add: nw_decide_def)
qed

text \<open>The last words are too long for one read: a pipe_drain that reads once loses the fifth line.\<close>

lemma lastwords_two_reads:
  "pipe_drain (concat lastwords_lines) = [concat (take 4 lastwords_lines), last lastwords_lines]"
proof -
  have pl: "set lastwords_lines \<subseteq> range say_padded" by (auto simp: lastwords_lines_def)
  have n: "length lastwords_lines = 5" by (simp add: lastwords_lines_def LINES_def)
  then obtain a b c d e where l: "lastwords_lines = [a, b, c, d, e]"
    by (auto simp: eval_nat_numeral length_Suc_conv)
  have "e \<in> set lastwords_lines" by (simp add: l)
  then have "e \<in> range say_padded" using pl by (rule rev_subsetD)
  then have "length e = 64" using orphan.line_length by auto
  moreover have "length (concat lastwords_lines) = 320" using orphan.lines_length [OF pl] n by simp
  ultimately have len: "length (concat lastwords_lines) = 320" "length e = 64" by simp_all
  have t: "take 256 (concat lastwords_lines) = concat (take 4 lastwords_lines)"
    "drop 256 (concat lastwords_lines) = e"
    using orphan.take_lines [OF pl, of 4] by (simp, simp add: l)
  have "e \<noteq> []" using len(2) by auto
  have "concat lastwords_lines \<noteq> []" by (metis len(1) list.size(3) zero_neq_numeral)
  then have "pipe_drain (concat lastwords_lines) = concat (take 4 lastwords_lines) # pipe_drain e"
    by (subst pipe_drain.simps) (simp only: if_False t)
  moreover have "pipe_drain e = [e]"
    using \<open>e \<noteq> []\<close> len(2) by (subst pipe_drain.simps) (simp add: pipe_drain.simps [of "[]"])
  moreover have "last lastwords_lines = e" by (simp add: l)
  ultimately show ?thesis by (simp only:)
qed

subsection \<open>A forbidden call\<close>

definition nr_socket :: u32 where "nr_socket = 41"
definition SIGSYS :: nat where "SIGSYS = 31"

definition badcall_main :: "process \<Rightarrow> int \<Rightarrow> bytes list \<times> wstatus" where
  "badcall_main q s =
     (if \<not> passes q nr_socket then ([''badcall started\<newline>''], signalled SIGSYS)
      else if 0 \<le> s then ([''badcall started\<newline>'', ''badcall survived\<newline>''], exited 0)
      else ([''badcall started\<newline>''], exited 1))"

text \<open>Behind the house filter it starts and does not survive, whatever the kernel thinks of the socket.\<close>

lemma badcall_killed:
  assumes "installed (p_conf q) = Some (emit_filter (map nr_x86_64 strict_allow))"
  shows "badcall_main q s = ([''badcall started\<newline>''], signalled SIGSYS)"
  by (simp add: badcall_main_def passes_strict [OF assms] nr_socket_def strict_allow_def)

subsection \<open>Writing much\<close>

text \<open>
  \<^verbatim>\<open>firehose.c\<close>, with what its writes answer; the writes offered. \<open>None\<close>: the world stops answering.
\<close>

definition FIREHOSE_BYTES :: int where "FIREHOSE_BYTES = 64 * 1024 * 1024"

definition firehose_chunk :: bytes where
  "firehose_chunk = replicate 255 CHR ''x'' @ ''\<newline>''"

function firehose :: "int \<Rightarrow> int list \<Rightarrow> bytes list option" where
  "firehose remaining ws =
     (if remaining \<le> 0 then Some []
      else case ws of [] \<Rightarrow> None
      | w # ws' \<Rightarrow>
        let b = take (nat remaining) firehose_chunk in
        if w \<le> 0 then Some [b] else map_option ((#) b) (firehose (remaining - w) ws'))"
  by pat_completeness auto
termination by (relation "measure (\<lambda>(_, ws). length ws)") auto

declare firehose.simps [simp del]

lemma firehose_stops:
  "\<forall>w\<in>set ws. 1 \<le> w \<and> w \<le> 256 \<Longrightarrow> remaining \<le> sum_list ws \<Longrightarrow> \<exists>bs. firehose remaining ws = Some bs \<and> length bs \<le> length ws"
proof (induction ws arbitrary: remaining)
  case Nil
  then show ?case by (simp add: firehose.simps)
next
  case (Cons w ws)
  then have "\<exists>bs. firehose (remaining - w) ws = Some bs \<and> length bs \<le> length ws" by (intro Cons.IH) auto
  then show ?case using Cons.prems by (subst firehose.simps) (auto simp: Let_def)
qed

text \<open>Whole chunks, when the pipe takes each in full.\<close>

lemma firehose_chunks:
  "firehose (256 * int n) (replicate n 256 @ ws) = Some (replicate n firehose_chunk)"
proof (induction n)
  case (Suc n)
  have "take (nat (256 * int (Suc n))) firehose_chunk = firehose_chunk"
    by (simp add: firehose_chunk_def nat_mult_distrib)
  then show ?case using Suc by (subst firehose.simps) (simp add: Let_def algebra_simps)
qed (simp add: firehose.simps)

lemma firehose_volume: "firehose FIREHOSE_BYTES (replicate 262144 256) = Some (replicate 262144 firehose_chunk)"
  using firehose_chunks [of 262144 "[]"] by (simp add: FIREHOSE_BYTES_def)

text \<open>
  \<^verbatim>\<open>layer-fill.c\<close>: the capacity it sees, the answer of its \<^verbatim>\<open>open\<close>, the answers of its writes. A count and
  the error that stopped it, or the ceiling.
\<close>

definition FILL_CEILING :: int where "FILL_CEILING = 4 * 1024 * 1024 * 1024"

fun fill :: "int \<Rightarrow> int list \<Rightarrow> (int \<times> int) option" where
  "fill wrote [] = None"
| "fill wrote (w # ws) =
     (if w < 0 then Some (wrote, - w)
      else if FILL_CEILING < wrote + w then Some (wrote + w, - 1)
      else fill (wrote + w) ws)"

definition layer_fill_main :: "(u64 \<times> u64, nat) sum \<Rightarrow> nat option \<Rightarrow> int list \<Rightarrow> bytes list option" where
  "layer_fill_main statvfs open_err ws =
     (let cap = (case statvfs of Inl (blocks, frsize) \<Rightarrow> ''[fill] capacity_bytes='' @ dec (unat (blocks * frsize))
                 | Inr e \<Rightarrow> ''[fill] statvfs=denied('' @ dec e @ '')'')
      in case open_err of
        Some e \<Rightarrow> Some [say_line (snprintf 128 cap), say_line (snprintf 128 (''[fill] open=denied('' @ dec e @ '')''))]
      | None \<Rightarrow> map_option (\<lambda>(n, e).
          [say_line (snprintf 128 cap), say_line ''[fill] open=ok'',
           say_line (snprintf 128 (''[fill] wrote='' @ dec_int n)),
           say_line (snprintf 128 (''[fill] stopped_errno='' @ dec_int e))]) (fill 0 ws))"

text \<open>A store of a given size: writes succeed whole while they fit, then one takes the rest, then \<^verbatim>\<open>ENOSPC\<close>.\<close>

definition store_writes :: "nat \<Rightarrow> int list" where
  "store_writes room = replicate (room div 65536) 65536 @ (if room mod 65536 = 0 then [] else [int (room mod 65536)]) @ [- 28]"

lemma fill_replicate:
  "0 \<le> s \<Longrightarrow> s + 65536 * int n \<le> FILL_CEILING \<Longrightarrow> fill s (replicate n 65536 @ ws) = fill (s + 65536 * int n) ws"
proof (induction n arbitrary: s)
  case (Suc n)
  then have "fill (s + 65536) (replicate n 65536 @ ws) = fill (s + 65536 + 65536 * int n) ws"
    by (intro Suc.IH) simp_all
  then show ?case using Suc.prems by (simp add: algebra_simps)
qed simp

lemma fill_measures:
  assumes "int room \<le> FILL_CEILING"
  shows "fill 0 (store_writes room) = Some (int room, 28)"
proof -
  have room: "int room = 65536 * int (room div 65536) + int (room mod 65536)"
    by (metis mult_div_mod_eq of_nat_add of_nat_mult of_nat_numeral)
  then show ?thesis
    using assms fill_replicate [of 0 "room div 65536"] by (simp add: store_writes_def)
qed

subsection \<open>A bound file, a bound terminal\<close>

text \<open>\<^verbatim>\<open>bindfile.c\<close>: the answer of opening the bind, and what the read gave.\<close>

definition bindfile_main :: "env \<Rightarrow> nat option \<Rightarrow> bytes option \<Rightarrow> bytes" where
  "bindfile_main env open_err got =
     (case var_of env ''NW_BIND_0'' of None \<Rightarrow> say_line ''bindfile bind=none''
      | Some b \<Rightarrow> case open_err of
        Some e \<Rightarrow> say_line (snprintf WIDTH (''bindfile open=denied('' @ dec e @ '')''))
      | None \<Rightarrow> say_line (snprintf WIDTH (''bindfile content=''
          @ takeWhile (\<lambda>c. c \<noteq> CHR 0x0A) (cstr (take 39 (case got of None \<Rightarrow> [] | Some d \<Rightarrow> d))))))"

text \<open>
  \<^verbatim>\<open>console-wrap.c\<close>: the three descriptors closed and opened again, then the shell. \<open>Inl\<close> is the exit status.
\<close>

definition wrap_fd :: "nat \<Rightarrow> bool \<Rightarrow> 'f \<Rightarrow> nat \<Rightarrow> 'f fdtab \<Rightarrow> nat + 'f fdtab" where
  "wrap_fd limit opens tty fd t =
     (case (if opens then fd_new limit tty False (fd_close fd t) else None) of
        None \<Rightarrow> Inl 97
      | Some (got, t') \<Rightarrow> if got \<noteq> fd then Inl 97 else Inr t')"

fun wrap_fds :: "nat \<Rightarrow> bool \<Rightarrow> 'f \<Rightarrow> nat list \<Rightarrow> 'f fdtab \<Rightarrow> nat + 'f fdtab" where
  "wrap_fds limit opens tty [] t = Inr t"
| "wrap_fds limit opens tty (fd # fds) t =
     (case wrap_fd limit opens tty fd t of Inl e \<Rightarrow> Inl e | Inr t' \<Rightarrow> wrap_fds limit opens tty fds t')"

definition console_wrap :: "nat \<Rightarrow> bool \<Rightarrow> bool \<Rightarrow> 'f \<Rightarrow> 'f fdtab \<Rightarrow> nat + (bytes list \<times> 'f fdtab)" where
  "console_wrap limit opens execs tty t =
     (case wrap_fds limit opens tty [0, 1, 2] t of Inl e \<Rightarrow> Inl e
      | Inr t' \<Rightarrow> if execs then Inr ([''sh''], fd_exec t') else Inl 98)"

lemma wrap_fd_lands:
  assumes "fd < limit" "\<forall>j<fd. t j \<noteq> None"
  shows "wrap_fd limit True tty fd t = Inr (t(fd \<mapsto> \<lparr>d_file = tty, d_cloexec = False\<rparr>))"
proof -
  have "fd_new limit tty False (fd_close fd t) = Some (fd, (fd_close fd t)(fd \<mapsto> \<lparr>d_file = tty, d_cloexec = False\<rparr>))"
    using assms by (intro fd_new_is) (auto simp: fd_close_def)
  then show ?thesis by (simp add: wrap_fd_def fd_close_def)
qed

text \<open>Whatever the house was given, its shell has the terminal on all three, and nothing else it had not.\<close>

lemma console_rewired:
  assumes "3 \<le> limit"
  shows "\<exists>t'. console_wrap limit True True tty t = Inr ([''sh''], t')
    \<and> (\<forall>fd. t' fd = (if fd < 3 then Some \<lparr>d_file = tty, d_cloexec = False\<rparr> else fd_exec t fd))"
proof -
  let ?d = "\<lparr>d_file = tty, d_cloexec = False\<rparr>"
  have "wrap_fds limit True tty [0, 1, 2] t = Inr (t(0 \<mapsto> ?d, 1 \<mapsto> ?d, 2 \<mapsto> ?d))"
    using assms wrap_fd_lands [of 0 limit t tty] wrap_fd_lands [of 1 limit "t(0 \<mapsto> ?d)" tty]
      wrap_fd_lands [of 2 limit "t(0 \<mapsto> ?d, 1 \<mapsto> ?d)" tty]
    by (auto simp: less_Suc_eq numeral_2_eq_2)
  moreover have "fd_exec (t(0 \<mapsto> ?d, 1 \<mapsto> ?d, 2 \<mapsto> ?d)) fd = (if fd < 3 then Some ?d else fd_exec t fd)" for fd
    by (auto simp: fd_exec_def less_Suc_eq numeral_3_eq_3)
  ultimately show ?thesis by (simp add: console_wrap_def)
qed

subsection \<open>Reaching out\<close>

text \<open>\<^verbatim>\<open>console-escape-probe.c\<close>: each call's answer, negated error where it fails, on a line.\<close>

definition probe_report :: "(nat \<Rightarrow> bytes) \<Rightarrow> bytes \<Rightarrow> int \<Rightarrow> bytes" where
  "probe_report strerror what r =
     ''PROBE '' @ what @ '' rc='' @ dec_int (if r < 0 then - 1 else r) @ '' errno='' @ dec_int (if r < 0 then - r else 0)
     @ ''('' @ (if r < 0 then strerror (nat (- r)) else ''-'') @ '')\<newline>''"

definition fs_probes :: "bytes list" where
  "fs_probes = [''mknod_char'', ''mknod_block'', ''mkdir_root'', ''mount_tmpfs'', ''mount_bind_root'',
     ''mknod_char_in_layer'', ''mknod_block_in_layer'', ''unshare_newns'', ''pivot_root_noop'']"

text \<open>The probe of one process, and what its calls answer; \<open>rk_left\<close> is the error the last one left.\<close>

datatype reach = Seize int | Detach int | ReadVm int | Sigkill int | Tell bytes int

record reach_kernel =
  rk_alive :: "int \<Rightarrow> bool"
  rk_seize :: "int \<Rightarrow> int"
  rk_read :: "int \<Rightarrow> int"
  rk_kill :: "int \<Rightarrow> int"
  rk_left :: int

definition reach_battery :: "reach_kernel \<Rightarrow> int \<Rightarrow> reach list" where
  "reach_battery k pid =
     [Seize pid, Tell (snprintf 40 (''reach_ptrace_seize_pid'' @ dec_int pid)) (rk_seize k pid)]
     @ (if rk_seize k pid = 0 then [Detach pid] else [])
     @ [ReadVm pid, Tell (snprintf 40 (''reach_vm_readv_pid'' @ dec_int pid)) (rk_read k pid),
        Sigkill pid, Tell (snprintf 40 (''reach_sigkill_pid'' @ dec_int pid)) (rk_kill k pid)]"

fun sweep :: "reach_kernel \<Rightarrow> int \<Rightarrow> int \<Rightarrow> int list \<Rightarrow> reach list" where
  "sweep k self mine [] = []"
| "sweep k self mine (pid # pids) =
     (if pid < 10 \<or> pid = 1 \<or> pid = self \<or> pid = mine \<or> \<not> rk_alive k pid then sweep k self mine pids
      else Tell (snprintf 40 (''reach_exists_pid'' @ dec_int pid)) 0 # reach_battery k pid @ sweep k self mine pids)"

definition reach_probes :: "reach_kernel \<Rightarrow> int \<Rightarrow> int \<Rightarrow> reach list" where
  "reach_probes k self mine =
     (let acts = sweep k self mine [self - 30..self + 30]
      in if acts = [] then [Tell ''reach_nothing_found'' (- rk_left k)] else acts)"

definition escape_main :: "(nat \<Rightarrow> bytes) \<Rightarrow> (bytes \<Rightarrow> int) \<Rightarrow> reach_kernel \<Rightarrow> int \<Rightarrow> int \<Rightarrow> bytes list" where
  "escape_main strerror fs k self mine =
     map (\<lambda>w. probe_report strerror w (fs w)) fs_probes
     @ concat (map (\<lambda>a. case a of Tell w r \<Rightarrow> [probe_report strerror w r] | _ \<Rightarrow> []) (reach_probes k self mine))"

lemma sweep_kills: "Sigkill p \<in> set (sweep k self mine pids)
    \<longleftrightarrow> p \<in> set pids \<and> 10 \<le> p \<and> p \<noteq> self \<and> p \<noteq> mine \<and> rk_alive k p"
  by (induction pids) (auto simp: reach_battery_def)

text \<open>The probe attacks just the living of its window, and never the init, itself or its supervisor.\<close>

lemma reach_spares:
  "Sigkill p \<in> set (reach_probes k self mine)
    \<longleftrightarrow> self - 30 \<le> p \<and> p \<le> self + 30 \<and> 10 \<le> p \<and> p \<noteq> self \<and> p \<noteq> mine \<and> rk_alive k p"
  using sweep_kills [of p k self mine "[self - 30..self + 30]"]
  by (cases "sweep k self mine [self - 30..self + 30] = []") (auto simp: reach_probes_def Let_def)

text \<open>
  The two results of the suite's measurement: where nothing but the probe and its supervisor lives in the
  window it says so, and a victim in it is found.
\<close>

lemma reach_nothing:
  "(\<forall>p. self - 30 \<le> p \<and> p \<le> self + 30 \<and> 10 \<le> p \<longrightarrow> p = self \<or> p = mine \<or> \<not> rk_alive k p)
     \<longleftrightarrow> reach_probes k self mine = [Tell ''reach_nothing_found'' (- rk_left k)]"
proof -
  have "sweep k self mine pids = [] \<longleftrightarrow> (\<forall>p\<in>set pids. p < 10 \<or> p = self \<or> p = mine \<or> \<not> rk_alive k p)" for pids
    by (induction pids) auto
  moreover have "sweep k self mine pids \<noteq> [Tell w e]" for pids w e
    by (induction pids) (auto simp: reach_battery_def)
  ultimately have "reach_probes k self mine = [Tell ''reach_nothing_found'' (- rk_left k)]
      \<longleftrightarrow> (\<forall>p. self - 30 \<le> p \<and> p \<le> self + 30 \<longrightarrow> p < 10 \<or> p = self \<or> p = mine \<or> \<not> rk_alive k p)"
    by (simp add: reach_probes_def Let_def Ball_def)
  then show ?thesis by (metis not_less)
qed

text \<open>\<^verbatim>\<open>reach-victim.c\<close> sleeps and ends; the time it sleeps, and its status.\<close>

definition victim_main :: "nat \<times> nat" where
  "victim_main = (8, 0)"

end
