(* ===== verification/Spec2Isabelle.thy ===== *)
theory Spec2Isabelle
  imports ShaVectors Store Lids Decide HandoffSpec CityBoot Pid1End Logger Cgroup SupProps Evidence House Control Dawn Tools Lab Systems
    Harness Wire Probes
begin

text \<open>
  A model of the city: a small init whose processes are started from one sealed plan, and the theorems
  that make it correct.

  \<^bold>\<open>The program.\<close> A plan is baked offline into a sealed blob. \<^verbatim>\<open>dawn.c\<close> mounts the root and
  executes \<^verbatim>\<open>pid1.c\<close>, which is process 1 and picks the slot, reads the
  blob, has \<^verbatim>\<open>nw_check\<close> of \<^verbatim>\<open>nwcheck.c\<close> validate it, checks its descriptor limit, forks one logger per
  house and runs \<^verbatim>\<open>nwspawn.c\<close>. The spawner reads the blob again, makes one socket pair per edge, gives
  each house a kit of descriptors and an environment, forks one \<^verbatim>\<open>nwsup.c\<close> per house and reports their
  process numbers to process 1. Each supervisor parses its environment, puts every generation of its
  house into a cgroup of its own, lets the child confine itself (namespaces, brick, Landlock,
  capabilities, seccomp of \<^verbatim>\<open>lids.c\<close>) and execute, waits, asks \<^verbatim>\<open>nw_decide\<close> of \<^verbatim>\<open>decide.c\<close> what to do after
  a death, and writes an evidence record through the store of \<^verbatim>\<open>store.c\<close> under the hash of \<^verbatim>\<open>sha256.c\<close>.
  Process 1 reaps, and at the end shuts the city down and powers the machine off.

  \<^bold>\<open>The theories.\<close>
  \<^item> \<open>NwPrelude\<close>: the types of the model (bytes, words), the checked read \<open>idx\<close> by which every array access
    goes, and the lemmas on lists and words that all theories share.
  \<^item> \<open>Blob\<close> (\<^verbatim>\<open>blob.h\<close>): the limits, the records of the format and their offsets, the accessors, the size
    macros. \<open>Checks\<close>, \<open>DupTab\<close>, \<open>NwCheck\<close> (\<^verbatim>\<open>nwcheck.c\<close>): the leaves of the validator, the hashed search for
    duplicates, and \<open>nw_check\<close>. \<open>Seal\<close>: what the validator accepts, and what its seal detects.
  \<^item> \<open>Sha256\<close>, \<open>ShaVectors\<close> (\<^verbatim>\<open>sha256.c\<close>): the hash against its standard. \<open>Store\<close> (\<^verbatim>\<open>store.c\<close>): the store,
    one call against any answers of the kernel, and the interleavings of many writers.
  \<^item> \<open>CText\<close>: what the program uses of the C library's text functions (\<^verbatim>\<open>snprintf\<close>, \<^verbatim>\<open>atoi\<close>, \<^verbatim>\<open>strtoul\<close>).
    \<open>FdTable\<close>: descriptor tables with close-on-exec.
  \<^item> \<open>Handoff\<close>, \<open>HandoffSpec\<close>: the environment \<^verbatim>\<open>nwspawn.c\<close> writes and the parser of \<^verbatim>\<open>nwsup.c\<close> that reads it.
  \<^item> \<open>Spawn\<close>, \<open>SpawnMain\<close> (\<^verbatim>\<open>nwspawn.c\<close>): \<^verbatim>\<open>pack_kit\<close> and the whole of \<^verbatim>\<open>main\<close>.
  \<^item> \<open>Pid1Args\<close>, \<open>Pid1Boot\<close>, \<open>Pid1City\<close>, \<open>CityBoot\<close>, \<open>Pid1Run\<close>, \<open>Pid1End\<close> (\<^verbatim>\<open>pid1.c\<close>): options and slots, the boot,
    its lemmas, the boot composed with the model of the spawner, reaping and the loop, the shutdown and
    the end. \<open>Logger\<close>: the process that keeps the tail of a house's output.
  \<^item> \<open>Decide\<close> (\<^verbatim>\<open>decide.c\<close>): the decision core.
  \<^item> \<open>Supervisor\<close>, \<open>SupProofs\<close>, \<open>SupSpec\<close>, \<open>SupProps\<close> (\<^verbatim>\<open>nwsup.c\<close>): the supervisor as an executable step function
    and a transition relation, its invariants, the abstract life of a house it refines, and its properties.
    \<open>Systems\<close>: the interfaces for these proofs, transition systems, invariants and simulations, as locales.
  \<^item> \<open>Cgroup\<close>, \<open>Evidence\<close>, \<open>Confine\<close>, \<open>Brick\<close>, \<open>House\<close> (\<^verbatim>\<open>nwsup.c\<close>): the generation's cgroup, the evidence record,
    the Landlock and capability lids, the brick lid, and the child from the clone to \<^verbatim>\<open>execv\<close>.
  \<^item> \<open>Control\<close> (\<^verbatim>\<open>nwsup.c\<close>): the signal mask, the control directory and its socket, before the loop.
  \<^item> \<open>Dawn\<close> (\<^verbatim>\<open>dawn.c\<close>): the mounts and the swap of roots before process 1. \<open>Tools\<close> (\<^verbatim>\<open>nwcheck_main.c\<close>,
    \<^verbatim>\<open>tools/unit-info.c\<close>, \<^verbatim>\<open>rescue.c\<close>): the programs beside the boot. \<open>Lab\<close> (\<^verbatim>\<open>tools/initrd-init.c\<close>,
    \<^verbatim>\<open>unit_probe.c\<close>, \<^verbatim>\<open>tools/bootneed-oracle.c\<close>, \<^verbatim>\<open>tools/cloexec-proof.c\<close>): the programs of the lab, each of
    which tries on a machine what another theory says of the model.
  \<^item> \<open>Lids\<close> (\<^verbatim>\<open>lids.c\<close>): the emitter of the seccomp filter, and a machine for such filters.
  \<^item> \<open>Harness\<close> (\<^verbatim>\<open>proofs/\<close>): the assumptions and assertions of the bounded proofs, each proved without its bound.
  \<^item> \<open>Wire\<close>, \<open>BrickHouse\<close>, \<open>Fixtures\<close>, \<open>Probes\<close> (\<^verbatim>\<open>houses/\<close>): the programs that test cities run as houses. Each is
    joined with the part it is there to show: \<^verbatim>\<open>wire.c\<close> with the edges of the plan and the kit, \<^verbatim>\<open>brick.c\<close> with
    the Landlock lid and the filter, the padded lines with the logger's reads, the failing houses with
    \<open>nw_decide\<close>, \<^verbatim>\<open>console-wrap.c\<close> with the descriptor table.

  \<^bold>\<open>State and effects.\<close> A struct is a record with the fields of the source, an integer a word of its width. A
  \<^verbatim>\<open>die\<close> is a left value with its message. A call of the kernel that can answer in several ways has its
  answer as an argument, so that a theorem covers all of them; what a successful call changes (descriptor
  tables, files, the mount table, capabilities, limits) is written out. The processes that run beside the
  modelled one are arguments too, except where a property is about their composition: \<open>city_opens\<close> runs
  the model of the spawner, whose houses' environments \<open>handoff_roundtrip\<close> parses back.

  \<^bold>\<open>The lemmas.\<close> For each component the steps are characterised first (what each leaves, when it fails), then
  the invariants its steps keep, and the properties rest on these. The validator is proved equal to a
  declarative well-formedness; the hash to the standard; the parser of the environment inverse to its
  writer; the tail file equal to the last bytes of all that was written. The supervisor's machine is
  proved to refine the abstract life of a house, from which the budget, the order of sweeps and forks,
  and the bound on a stop are read off. The child's steps are proved to suffice in their order, and to
  leave exactly the declared confinement; the last property composes the validator, the spawner's
  environment, the supervisor's parser and the child.

  \<^bold>\<open>Bounds.\<close> Loops over arrays and tables recurse over the list or with a measure. The loops of the kernel's
  making are bounded by an argument that lists its answers, one per turn: the poll loop of process 1 and
  its two waits at shutdown (\<open>None\<close> where the list ends too soon; the properties show which lists are long
  enough), the loop device attempts (\<open>NW_MAX_UNITS\<close>, as in the source), and the machine of the
  supervisor, which is a transition relation without end.

  \<^bold>\<open>Not modelled.\<close> Console lines other than those a property is about; the harnesses under \<^verbatim>\<open>tests/\<close>, which
  drive the built programs from outside; the second build of \<^verbatim>\<open>houses/orphan.c\<close>, whose parent sleeps;
  \<^verbatim>\<open>attic/\<close>, which is not built and uses fields the format no longer has; the baker, which is not C. The
  kernel is modelled as far as the program relies on it and no further: mounts of other processes, the
  scheduler, and the contents of images are outside.
\<close>

subsection \<open>From the sealed plan to the confined house\<close>

lemma cap_last_bound: "nw_cap_last_cap file = Inr n \<Longrightarrow> n \<le> 63"
  by (auto simp: nw_cap_last_cap_def die_if_Inr Let_def split: option.splits prod.splits)

lemma cfg_of_selectors:
  assumes "unit_wf u"
  shows "c_path (cfg_of u paths) = cstr (u_exec_path u)" "c_name (cfg_of u paths) = cstr (u_name u)"
    "c_binds (cfg_of u paths) = paths" "c_capabilities (cfg_of u paths) = u_capabilities u"
    "c_nofile (cfg_of u paths) = u_nofile u" "c_cpu_mask (cfg_of u paths) = r_cpu_mask (u_res u)"
    "c_nice (cfg_of u paths) = sint (r_nice (u_res u))"
    "c_oom_score_adj (cfg_of u paths) = sint (r_oom_score_adj (u_res u))"
    "has_lid32 (c_lids (cfg_of u paths)) l = has_lid (u_lids u) l"
    "c_layer_bytes (cfg_of u paths) = r_layer_bytes (u_res u)"
    "c_brick (cfg_of u paths) = (if nw_unit_has_brick u then Some (brick_path (hex_of (u_brick u))) else None)"
    "nw_unit_has_brick u \<Longrightarrow> c_layer (cfg_of u paths) = Some (cstr (u_layer u))"
  using assms by (simp_all add: cfg_of_def has_lid32_ucast unit_wf_def)

text \<open>The brick of a unit is there or not, whichever way it is asked.\<close>

lemma case_declared:
  "(case (if b then Some x else None) of None \<Rightarrow> A | Some y \<Rightarrow> B y) \<longleftrightarrow> (if b then B x else A)"
  by simp



end
